(* ===== verification/Mesh_Prelude.thy ===== *)
theory Mesh_Prelude
  imports Main "HOL-Library.AList" "HOL-Library.Multiset" "HOL-Library.Word"
begin

text \<open>
  Shared vocabulary of the ToskaMesh development.

  \<^item> Go's \<^verbatim>\<open>int\<close> and \<^verbatim>\<open>int64\<close> as integers with the two's complement wrap-around written
    out (\<open>wrap64\<close>); counters whose width matters in a proof are kept as \<open>64 word\<close>.
  \<^item> \<^verbatim>\<open>time.Time\<close> as nanoseconds since Go's zero time and \<^verbatim>\<open>time.Duration\<close> as nanoseconds,
    with the saturating \<^verbatim>\<open>Sub\<close> of the \<^verbatim>\<open>time\<close> package.
  \<^item> Go maps as association lists: the list order is the (unspecified) iteration order, and
    a theorem about every well-formed list covers every order the runtime may choose.
  \<^item> The locales \<open>finite_map\<close> (what map reads return after map writes) and \<open>get_or_create\<close>
    (the lookup-or-insert idiom that six operations of the program share).
\<close>

named_theorems go_defs \<open>definitions of the Go runtime and library vocabulary\<close>
named_theorems gm_simps \<open>reads of a Go map after a write\<close>

section \<open>Integers\<close>

type_synonym go_int = int
type_synonym int64 = "64 word"
type_synonym uint32 = "32 word"

definition maxInt64 :: int where
  "maxInt64 = 9223372036854775807"

definition minInt64 :: int where
  "minInt64 = - 9223372036854775808"

text \<open>The value that a 64-bit signed variable holds after an assignment of \<open>x\<close>.\<close>

definition wrap64 :: "int \<Rightarrow> int" where
  "wrap64 x = (x + 9223372036854775808) mod 18446744073709551616 - 9223372036854775808"

definition wrap32 :: "int \<Rightarrow> int" where
  "wrap32 x = (x + 2147483648) mod 4294967296 - 2147483648"

definition is_int64 :: "int \<Rightarrow> bool" where
  "is_int64 x \<longleftrightarrow> minInt64 \<le> x \<and> x \<le> maxInt64"

definition is_int32 :: "int \<Rightarrow> bool" where
  "is_int32 x \<longleftrightarrow> - 2147483648 \<le> x \<and> x \<le> 2147483647"

section \<open>Time\<close>

type_synonym time = int
type_synonym duration = int

definition zero_time :: time where
  "zero_time = 0"

definition IsZero :: "time \<Rightarrow> bool" where
  "IsZero t \<longleftrightarrow> t = zero_time"

abbreviation Millisecond :: duration where "Millisecond \<equiv> 1000000"
abbreviation Second :: duration where "Second \<equiv> 1000000000"
abbreviation Minute :: duration where "Minute \<equiv> 60000000000"

definition time_Sub :: "time \<Rightarrow> time \<Rightarrow> duration" where
  "time_Sub t u = max minInt64 (min maxInt64 (t - u))"

definition time_Add :: "time \<Rightarrow> duration \<Rightarrow> time" where
  "time_Add t d = t + d"

definition time_After :: "time \<Rightarrow> time \<Rightarrow> bool" where
  "time_After t u \<longleftrightarrow> u < t"

definition time_Before :: "time \<Rightarrow> time \<Rightarrow> bool" where
  "time_Before t u \<longleftrightarrow> t < u"

text \<open>Seconds from the zero time (1 January of year 1) to the Unix epoch.\<close>

definition unixEpoch :: int where
  "unixEpoch = 62135596800"

definition UnixNano :: "time \<Rightarrow> int" where
  "UnixNano t = wrap64 (t - unixEpoch * 1000000000)"

definition Unix :: "time \<Rightarrow> int" where
  "Unix t = wrap64 (t div 1000000000 - unixEpoch)"

section \<open>Go maps\<close>

type_synonym ('k, 'v) gomap = "('k \<times> 'v) list"

definition gm_get :: "('k, 'v) gomap \<Rightarrow> 'k \<Rightarrow> 'v option" where
  "gm_get m k = map_of m k"

definition gm_set :: "'k \<Rightarrow> 'v \<Rightarrow> ('k, 'v) gomap \<Rightarrow> ('k, 'v) gomap" where
  "gm_set k v m = AList.update k v m"

definition gm_del :: "'k \<Rightarrow> ('k, 'v) gomap \<Rightarrow> ('k, 'v) gomap" where
  "gm_del k m = filter (\<lambda>e. fst e \<noteq> k) m"

text \<open>A loop over the entries that deletes those which do not satisfy \<open>P\<close>.\<close>

definition gm_filter :: "('k \<Rightarrow> 'v \<Rightarrow> bool) \<Rightarrow> ('k, 'v) gomap \<Rightarrow> ('k, 'v) gomap" where
  "gm_filter P m = filter (\<lambda>e. P (fst e) (snd e)) m"

text \<open>A loop over the entries that updates each value in place.\<close>

definition gm_map :: "('v \<Rightarrow> 'w) \<Rightarrow> ('k, 'v) gomap \<Rightarrow> ('k, 'w) gomap" where
  "gm_map f m = map (\<lambda>e. (fst e, f (snd e))) m"

definition gm_values :: "('k, 'v) gomap \<Rightarrow> 'v list" where
  "gm_values m = map snd m"

text \<open>The zero value of the element type is read for a missing key.\<close>

definition gm_get_or :: "'v \<Rightarrow> ('k, 'v) gomap \<Rightarrow> 'k \<Rightarrow> 'v" where
  "gm_get_or z m k = (case gm_get m k of None \<Rightarrow> z | Some v \<Rightarrow> v)"

definition gm_wf :: "('k, 'v) gomap \<Rightarrow> bool" where
  "gm_wf m \<longleftrightarrow> distinct (map fst m)"

section \<open>Integer lemmas\<close>

lemmas int_range_defs = maxInt64_def minInt64_def is_int64_def is_int32_def

lemma wrap64_id [simp]: "is_int64 x \<Longrightarrow> wrap64 x = x"
  unfolding wrap64_def int_range_defs by (subst mod_pos_pos_trivial) auto

lemma wrap64_range [simp, intro]: "is_int64 (wrap64 x)"
proof -
  have "0 \<le> (x + 9223372036854775808) mod 18446744073709551616"
    and "(x + 9223372036854775808) mod 18446744073709551616 < 18446744073709551616"
    by simp_all
  then show ?thesis unfolding wrap64_def int_range_defs by linarith
qed

lemma wrap32_id [simp]: "is_int32 x \<Longrightarrow> wrap32 x = x"
  unfolding wrap32_def int_range_defs by (subst mod_pos_pos_trivial) auto

lemma is_int32_64: "is_int32 x \<Longrightarrow> is_int64 x"
  unfolding int_range_defs by linarith

lemma wrap64_nonneg: "0 \<le> x \<Longrightarrow> x \<le> maxInt64 \<Longrightarrow> wrap64 x = x"
  by (rule wrap64_id) (simp add: int_range_defs)

lemma wrap64_Suc_bounded:
  assumes "0 \<le> x" and "x < y" and "is_int64 y"
  shows "wrap64 (x + 1) = x + 1"
  using assms by (intro wrap64_nonneg) (auto simp: int_range_defs)

text \<open>The elapsed-time test of the program is not affected by the saturation of \<^verbatim>\<open>Sub\<close>.\<close>

lemma time_Sub_ge_iff:
  assumes "is_int64 d" and "minInt64 < d"
  shows "d \<le> time_Sub t u \<longleftrightarrow> u + d \<le> t"
  using assms unfolding time_Sub_def int_range_defs by (auto simp: max_def min_def)

text \<open>The signed reading of a 64-bit word.\<close>

lemma sint_range64 [simp]: "is_int64 (sint (w :: int64))"
  using sint_range_size [of w] by (simp add: int_range_defs word_size)

lemma sint_of_int64: "is_int64 i \<Longrightarrow> sint (word_of_int i :: int64) = i"
  unfolding sint_sbintrunc' by (rule signed_take_bit_int_eq_self) (simp_all add: int_range_defs)

lemma sint_uminus64: "sint (w :: int64) \<noteq> minInt64 \<Longrightarrow> sint (- w) = - sint w"
  unfolding sint_word_minus using sint_range64 [of w]
  by (intro signed_take_bit_int_eq_self) (simp_all add: int_range_defs)

lemma sint_Suc64: "sint (w :: int64) < maxInt64 \<Longrightarrow> sint (w + 1) = sint w + 1"
  using sint_range64 [of w] sint_of_int64 [of "sint w + 1"]
  by (simp add: int_range_defs)

lemma sint_pred64: "minInt64 < sint (w :: int64) \<Longrightarrow> sint (w - 1) = sint w - 1"
  using sint_range64 [of w] sint_of_int64 [of "sint w - 1"]
  by (simp add: int_range_defs)

lemma nat_int_mod: "nat (int a mod int b) = a mod b"
  by (metis nat_int of_nat_mod)

section \<open>List lemmas\<close>

lemma mset_rotate1 [simp]: "mset (rotate1 xs) = mset xs"
  by (cases xs) auto

lemma mset_rotate [simp]: "mset (rotate n xs) = mset xs"
  by (induction n) auto

lemma image_mset_repeat: "image_mset f (repeat_mset m M) = repeat_mset m (image_mset f M)"
  by (induction m) auto

text \<open>Reading a list cyclically for one whole round.\<close>

lemma cyclic_round: "map (\<lambda>j. xs ! ((a + j) mod length xs)) [0..<length xs] = rotate a xs"
  by (rule nth_equalityI) (auto simp: nth_rotate)

lemma cyclic_rounds:
  "mset (map (\<lambda>j. xs ! ((a + j) mod length xs)) [0..<m * length xs]) = repeat_mset m (mset xs)"
proof (induction m arbitrary: a)
  case 0
  then show ?case by simp
next
  case (Suc m)
  let ?n = "length xs" and ?f = "\<lambda>a j. xs ! ((a + j) mod length xs)"
  have "[0..<Suc m * ?n] = [0..<?n] @ map (\<lambda>j. j + ?n) [0..<m * ?n]"
    using upt_add_eq_append [of 0 ?n "m * ?n"] map_add_upt [of ?n "m * ?n"]
    by (simp add: add.commute)
  then have "mset (map (?f a) [0..<Suc m * ?n]) =
      mset (map (?f a) [0..<?n]) + mset (map (?f (a + ?n)) [0..<m * ?n])"
    by (simp add: comp_def add_ac)
  with Suc show ?case by (simp add: cyclic_round)
qed

lemma find_SomeD: "find P xs = Some x \<Longrightarrow> x \<in> set xs \<and> P x"
  by (induction xs) (auto split: if_splits)

lemma find_unique:
  assumes "x \<in> set xs" and "P x" and "\<And>y. y \<in> set xs \<Longrightarrow> P y \<Longrightarrow> y = x"
  shows "find P xs = Some x"
proof (cases "find P xs")
  case None
  then show ?thesis using assms(1,2) by (auto simp: find_None_iff)
next
  case (Some y)
  then show ?thesis using find_SomeD [OF Some] assms(3) by simp
qed

section \<open>Map lemmas\<close>

lemma gm_get_nil [simp]: "gm_get [] k = None"
  by (simp add: gm_get_def)

lemma gm_get_cons: "gm_get ((a, v) # m) k = (if k = a then Some v else gm_get m k)"
  by (simp add: gm_get_def)

lemma gm_get_set [gm_simps]: "gm_get (gm_set k v m) k' = (if k' = k then Some v else gm_get m k')"
  by (simp add: gm_get_def gm_set_def update_conv')

lemma gm_get_del [gm_simps]: "gm_get (gm_del k m) k' = (if k' = k then None else gm_get m k')"
  unfolding gm_get_def gm_del_def by (induction m) auto

lemma gm_get_Some_set: "gm_get m k = Some v \<Longrightarrow> (k, v) \<in> set m"
  by (simp add: gm_get_def map_of_SomeD)

lemma gm_get_iff: "gm_wf m \<Longrightarrow> gm_get m k = Some v \<longleftrightarrow> (k, v) \<in> set m"
  by (simp add: gm_get_def gm_wf_def)

lemma gm_get_None_iff: "gm_get m k = None \<longleftrightarrow> k \<notin> fst ` set m"
  by (simp add: gm_get_def map_of_eq_None_iff)

lemma gm_get_map [gm_simps]: "gm_get (gm_map f m) k = map_option f (gm_get m k)"
  unfolding gm_get_def gm_map_def by (induction m) auto

lemma gm_get_filter [gm_simps]:
  "gm_wf m \<Longrightarrow> gm_get (gm_filter P m) k =
     (case gm_get m k of None \<Rightarrow> None | Some v \<Rightarrow> if P k v then Some v else None)"
proof (induction m)
  case Nil
  then show ?case by (simp add: gm_get_def gm_filter_def)
next
  case (Cons e m)
  obtain a v where e: "e = (a, v)" by (cases e)
  have "gm_get m a = None" using Cons.prems e
    by (auto simp: gm_get_None_iff gm_wf_def)
  then show ?case using Cons e
    by (auto simp: gm_wf_def gm_filter_def gm_get_cons split: option.splits)
qed

lemma gm_wf_nil [simp, intro]: "gm_wf []"
  by (simp add: gm_wf_def)

lemma gm_wf_set [simp, intro]: "gm_wf m \<Longrightarrow> gm_wf (gm_set k v m)"
  by (simp add: gm_wf_def gm_set_def distinct_update)

lemma gm_wf_filter [simp, intro]: "gm_wf m \<Longrightarrow> gm_wf (gm_filter P m)"
  unfolding gm_wf_def gm_filter_def by (simp add: distinct_map_filter)

lemma gm_wf_del [simp, intro]: "gm_wf m \<Longrightarrow> gm_wf (gm_del k m)"
  unfolding gm_wf_def gm_del_def by (simp add: distinct_map_filter)

lemma gm_wf_map [simp, intro]: "gm_wf m \<Longrightarrow> gm_wf (gm_map f m)"
  unfolding gm_wf_def gm_map_def by (simp add: comp_def)

lemma gm_values_iff: "gm_wf m \<Longrightarrow> v \<in> set (gm_values m) \<longleftrightarrow> (\<exists>k. gm_get m k = Some v)"
  by (force simp: gm_values_def gm_get_iff)

text \<open>Summing a field over the values of a map: a write replaces one summand.\<close>

definition gm_sum :: "('v \<Rightarrow> 'a::ab_group_add) \<Rightarrow> ('k, 'v) gomap \<Rightarrow> 'a" where
  "gm_sum f m = sum_list (map f (gm_values m))"

lemma gm_sum_Nil [simp]: "gm_sum f [] = 0"
  by (simp add: gm_sum_def gm_values_def)

lemma gm_sum_set:
  "gm_wf m \<Longrightarrow> gm_sum f (gm_set k v m) =
     gm_sum f m + f v - (case gm_get m k of None \<Rightarrow> 0 | Some old \<Rightarrow> f old)"
proof (induction m)
  case Nil
  then show ?case by (simp add: gm_sum_def gm_values_def gm_set_def gm_get_def)
next
  case (Cons e m)
  obtain a w where e: "e = (a, w)" by (cases e)
  then show ?case using Cons
    by (auto simp: gm_sum_def gm_values_def gm_set_def gm_get_def gm_wf_def algebra_simps
        split: option.splits)
qed

lemma gm_sum_filter:
  "sum_list (map f (filter P (gm_values m))) = gm_sum (\<lambda>v. if P v then f v else 0) m"
  unfolding gm_sum_def by (induction m) (auto simp: gm_values_def)

section \<open>Interfaces\<close>

text \<open>
  What the program relies on when it uses a Go map: a read after a write, and that no
  operation duplicates a key.
\<close>

locale finite_map =
  fixes get :: "'m \<Rightarrow> 'k \<Rightarrow> 'v option"
    and put :: "'k \<Rightarrow> 'v \<Rightarrow> 'm \<Rightarrow> 'm"
    and del :: "'k \<Rightarrow> 'm \<Rightarrow> 'm"
    and wf :: "'m \<Rightarrow> bool"
  assumes get_put: "get (put k v m) k' = (if k' = k then Some v else get m k')"
    and get_del: "get (del k m) k' = (if k' = k then None else get m k')"
    and wf_put: "wf m \<Longrightarrow> wf (put k v m)"
    and wf_del: "wf m \<Longrightarrow> wf (del k m)"
begin

lemma put_commutes:
  "j \<noteq> k \<Longrightarrow> get (put j v (put k w m)) = get (put k w (put j v m))"
  by (rule ext) (simp add: get_put)

lemma fold_put_frame:
  "k \<notin> set ks \<Longrightarrow> get (fold (\<lambda>i m. put i (f i m) m) ks m) k = get m k"
  by (induction ks arbitrary: m) (auto simp: get_put)

lemma fold_del_get: "get (fold del ks m) k = (if k \<in> set ks then None else get m k)"
  by (induction ks arbitrary: m) (auto simp: get_del)

lemma fold_del_wf: "wf m \<Longrightarrow> wf (fold del ks m)"
  by (induction ks arbitrary: m) (auto simp: wf_del)

end

interpretation gm: finite_map gm_get gm_set gm_del gm_wf
  by unfold_locales (auto simp: gm_simps)

text \<open>
  The lookup-or-insert idiom: \<^verbatim>\<open>v, ok := m[k]; if !ok { v = fresh; m[k] = v }; return v\<close>.
\<close>

locale get_or_create =
  fixes look :: "'s \<Rightarrow> 'k \<Rightarrow> 'v option"
    and goc :: "'k \<Rightarrow> 's \<Rightarrow> 'v \<times> 's"
    and fresh :: "'s \<Rightarrow> 'v"
  assumes goc_val: "fst (goc k s) = (case look s k of None \<Rightarrow> fresh s | Some v \<Rightarrow> v)"
    and goc_same: "look (snd (goc k s)) k = Some (fst (goc k s))"
    and goc_other: "k' \<noteq> k \<Longrightarrow> look (snd (goc k s)) k' = look s k'"
begin

lemma goc_existing: "look s k = Some v \<Longrightarrow> fst (goc k s) = v \<and> look (snd (goc k s)) = look s"
  by (metis (no_types, lifting) ext goc_other goc_same goc_val option.simps(5))

lemma goc_idem: "fst (goc k (snd (goc k s))) = fst (goc k s)"
  by (simp add: goc_val goc_same)

lemma goc_look: "look (snd (goc k s)) = (look s)(k \<mapsto> fst (goc k s))"
  by (rule ext) (simp add: goc_same goc_other)

end

section \<open>Background loops\<close>

text \<open>
  The loop \<^verbatim>\<open>for { select { case <-ctx.Done(): return; case <-ticker.C: body() } }\<close>: its events are the
  cases that \<^verbatim>\<open>select\<close> takes, a tick with what the outside answers to the body in that round. A loop
  whose events have run out is still running; creating a ticker with a period that is not
  positive panics.
\<close>

datatype 'a select = Tick 'a | Cancelled

datatype 's run_result = Running 's | Stopped 's | Panicked 's

fun select_loop :: "('a \<Rightarrow> 's \<Rightarrow> 's) \<Rightarrow> 'a select list \<Rightarrow> 's \<Rightarrow> 's run_result" where
  "select_loop f [] s = Running s"
| "select_loop f (Cancelled # es) s = Stopped s"
| "select_loop f (Tick a # es) s = select_loop f es (f a s)"

text \<open>The rounds before the cancellation.\<close>

fun rounds :: "'a select list \<Rightarrow> 'a list" where
  "rounds [] = []"
| "rounds (Cancelled # es) = []"
| "rounds (Tick a # es) = a # rounds es"

lemma select_loop_rounds:
  "select_loop f es s =
     (if Cancelled \<in> set es then Stopped (fold f (rounds es) s) else Running (fold f (rounds es) s))"
  by (induction f es s rule: select_loop.induct) auto

text \<open>The state that a loop is in, or was left in.\<close>

fun loop_state :: "'s run_result \<Rightarrow> 's" where
  "loop_state (Running s) = s"
| "loop_state (Stopped s) = s"
| "loop_state (Panicked s) = s"

lemma loop_state_rounds [simp]: "loop_state (select_loop f es s) = fold f (rounds es) s"
  by (simp add: select_loop_rounds)

text \<open>
  Loops that poll: a round asks for a listing, which may fail, and for something that goes with it.
  The last listing that succeeded is what the state reflects, whatever came before it and however
  many rounds have failed since.
\<close>

definition latest :: "(('e + 'n) \<times> 'a) list \<Rightarrow> ('n \<times> 'a) option" where
  "latest rs = fold (\<lambda>(listing, a) acc. case listing of Inl _ \<Rightarrow> acc | Inr n \<Rightarrow> Some (n, a)) rs None"

lemma latest_Nil [simp]: "latest [] = None"
  by (simp add: latest_def)

lemma latest_snoc [simp]:
  "latest (rs @ [(listing, a)]) = (case listing of Inl _ \<Rightarrow> latest rs | Inr n \<Rightarrow> Some (n, a))"
  by (simp add: latest_def split: sum.splits)

locale polling =
  fixes poll :: "('e + 'n) \<times> 'a \<Rightarrow> 's \<Rightarrow> 's"
    and inv :: "'s \<Rightarrow> bool"
    and reflects :: "'n \<Rightarrow> 'a \<Rightarrow> 's \<Rightarrow> bool"
  assumes failed_keeps: "poll (Inl err, a) s = s"
    and listing_inv: "inv s \<Longrightarrow> inv (poll (Inr n, a) s)"
    and listing_reflected: "inv s \<Longrightarrow> reflects n a (poll (Inr n, a) s)"
begin

lemma polls_inv: "inv s \<Longrightarrow> inv (fold poll rs s)"
proof (induction rs rule: rev_induct)
  case (snoc r rs)
  then show ?case using failed_keeps listing_inv by (cases r; cases "fst r") auto
qed simp

lemma latest_reflected:
  "inv s \<Longrightarrow> (case latest rs of None \<Rightarrow> fold poll rs s = s | Some (n, a) \<Rightarrow> reflects n a (fold poll rs s))"
proof (induction rs rule: rev_induct)
  case (snoc r rs)
  obtain listing a where r: "r = (listing, a)" by (cases r)
  show ?case
  proof (cases listing)
    case (Inl err)
    then show ?thesis using snoc failed_keeps [of err a] by (auto simp: r split: option.splits)
  next
    case (Inr n)
    then show ?thesis using listing_reflected [OF polls_inv [OF snoc.prems]] by (simp add: r)
  qed
qed simp

end

end
