(* ===== verification/Go_Strings.thy ===== *)
theory Go_Strings
  imports Mesh_Prelude
begin

text \<open>
  What the program uses of Go's \<^verbatim>\<open>strings\<close>, \<^verbatim>\<open>strconv\<close> and \<^verbatim>\<open>unicode/utf8\<close> packages. A Go
  string is a sequence of bytes, so it is a \<open>char list\<close> here, one \<open>char\<close> per byte.

  Case mapping and case folding of ASCII strings is written out. On a string with a byte
  outside ASCII the standard library consults the Unicode tables; these are the parameter
  \<open>unicode_tables\<close>, and every theorem holds for all of them.
\<close>

section \<open>Prefixes, suffixes, searching and splitting\<close>

definition HasPrefix :: "string \<Rightarrow> string \<Rightarrow> bool" where
  "HasPrefix s p \<longleftrightarrow> length p \<le> length s \<and> take (length p) s = p"

definition HasSuffix :: "string \<Rightarrow> string \<Rightarrow> bool" where
  "HasSuffix s p \<longleftrightarrow> length p \<le> length s \<and> drop (length s - length p) s = p"

definition TrimPrefix :: "string \<Rightarrow> string \<Rightarrow> string" where
  "TrimPrefix s p = (if HasPrefix s p then drop (length p) s else s)"

fun IndexByte :: "string \<Rightarrow> char \<Rightarrow> nat option" where
  "IndexByte [] c = None"
| "IndexByte (x # xs) c = (if x = c then Some 0 else map_option Suc (IndexByte xs c))"

text \<open>\<^verbatim>\<open>LastIndex\<close> of a one-byte separator.\<close>

fun LastIndexByte :: "string \<Rightarrow> char \<Rightarrow> nat option" where
  "LastIndexByte [] c = None"
| "LastIndexByte (x # xs) c =
     (case LastIndexByte xs c of
        Some i \<Rightarrow> Some (Suc i)
      | None \<Rightarrow> if x = c then Some 0 else None)"

text \<open>\<^verbatim>\<open>Split\<close> with a one-byte separator: always at least one part.\<close>

fun Split :: "string \<Rightarrow> char \<Rightarrow> string list" where
  "Split [] c = [[]]"
| "Split (x # xs) c =
     (if x = c then [] # Split xs c
      else (case Split xs c of [] \<Rightarrow> [[x]] | p # ps \<Rightarrow> (x # p) # ps))"

fun Join :: "string list \<Rightarrow> string \<Rightarrow> string" where
  "Join [] sep = []"
| "Join [s] sep = s"
| "Join (s # t # ts) sep = s @ sep @ Join (t # ts) sep"

section \<open>UTF-8\<close>

definition byte :: "char \<Rightarrow> nat" where
  "byte c = of_char c"

definition is_cont :: "char \<Rightarrow> bool" where
  "is_cont c \<longleftrightarrow> 128 \<le> byte c \<and> byte c \<le> 191"

definition is_ascii :: "string \<Rightarrow> bool" where
  "is_ascii s \<longleftrightarrow> list_all (\<lambda>c. byte c < 128) s"

definition RuneError :: nat where
  "RuneError = 65533"

text \<open>The bounds of the second byte, by the first byte of a sequence.\<close>

definition second_ok :: "nat \<Rightarrow> char \<Rightarrow> bool" where
  "second_ok b c \<longleftrightarrow>
     (let lo = (if b = 224 then 160 else if b = 240 then 144 else 128);
          hi = (if b = 237 then 159 else if b = 244 then 143 else 191)
      in lo \<le> byte c \<and> byte c \<le> hi)"

text \<open>\<^verbatim>\<open>DecodeRuneInString\<close>: the first code point and its width in bytes.\<close>

fun decode_rune :: "string \<Rightarrow> nat \<times> nat" where
  "decode_rune [] = (RuneError, 0)"
| "decode_rune (c # cs) =
     (let b = byte c in
      if b < 128 then (b, 1)
      else if 194 \<le> b \<and> b \<le> 223 then
        (case cs of
           c1 # _ \<Rightarrow> if second_ok b c1 then ((b mod 32) * 64 + byte c1 mod 64, 2)
                    else (RuneError, 1)
         | [] \<Rightarrow> (RuneError, 1))
      else if 224 \<le> b \<and> b \<le> 239 then
        (case cs of
           c1 # c2 # _ \<Rightarrow>
             if second_ok b c1 \<and> is_cont c2
             then ((b mod 16) * 4096 + (byte c1 mod 64) * 64 + byte c2 mod 64, 3)
             else (RuneError, 1)
         | _ \<Rightarrow> (RuneError, 1))
      else if 240 \<le> b \<and> b \<le> 244 then
        (case cs of
           c1 # c2 # c3 # _ \<Rightarrow>
             if second_ok b c1 \<and> is_cont c2 \<and> is_cont c3
             then ((b mod 8) * 262144 + (byte c1 mod 64) * 4096
                     + (byte c2 mod 64) * 64 + byte c3 mod 64, 4)
             else (RuneError, 1)
         | _ \<Rightarrow> (RuneError, 1))
      else (RuneError, 1))"

text \<open>The code points of a string with their bytes, as a \<^verbatim>\<open>range\<close> loop visits them.\<close>

fun rune_chunks :: "string \<Rightarrow> (nat \<times> string) list" where
  "rune_chunks [] = []"
| "rune_chunks (c # cs) =
     (let r = decode_rune (c # cs); w = snd r
      in (fst r, c # take (w - 1) cs) # rune_chunks (drop (w - 1) cs))"

definition runes :: "string \<Rightarrow> nat list" where
  "runes s = map fst (rune_chunks s)"

section \<open>Case and white space\<close>

record unicode_tables =
  uc_ToLower :: "string \<Rightarrow> string"
  uc_EqualFold :: "string \<Rightarrow> string \<Rightarrow> bool"

definition lower_char :: "char \<Rightarrow> char" where
  "lower_char c = (if 65 \<le> byte c \<and> byte c \<le> 90 then char_of (byte c + 32) else c)"

definition ToLower :: "unicode_tables \<Rightarrow> string \<Rightarrow> string" where
  "ToLower u s = (if is_ascii s then map lower_char s else uc_ToLower u s)"

definition EqualFold :: "unicode_tables \<Rightarrow> string \<Rightarrow> string \<Rightarrow> bool" where
  "EqualFold u s t =
     (if is_ascii s \<and> is_ascii t then map lower_char s = map lower_char t
      else uc_EqualFold u s t)"

text \<open>Unicode's \<^verbatim>\<open>White_Space\<close> property, as \<^verbatim>\<open>unicode.IsSpace\<close> tests it.\<close>

definition IsSpace :: "nat \<Rightarrow> bool" where
  "IsSpace r \<longleftrightarrow>
     (9 \<le> r \<and> r \<le> 13) \<or> r \<in> {32, 133, 160, 5760, 8232, 8233, 8239, 8287, 12288}
     \<or> (8192 \<le> r \<and> r \<le> 8202)"

definition TrimSpace :: "string \<Rightarrow> string" where
  "TrimSpace s =
     (let sp = (\<lambda>e. IsSpace (fst e));
          kept = rev (dropWhile sp (rev (dropWhile sp (rune_chunks s))))
      in concat (map snd kept))"

section \<open>Numbers\<close>

definition digit_char :: "nat \<Rightarrow> char" where
  "digit_char d = (if d < 10 then char_of (48 + d) else char_of (87 + d))"

fun digits_base :: "nat \<Rightarrow> nat \<Rightarrow> string" where
  "digits_base b n =
     (if n < b \<or> b < 2 then [digit_char n]
      else digits_base b (n div b) @ [digit_char (n mod b)])"

declare digits_base.simps [simp del]

text \<open>\<^verbatim>\<open>FormatInt\<close>; base 10 is also what the verb \<^verbatim>\<open>%d\<close> prints.\<close>

definition FormatInt :: "int \<Rightarrow> nat \<Rightarrow> string" where
  "FormatInt i b =
     (if i < 0 then CHR ''-'' # digits_base b (nat (- i)) else digits_base b (nat i))"

abbreviation Itoa :: "int \<Rightarrow> string" where
  "Itoa i \<equiv> FormatInt i 10"

fun parse_digits :: "string \<Rightarrow> nat \<Rightarrow> nat option" where
  "parse_digits [] acc = Some acc"
| "parse_digits (c # cs) acc =
     (if 48 \<le> byte c \<and> byte c \<le> 57 then parse_digits cs (acc * 10 + (byte c - 48)) else None)"

text \<open>\<^verbatim>\<open>strconv.Atoi\<close>: \<open>None\<close> stands for a syntax or a range error.\<close>

definition Atoi :: "string \<Rightarrow> int option" where
  "Atoi s =
     (let neg = (s \<noteq> [] \<and> hd s = CHR ''-'');
          body = (if s \<noteq> [] \<and> (hd s = CHR ''-'' \<or> hd s = CHR ''+'') then tl s else s)
      in if body = [] then None
         else (case parse_digits body 0 of
                 None \<Rightarrow> None
               | Some n \<Rightarrow> (let i = (if neg then - int n else int n)
                           in if is_int64 i then Some i else None)))"

section \<open>Lemmas\<close>

lemma HasPrefix_iff: "HasPrefix s p \<longleftrightarrow> (\<exists>t. s = p @ t)"
  by (auto simp: HasPrefix_def) (metis append_take_drop_id)

lemma HasPrefix_append [simp]: "HasPrefix (p @ t) p"
  by (simp add: HasPrefix_def)

lemma HasSuffix_iff: "HasSuffix s p \<longleftrightarrow> (\<exists>t. s = t @ p)"
  by (auto simp: HasSuffix_def) (metis append_take_drop_id)

lemma HasSuffix_append [simp]: "HasSuffix (t @ p) p"
  by (simp add: HasSuffix_def)

lemma TrimPrefix_append [simp]: "TrimPrefix (p @ t) p = t"
  by (simp add: TrimPrefix_def)

lemma IndexByte_None: "IndexByte s c = None \<longleftrightarrow> c \<notin> set s"
  by (induction s) auto

lemma IndexByte_Some:
  "IndexByte s c = Some i \<Longrightarrow> i < length s \<and> s ! i = c \<and> c \<notin> set (take i s)"
  by (induction s arbitrary: i) (auto split: if_splits)

lemma IndexByte_append: "c \<notin> set s \<Longrightarrow> IndexByte (s @ c # t) c = Some (length s)"
  by (induction s) auto

lemma Split_not_Nil [simp]: "Split s c \<noteq> []"
  by (induction s) (auto split: list.splits)

lemma Join_Cons: "ps \<noteq> [] \<Longrightarrow> Join (p # ps) sep = p @ sep @ Join ps sep"
  by (cases ps) auto

lemma Join_Split: "Join (Split s c) [c] = s"
proof (induction s)
  case Nil
  then show ?case by simp
next
  case (Cons x xs)
  obtain p ps where ps: "Split xs c = p # ps" by (cases "Split xs c") auto
  show ?case
  proof (cases "x = c")
    case True
    then show ?thesis using Cons by (simp add: Join_Cons)
  next
    case False
    then show ?thesis using Cons ps by (cases ps) (auto simp: Join_Cons)
  qed
qed

lemma Split_parts: "p \<in> set (Split s c) \<Longrightarrow> c \<notin> set p"
proof (induction s arbitrary: p)
  case Nil
  then show ?case by simp
next
  case (Cons x xs)
  then show ?case by (fastforce split: list.splits if_splits)
qed

lemma Split_no_sep: "c \<notin> set s \<Longrightarrow> Split s c = [s]"
  by (induction s) auto

lemma Split_append_sep: "c \<notin> set s \<Longrightarrow> Split (s @ c # t) c = s # Split t c"
  by (induction s) auto

lemma lower_char_idem [simp]: "lower_char (lower_char c) = lower_char c"
  unfolding lower_char_def byte_def by (auto simp: of_char_of)

lemma byte_lt_256 [simp]: "byte c < 256"
  unfolding byte_def by (rule of_char_mod_256 [THEN subst]) simp

lemma lower_char_ascii: "byte c < 128 \<Longrightarrow> byte (lower_char c) < 128"
  unfolding lower_char_def byte_def by (auto simp: of_char_of)

lemma is_ascii_lower: "is_ascii s \<Longrightarrow> is_ascii (map lower_char s)"
  unfolding is_ascii_def by (induction s) (auto simp: lower_char_ascii)

lemma ToLower_idem_ascii: "is_ascii s \<Longrightarrow> ToLower u (ToLower u s) = ToLower u s"
  by (simp add: ToLower_def is_ascii_lower)

lemma EqualFold_refl_ascii: "is_ascii s \<Longrightarrow> EqualFold u s s"
  by (simp add: EqualFold_def)

text \<open>On an ASCII string a \<^verbatim>\<open>range\<close> loop visits the bytes.\<close>

lemma runes_ascii: "is_ascii s \<Longrightarrow> runes s = map byte s"
  unfolding runes_def is_ascii_def by (induction s) auto

lemma rune_chunks_concat: "concat (map snd (rune_chunks s)) = s"
  by (induction s rule: rune_chunks.induct) (auto simp: Let_def)

lemma digit_char_byte: "d < 10 \<Longrightarrow> byte (digit_char d) = 48 + d"
  unfolding digit_char_def byte_def by (simp add: of_char_of)

lemma parse_digits_append:
  "parse_digits (s @ t) acc =
     (case parse_digits s acc of None \<Rightarrow> None | Some n \<Rightarrow> parse_digits t n)"
  by (induction s arbitrary: acc) auto

lemma digits_base_not_Nil [simp]: "digits_base b n \<noteq> []"
  by (subst digits_base.simps) simp

lemma parse_digits_base: "parse_digits (digits_base 10 n) 0 = Some n"
proof (induction n rule: less_induct)
  case (less n)
  show ?case
  proof (cases "n < 10")
    case True
    then show ?thesis by (subst digits_base.simps) (simp add: digit_char_byte)
  next
    case False
    then have "parse_digits (digits_base 10 (n div 10)) 0 = Some (n div 10)"
      by (intro less) simp
    then show ?thesis using False
      by (subst digits_base.simps) (simp add: parse_digits_append digit_char_byte)
  qed
qed

lemma digits_base_chars: "c \<in> set (digits_base 10 n) \<Longrightarrow> 48 \<le> byte c \<and> byte c \<le> 57"
proof (induction n rule: less_induct)
  case (less n)
  show ?case
  proof (cases "n < 10")
    case True
    then show ?thesis using less.prems
      by (subst (asm) digits_base.simps) (simp add: digit_char_byte)
  next
    case False
    then have "c \<in> set (digits_base 10 (n div 10)) \<or> c = digit_char (n mod 10)"
      using less.prems by (subst (asm) digits_base.simps) auto
    then show ?thesis using less.IH [of "n div 10"] False by (auto simp: digit_char_byte)
  qed
qed

lemma digits_base_inj: "digits_base 10 m = digits_base 10 n \<Longrightarrow> m = n"
  by (metis option.inject parse_digits_base)

lemma digits_base_hd: "hd (digits_base 10 n) \<noteq> CHR ''-'' \<and> hd (digits_base 10 n) \<noteq> CHR ''+''"
  using digits_base_chars [of "hd (digits_base 10 n)" n] by (auto simp: byte_def)

text \<open>Printing a 64-bit integer and parsing it back.\<close>

lemma Atoi_Itoa: "is_int64 i \<Longrightarrow> Atoi (Itoa i) = Some i"
  by (auto simp: Atoi_def FormatInt_def parse_digits_base digits_base_hd Let_def)

lemma Itoa_inj: "Itoa i = Itoa j \<Longrightarrow> i = j"
  using digits_base_hd [of "nat i"] digits_base_hd [of "nat j"]
    digits_base_inj [of "nat i" "nat j"] digits_base_inj [of "nat (- i)" "nat (- j)"]
  by (auto simp: FormatInt_def split: if_splits) (metis list.sel(1))+

end
