(* ===== verification/Circuit_Breaker.thy ===== *)
theory Circuit_Breaker
  imports Go_Strings
begin

text \<open>
  The circuit breaker of \<^verbatim>\<open>internal/healthmonitor/breaker.go\<close>, which both the gateway's proxy
  and the health monitor's worker use. Every method holds the breaker's mutex from its
  first to its last statement, so a method is one atomic step and a concurrent execution is
  a sequence of steps. The injected clock \<^verbatim>\<open>cb.now\<close> becomes an argument: the reading the
  method takes.

  The theory holds the operations, the well-formedness invariant of reachable breakers, the
  trip and recovery behaviour, the one-probe-at-a-time guarantee, a refinement of the flat
  record to a tagged specification, and the interface \<open>admission_gate\<close> under which the
  clients use a breaker.
\<close>

section \<open>State and operations\<close>

datatype BreakerState = BreakerClosed | BreakerOpen | BreakerHalfOpen

fun BreakerState_String :: "BreakerState \<Rightarrow> string" where
  "BreakerState_String BreakerClosed = ''closed''"
| "BreakerState_String BreakerOpen = ''open''"
| "BreakerState_String BreakerHalfOpen = ''half-open''"

record CircuitBreaker =
  state :: BreakerState
  failureCount :: go_int
  failureThreshold :: go_int
  recoveryThreshold :: go_int
  recoveryCount :: go_int
  breakDuration :: duration
  openedAt :: time
  halfOpenUsed :: bool

definition NewCircuitBreaker :: "go_int \<Rightarrow> duration \<Rightarrow> CircuitBreaker" where
  "NewCircuitBreaker ft bd =
     \<lparr>state = BreakerClosed, failureCount = 0, failureThreshold = ft, recoveryThreshold = 1,
      recoveryCount = 0, breakDuration = bd, openedAt = zero_time, halfOpenUsed = False\<rparr>"

definition NewCircuitBreakerWithRecovery ::
  "go_int \<Rightarrow> go_int \<Rightarrow> duration \<Rightarrow> CircuitBreaker" where
  "NewCircuitBreakerWithRecovery ft rt bd =
     \<lparr>state = BreakerClosed, failureCount = 0, failureThreshold = ft,
      recoveryThreshold = (if rt < 1 then 1 else rt),
      recoveryCount = 0, breakDuration = bd, openedAt = zero_time, halfOpenUsed = False\<rparr>"

definition Allow :: "time \<Rightarrow> CircuitBreaker \<Rightarrow> bool \<times> CircuitBreaker" where
  "Allow now cb =
     (case state cb of
        BreakerClosed \<Rightarrow> (True, cb)
      | BreakerOpen \<Rightarrow>
          if breakDuration cb \<le> time_Sub now (openedAt cb)
          then (True, cb\<lparr>state := BreakerHalfOpen, halfOpenUsed := True\<rparr>)
          else (False, cb)
      | BreakerHalfOpen \<Rightarrow>
          if \<not> halfOpenUsed cb then (True, cb\<lparr>halfOpenUsed := True\<rparr>) else (False, cb))"

definition RecordSuccess :: "CircuitBreaker \<Rightarrow> CircuitBreaker" where
  "RecordSuccess cb0 =
     (let cb = cb0\<lparr>failureCount := 0\<rparr>
      in if state cb = BreakerHalfOpen
         then (let rc = wrap64 (recoveryCount cb + 1)
               in if recoveryThreshold cb \<le> rc
                  then cb\<lparr>recoveryCount := 0, state := BreakerClosed, halfOpenUsed := False\<rparr>
                  else cb\<lparr>recoveryCount := rc, halfOpenUsed := False\<rparr>)
         else cb\<lparr>state := BreakerClosed, halfOpenUsed := False\<rparr>)"

definition RecordFailure :: "time \<Rightarrow> CircuitBreaker \<Rightarrow> CircuitBreaker" where
  "RecordFailure now cb0 =
     (let cb = cb0\<lparr>failureCount := wrap64 (failureCount cb0 + 1), recoveryCount := 0\<rparr>
      in if state cb = BreakerHalfOpen \<or> failureThreshold cb \<le> failureCount cb
         then cb\<lparr>state := BreakerOpen, openedAt := now, halfOpenUsed := False\<rparr>
         else cb)"

definition State :: "time \<Rightarrow> CircuitBreaker \<Rightarrow> BreakerState \<times> CircuitBreaker" where
  "State now cb =
     (let cb' = (if state cb = BreakerOpen \<and> breakDuration cb \<le> time_Sub now (openedAt cb)
                 then cb\<lparr>state := BreakerHalfOpen\<rparr> else cb)
      in (state cb', cb'))"

lemmas breaker_defs = Allow_def RecordSuccess_def RecordFailure_def State_def Let_def

section \<open>Executions\<close>

datatype breaker_op = OpAllow time | OpSuccess | OpFailure time | OpState time

fun breaker_exec :: "breaker_op \<Rightarrow> CircuitBreaker \<Rightarrow> CircuitBreaker" where
  "breaker_exec (OpAllow t) cb = snd (Allow t cb)"
| "breaker_exec OpSuccess cb = RecordSuccess cb"
| "breaker_exec (OpFailure t) cb = RecordFailure t cb"
| "breaker_exec (OpState t) cb = snd (State t cb)"

text \<open>Whether the operation is an \<^verbatim>\<open>Allow\<close> that lets its caller through.\<close>

fun admits :: "breaker_op \<Rightarrow> CircuitBreaker \<Rightarrow> bool" where
  "admits (OpAllow t) cb = fst (Allow t cb)"
| "admits _ cb = False"

fun breaker_run :: "breaker_op list \<Rightarrow> CircuitBreaker \<Rightarrow> CircuitBreaker" where
  "breaker_run [] cb = cb"
| "breaker_run (x # xs) cb = breaker_run xs (breaker_exec x cb)"

fun admissions :: "breaker_op list \<Rightarrow> CircuitBreaker \<Rightarrow> nat" where
  "admissions [] cb = 0"
| "admissions (x # xs) cb = (if admits x cb then 1 else 0) + admissions xs (breaker_exec x cb)"

inductive breaker_step :: "CircuitBreaker \<Rightarrow> breaker_op \<Rightarrow> CircuitBreaker \<Rightarrow> bool" where
  step_allow: "Allow t cb = (b, cb') \<Longrightarrow> breaker_step cb (OpAllow t) cb'"
| step_success: "breaker_step cb OpSuccess (RecordSuccess cb)"
| step_failure: "breaker_step cb (OpFailure t) (RecordFailure t cb)"
| step_state: "State t cb = (s, cb') \<Longrightarrow> breaker_step cb (OpState t) cb'"

inductive_cases breaker_stepE: "breaker_step cb x cb'"
inductive_simps breaker_step_success_iff: "breaker_step cb OpSuccess cb'"
inductive_simps breaker_step_failure_iff: "breaker_step cb (OpFailure t) cb'"

text \<open>The breakers a constructor call and any sequence of method calls can lead to.\<close>

inductive breaker_reachable :: "CircuitBreaker \<Rightarrow> bool" where
  reach_new: "is_int64 ft \<Longrightarrow> breaker_reachable (NewCircuitBreaker ft bd)"
| reach_new_recovery: "is_int64 ft \<Longrightarrow> is_int64 rt \<Longrightarrow>
    breaker_reachable (NewCircuitBreakerWithRecovery ft rt bd)"
| reach_step: "breaker_reachable cb \<Longrightarrow> breaker_step cb x cb' \<Longrightarrow> breaker_reachable cb'"

section \<open>The invariant\<close>

text \<open>
  A closed breaker is below its failure threshold; a success count is pending only while
  half-open and stays below the recovery threshold; a probe is out only while half-open.
\<close>

definition breaker_wf :: "CircuitBreaker \<Rightarrow> bool" where
  "breaker_wf cb \<longleftrightarrow>
     is_int64 (failureThreshold cb) \<and> is_int64 (recoveryThreshold cb) \<and>
     1 \<le> recoveryThreshold cb \<and>
     0 \<le> recoveryCount cb \<and> recoveryCount cb < recoveryThreshold cb \<and>
     (0 < recoveryCount cb \<longrightarrow> state cb = BreakerHalfOpen) \<and>
     (halfOpenUsed cb \<longrightarrow> state cb = BreakerHalfOpen) \<and>
     (state cb = BreakerClosed \<longrightarrow>
        failureCount cb = 0 \<or> 0 < failureCount cb \<and> failureCount cb < failureThreshold cb)"

lemma breaker_exec_step: "breaker_step cb x (breaker_exec x cb)"
  by (cases x) (auto intro: breaker_step.intros prod.collapse [symmetric])

lemma breaker_step_exec: "breaker_step cb x cb' \<Longrightarrow> cb' = breaker_exec x cb"
  by (induction rule: breaker_step.induct) auto

text \<open>The step relation is the graph of the step function.\<close>

lemma breaker_step_iff: "breaker_step cb x cb' \<longleftrightarrow> cb' = breaker_exec x cb"
  using breaker_exec_step breaker_step_exec by blast

lemma breaker_wf_new: "is_int64 ft \<Longrightarrow> breaker_wf (NewCircuitBreaker ft bd)"
  by (simp add: breaker_wf_def NewCircuitBreaker_def int_range_defs)

lemma breaker_wf_new_recovery:
  "is_int64 ft \<Longrightarrow> is_int64 rt \<Longrightarrow> breaker_wf (NewCircuitBreakerWithRecovery ft rt bd)"
  by (simp add: breaker_wf_def NewCircuitBreakerWithRecovery_def int_range_defs)

lemma breaker_wf_Allow: "breaker_wf cb \<Longrightarrow> breaker_wf (snd (Allow t cb))"
  by (auto simp: breaker_wf_def Allow_def split: BreakerState.splits)

lemma breaker_wf_State: "breaker_wf cb \<Longrightarrow> breaker_wf (snd (State t cb))"
  by (auto simp: breaker_wf_def State_def Let_def)

lemma breaker_wf_recovery_Suc:
  "breaker_wf cb \<Longrightarrow> wrap64 (recoveryCount cb + 1) = recoveryCount cb + 1"
  unfolding breaker_wf_def by (rule wrap64_Suc_bounded [of _ "recoveryThreshold cb"]) auto

lemma breaker_wf_failure_Suc:
  assumes "breaker_wf cb" and "state cb = BreakerClosed"
  shows "wrap64 (failureCount cb + 1) = failureCount cb + 1"
  using assms unfolding breaker_wf_def
  by (intro wrap64_nonneg) (auto simp: int_range_defs)

lemma breaker_wf_RecordSuccess:
  assumes "breaker_wf cb"
  shows "breaker_wf (RecordSuccess cb)"
  using assms breaker_wf_recovery_Suc [OF assms]
  by (auto simp: breaker_wf_def RecordSuccess_def Let_def)

lemma breaker_wf_RecordFailure:
  assumes "breaker_wf cb"
  shows "breaker_wf (RecordFailure t cb)"
proof (cases "state cb = BreakerClosed")
  case True
  with assms breaker_wf_failure_Suc [OF assms True] show ?thesis
    by (auto simp: breaker_wf_def RecordFailure_def Let_def)
next
  case False
  with assms show ?thesis by (auto simp: breaker_wf_def RecordFailure_def Let_def)
qed

lemmas breaker_wf_ops =
  breaker_wf_Allow breaker_wf_RecordSuccess breaker_wf_RecordFailure breaker_wf_State

lemma breaker_wf_exec: "breaker_wf cb \<Longrightarrow> breaker_wf (breaker_exec x cb)"
  by (cases x) (auto intro: breaker_wf_ops)

lemma breaker_wf_run: "breaker_wf cb \<Longrightarrow> breaker_wf (breaker_run xs cb)"
  by (induction xs arbitrary: cb) (auto intro: breaker_wf_exec)

lemma breaker_reachable_inv: "breaker_reachable cb \<Longrightarrow> breaker_wf cb"
proof (induction rule: breaker_reachable.induct)
  case (reach_step cb x cb')
  then show ?case by (simp add: breaker_step_iff breaker_wf_exec)
qed (auto intro: breaker_wf_new breaker_wf_new_recovery)

section \<open>Configuration and refusals\<close>

definition breaker_config :: "CircuitBreaker \<Rightarrow> go_int \<times> go_int \<times> duration" where
  "breaker_config cb = (failureThreshold cb, recoveryThreshold cb, breakDuration cb)"

lemma breaker_config_exec [simp]: "breaker_config (breaker_exec x cb) = breaker_config cb"
  by (cases x) (auto simp: breaker_config_def breaker_defs split: BreakerState.splits)

lemma breaker_config_run [simp]: "breaker_config (breaker_run xs cb) = breaker_config cb"
  by (induction xs arbitrary: cb) auto

text \<open>The breaker turns callers away at time \<open>t\<close>.\<close>

definition refuses :: "time \<Rightarrow> CircuitBreaker \<Rightarrow> bool" where
  "refuses t cb \<longleftrightarrow>
     (state cb = BreakerOpen \<and> time_Sub t (openedAt cb) < breakDuration cb) \<or>
     (state cb = BreakerHalfOpen \<and> halfOpenUsed cb)"

lemma Allow_refuses: "refuses t cb \<Longrightarrow> Allow t cb = (False, cb)"
  by (auto simp: refuses_def Allow_def)

lemma Allow_admits: "\<not> refuses t cb \<Longrightarrow> fst (Allow t cb)"
  by (auto simp: refuses_def Allow_def split: BreakerState.splits)

lemma Allow_iff: "fst (Allow t cb) \<longleftrightarrow> \<not> refuses t cb"
  using Allow_refuses Allow_admits by fastforce

section \<open>Tripping and recovering\<close>

definition fail_at :: "time list \<Rightarrow> CircuitBreaker \<Rightarrow> CircuitBreaker" where
  "fail_at ts cb = fold RecordFailure ts cb"

lemma fail_at_snoc: "fail_at (ts @ [t]) cb = RecordFailure t (fail_at ts cb)"
  by (simp add: fail_at_def)

lemma fail_at_duration [simp]: "breakDuration (fail_at ts cb) = breakDuration cb"
  by (induction ts arbitrary: cb) (simp_all add: fail_at_def RecordFailure_def Let_def)

lemma fail_at_closed:
  assumes "breaker_wf cb" and "state cb = BreakerClosed" and "failureCount cb = 0"
  shows "int (length ts) < max 1 (failureThreshold cb) \<Longrightarrow>
    fail_at ts cb = cb\<lparr>failureCount := int (length ts), recoveryCount := 0\<rparr>"
proof (induction ts rule: rev_induct)
  case Nil
  with assms show ?case by (auto simp: fail_at_def breaker_wf_def)
next
  case (snoc t ts)
  have "is_int64 (failureThreshold cb)" using assms(1) by (simp add: breaker_wf_def)
  then have "wrap64 (int (length ts) + 1) = int (length ts) + 1"
    using snoc.prems by (intro wrap64_nonneg) (auto simp: int_range_defs)
  with snoc assms show ?case by (simp add: fail_at_snoc RecordFailure_def Let_def)
qed

lemma RecordFailure_open: "state cb = BreakerOpen \<Longrightarrow> state (RecordFailure t cb) = BreakerOpen"
  by (simp add: RecordFailure_def Let_def)

lemma fail_at_trips:
  assumes "breaker_wf cb" and "state cb = BreakerClosed" and "failureCount cb = 0"
    and len: "max 1 (failureThreshold cb) \<le> int (length ts)" and "int (length ts) \<le> maxInt64"
  shows "state (fail_at ts cb) = BreakerOpen \<and> openedAt (fail_at ts cb) = last ts \<and>
    failureCount (fail_at ts cb) = int (length ts) \<and>
    failureThreshold (fail_at ts cb) = failureThreshold cb"
  using len assms(5)
proof (induction ts rule: rev_induct)
  case Nil
  then show ?case by simp
next
  case (snoc t ts)
  have w: "wrap64 (int (length ts) + 1) = int (length ts) + 1"
    using snoc.prems by (intro wrap64_nonneg) auto
  show ?case
  proof (cases "max 1 (failureThreshold cb) \<le> int (length ts)")
    case True
    with snoc w show ?thesis by (simp add: fail_at_snoc RecordFailure_def Let_def)
  next
    case False
    with fail_at_closed [OF assms(1-3), of ts] snoc.prems w assms(2) show ?thesis
      by (simp add: fail_at_snoc RecordFailure_def Let_def)
  qed
qed

text \<open>A probe cycle: a caller is admitted at the given time and reports a success.\<close>

fun probe_cycles :: "time list \<Rightarrow> breaker_op list" where
  "probe_cycles [] = []"
| "probe_cycles (t # ts) = OpAllow t # OpSuccess # probe_cycles ts"

lemma half_open_cycles:
  "breaker_wf cb \<Longrightarrow> state cb = BreakerHalfOpen \<Longrightarrow> \<not> halfOpenUsed cb \<Longrightarrow>
   recoveryCount cb + int (length ts) \<le> recoveryThreshold cb \<Longrightarrow>
   admissions (probe_cycles ts) cb = length ts \<and>
   state (breaker_run (probe_cycles ts) cb) =
     (if recoveryCount cb + int (length ts) < recoveryThreshold cb
      then BreakerHalfOpen else BreakerClosed) \<and>
   \<not> halfOpenUsed (breaker_run (probe_cycles ts) cb)"
proof (induction ts arbitrary: cb)
  case Nil
  then show ?case by (auto simp: breaker_wf_def)
next
  case (Cons t ts)
  let ?cb = "RecordSuccess (snd (Allow t cb))"
  have a: "Allow t cb = (True, cb\<lparr>halfOpenUsed := True\<rparr>)"
    using Cons.prems by (simp add: Allow_def)
  have w: "breaker_wf ?cb" using Cons.prems(1) by (intro breaker_wf_ops)
  have rc: "wrap64 (recoveryCount cb + 1) = recoveryCount cb + 1"
    by (rule breaker_wf_recovery_Suc [OF Cons.prems(1)])
  show ?case
  proof (cases "recoveryThreshold cb \<le> recoveryCount cb + 1")
    case True
    then have "int (length ts) \<le> 0" using Cons.prems(4) by (simp del: of_nat_le_0_iff)
    then have "ts = []" by simp
    with a rc True Cons.prems(2) show ?thesis by (simp add: RecordSuccess_def Let_def)
  next
    case False
    then have "state ?cb = BreakerHalfOpen" "\<not> halfOpenUsed ?cb"
      "recoveryCount ?cb = recoveryCount cb + 1" "recoveryThreshold ?cb = recoveryThreshold cb"
      using a rc Cons.prems(2) by (simp_all add: RecordSuccess_def Let_def)
    with Cons.IH [OF w] Cons.prems(4) a show ?thesis by (auto simp: add.assoc)
  qed
qed

section \<open>Executions away from the closed state\<close>

fun is_outcome :: "breaker_op \<Rightarrow> bool" where
  "is_outcome OpSuccess = True"
| "is_outcome (OpFailure t) = True"
| "is_outcome _ = False"

definition outcomes :: "breaker_op list \<Rightarrow> nat" where
  "outcomes xs = length (filter is_outcome xs)"

fun never_closed :: "breaker_op list \<Rightarrow> CircuitBreaker \<Rightarrow> bool" where
  "never_closed [] cb = (state cb \<noteq> BreakerClosed)"
| "never_closed (x # xs) cb = (state cb \<noteq> BreakerClosed \<and> never_closed xs (breaker_exec x cb))"

lemma admissions_probe_bound:
  "breaker_wf cb \<Longrightarrow> never_closed xs cb \<Longrightarrow>
   admissions xs cb + (if halfOpenUsed cb then 1 else 0) \<le> 1 + outcomes xs"
proof (induction xs arbitrary: cb)
  case Nil
  then show ?case by (simp add: outcomes_def)
next
  case (Cons x xs)
  have "breaker_wf (breaker_exec x cb)" using Cons.prems(1) by (rule breaker_wf_exec)
  with Cons have ih: "admissions xs (breaker_exec x cb) +
      (if halfOpenUsed (breaker_exec x cb) then 1 else 0) \<le> 1 + outcomes xs" by simp
  show ?case
  proof (cases x)
    case (OpAllow t)
    with ih Cons.prems show ?thesis
      by (auto simp: outcomes_def Allow_def breaker_wf_def split: BreakerState.splits if_splits)
  next
    case (OpState t)
    with ih show ?thesis by (auto simp: outcomes_def State_def Let_def split: if_splits)
  qed (use ih in \<open>auto simp: outcomes_def split: if_splits\<close>)
qed

fun op_time :: "breaker_op \<Rightarrow> time option" where
  "op_time (OpAllow t) = Some t"
| "op_time OpSuccess = None"
| "op_time (OpFailure t) = Some t"
| "op_time (OpState t) = Some t"

text \<open>All operations are timed (so none reports a success) and fall into \<open>[lo, hi)\<close>.\<close>

definition ops_within :: "time \<Rightarrow> time \<Rightarrow> breaker_op list \<Rightarrow> bool" where
  "ops_within lo hi xs \<longleftrightarrow>
     list_all (\<lambda>x. case op_time x of None \<Rightarrow> False | Some t \<Rightarrow> lo \<le> t \<and> t < hi) xs"

lemma ops_within_Cons [simp]:
  "ops_within lo hi (x # xs) \<longleftrightarrow>
     (\<exists>t. op_time x = Some t \<and> lo \<le> t \<and> t < hi) \<and> ops_within lo hi xs"
  by (auto simp: ops_within_def split: option.splits)

lemma open_window_run:
  assumes bd: "is_int64 (breakDuration cb)" "minInt64 < breakDuration cb"
  shows "state cb = BreakerOpen \<Longrightarrow> lo \<le> openedAt cb \<Longrightarrow>
    ops_within lo (lo + breakDuration cb) xs \<Longrightarrow>
    admissions xs cb = 0 \<and> state (breaker_run xs cb) = BreakerOpen"
  using bd
proof (induction xs arbitrary: cb)
  case Nil
  then show ?case by simp
next
  case (Cons x xs)
  then obtain t where t: "op_time x = Some t" "lo \<le> t" "t < lo + breakDuration cb"
    by auto
  have no: "\<not> breakDuration cb \<le> time_Sub t (openedAt cb)"
    using time_Sub_ge_iff [OF Cons.prems(4,5)] t Cons.prems(2) by auto
  have "state (breaker_exec x cb) = BreakerOpen" "lo \<le> openedAt (breaker_exec x cb)"
    "breakDuration (breaker_exec x cb) = breakDuration cb" "\<not> admits x cb"
    using t no Cons.prems(1,2)
    by (cases x; simp add: Allow_def State_def RecordFailure_def Let_def)+
  with Cons show ?case by auto
qed

section \<open>An abstract breaker\<close>

text \<open>
  The specification keeps in each phase only what the phase is about: the run of failures
  while closed, the trip time while open, and the outstanding probe with the run of
  successes while half-open. The failures seen so far travel along, because a late failure
  report restarts the open period only once they have reached the threshold.
\<close>

datatype breaker_spec =
    Closed (failures: int)
  | Tripped (failures: int) (since: time)
  | Probing (failures: int) (out: bool) (wins: int) (since: time)

fun spec_allow :: "duration \<Rightarrow> time \<Rightarrow> breaker_spec \<Rightarrow> bool \<times> breaker_spec" where
  "spec_allow bd now (Closed n) = (True, Closed n)"
| "spec_allow bd now (Tripped n t) =
     (if t + bd \<le> now then (True, Probing n True 0 t) else (False, Tripped n t))"
| "spec_allow bd now (Probing n p w t) = (\<not> p, Probing n True w t)"

fun spec_success :: "int \<Rightarrow> breaker_spec \<Rightarrow> breaker_spec" where
  "spec_success rt (Closed n) = Closed 0"
| "spec_success rt (Tripped n t) = Closed 0"
| "spec_success rt (Probing n p w t) = (if w + 1 < rt then Probing 0 False (w + 1) t else Closed 0)"

fun spec_failure :: "int \<Rightarrow> time \<Rightarrow> breaker_spec \<Rightarrow> breaker_spec" where
  "spec_failure ft now (Closed n) = (if n + 1 < ft then Closed (n + 1) else Tripped (n + 1) now)"
| "spec_failure ft now (Tripped n t) =
     (if wrap64 (n + 1) < ft then Tripped (wrap64 (n + 1)) t else Tripped (wrap64 (n + 1)) now)"
| "spec_failure ft now (Probing n p w t) = Tripped (wrap64 (n + 1)) now"

fun spec_poll :: "duration \<Rightarrow> time \<Rightarrow> breaker_spec \<Rightarrow> breaker_spec" where
  "spec_poll bd now (Tripped n t) = (if t + bd \<le> now then Probing n False 0 t else Tripped n t)"
| "spec_poll bd now s = s"

definition abs_breaker :: "CircuitBreaker \<Rightarrow> breaker_spec" where
  "abs_breaker cb =
     (case state cb of
        BreakerClosed \<Rightarrow> Closed (failureCount cb)
      | BreakerOpen \<Rightarrow> Tripped (failureCount cb) (openedAt cb)
      | BreakerHalfOpen \<Rightarrow>
          Probing (failureCount cb) (halfOpenUsed cb) (recoveryCount cb) (openedAt cb))"

fun spec_exec :: "CircuitBreaker \<Rightarrow> breaker_op \<Rightarrow> breaker_spec \<Rightarrow> breaker_spec" where
  "spec_exec cb (OpAllow t) s = snd (spec_allow (breakDuration cb) t s)"
| "spec_exec cb OpSuccess s = spec_success (recoveryThreshold cb) s"
| "spec_exec cb (OpFailure t) s = spec_failure (failureThreshold cb) t s"
| "spec_exec cb (OpState t) s = spec_poll (breakDuration cb) t s"

definition duration_ok :: "CircuitBreaker \<Rightarrow> bool" where
  "duration_ok cb \<longleftrightarrow> is_int64 (breakDuration cb) \<and> minInt64 < breakDuration cb"

lemma abs_Allow:
  assumes "breaker_wf cb" and "duration_ok cb"
  shows "(fst (Allow t cb), abs_breaker (snd (Allow t cb))) =
    spec_allow (breakDuration cb) t (abs_breaker cb)"
  using assms time_Sub_ge_iff [of "breakDuration cb" t "openedAt cb"]
  by (auto simp: Allow_def abs_breaker_def breaker_wf_def duration_ok_def
      split: BreakerState.splits)

lemma abs_RecordSuccess:
  assumes "breaker_wf cb"
  shows "abs_breaker (RecordSuccess cb) = spec_success (recoveryThreshold cb) (abs_breaker cb)"
  using breaker_wf_recovery_Suc [OF assms]
  by (auto simp: RecordSuccess_def abs_breaker_def Let_def split: BreakerState.splits)

lemma abs_RecordFailure:
  assumes "breaker_wf cb"
  shows "abs_breaker (RecordFailure t cb) =
    spec_failure (failureThreshold cb) t (abs_breaker cb)"
  using breaker_wf_failure_Suc [OF assms] assms
  by (auto simp: RecordFailure_def abs_breaker_def Let_def breaker_wf_def
      split: BreakerState.splits)

lemma abs_State:
  assumes "breaker_wf cb" and "duration_ok cb"
  shows "abs_breaker (snd (State t cb)) = spec_poll (breakDuration cb) t (abs_breaker cb)"
  using assms time_Sub_ge_iff [of "breakDuration cb" t "openedAt cb"]
  by (auto simp: State_def abs_breaker_def breaker_wf_def duration_ok_def Let_def
      split: BreakerState.splits)

lemma abs_exec:
  "breaker_wf cb \<Longrightarrow> duration_ok cb \<Longrightarrow>
   abs_breaker (breaker_exec x cb) = spec_exec cb x (abs_breaker cb)"
  using abs_Allow [of cb] by (cases x) (auto simp: abs_RecordSuccess abs_RecordFailure abs_State prod_eq_iff)

lemma spec_exec_config: "breaker_config cb' = breaker_config cb \<Longrightarrow> spec_exec cb' = spec_exec cb"
proof (intro ext)
  fix x s
  assume "breaker_config cb' = breaker_config cb"
  then show "spec_exec cb' x s = spec_exec cb x s" by (cases x) (auto simp: breaker_config_def)
qed

lemma duration_ok_config: "breaker_config cb' = breaker_config cb \<Longrightarrow> duration_ok cb' = duration_ok cb"
  by (simp add: breaker_config_def duration_ok_def)

section \<open>The interface the clients use\<close>

text \<open>
  The proxy and the worker see a breaker through three calls. What they rely on: every call
  keeps the invariant, a refused call leaves the breaker as it was, and whether a call is
  refused depends on the breaker and the time only.
\<close>

locale admission_gate =
  fixes allow :: "time \<Rightarrow> 'b \<Rightarrow> bool \<times> 'b"
    and success :: "'b \<Rightarrow> 'b"
    and failure :: "time \<Rightarrow> 'b \<Rightarrow> 'b"
    and blocked :: "time \<Rightarrow> 'b \<Rightarrow> bool"
    and inv :: "'b \<Rightarrow> bool"
  assumes blocked_allow: "blocked t b \<Longrightarrow> allow t b = (False, b)"
    and free_allow: "\<not> blocked t b \<Longrightarrow> fst (allow t b)"
    and inv_allow: "inv b \<Longrightarrow> inv (snd (allow t b))"
    and inv_success: "inv b \<Longrightarrow> inv (success b)"
    and inv_failure: "inv b \<Longrightarrow> inv (failure t b)"
begin

text \<open>One guarded call: ask, and report the outcome if the call was made.\<close>

definition guarded :: "time \<Rightarrow> time \<Rightarrow> bool \<Rightarrow> 'b \<Rightarrow> bool \<times> 'b" where
  "guarded t u ok b =
     (let r = allow t b
      in if fst r then (True, if ok then success (snd r) else failure u (snd r)) else (False, snd r))"

lemma guarded_blocked: "blocked t b \<Longrightarrow> guarded t u ok b = (False, b)"
  by (simp add: guarded_def blocked_allow)

lemma guarded_free: "\<not> blocked t b \<Longrightarrow> fst (guarded t u ok b)"
  by (simp add: guarded_def free_allow Let_def)

lemma guarded_calls_iff: "fst (guarded t u ok b) \<longleftrightarrow> \<not> blocked t b"
  using guarded_blocked guarded_free by fastforce

lemma guarded_inv: "inv b \<Longrightarrow> inv (snd (guarded t u ok b))"
  by (simp add: guarded_def inv_allow inv_success inv_failure Let_def)

lemma not_allowed_unchanged: "\<not> fst (allow t b) \<Longrightarrow> allow t b = (False, b)"
  using free_allow blocked_allow by blast

end

interpretation cb: admission_gate Allow RecordSuccess RecordFailure refuses breaker_wf
  by unfold_locales (auto simp: Allow_refuses Allow_admits intro: breaker_wf_ops)

section \<open>Properties\<close>

text \<open>C17: Every breaker that a constructor call and any sequence of method calls can
  produce is well-formed: a closed breaker has seen fewer failures in a row than its
  threshold, a success count is pending only while half-open and is below the recovery
  threshold, and a probe is outstanding only while half-open.\<close>

theorem breaker_invariant: "breaker_reachable cb \<Longrightarrow> breaker_wf cb"
  by (rule breaker_reachable_inv)

theorem breaker_invariant_witness:
  "breaker_wf (RecordFailure 5 (NewCircuitBreakerWithRecovery 3 2 20000000000))"
proof -
  have "breaker_reachable (NewCircuitBreakerWithRecovery 3 2 20000000000)"
    by (rule reach_new_recovery) (simp_all add: int_range_defs)
  then have "breaker_reachable (RecordFailure 5 (NewCircuitBreakerWithRecovery 3 2 20000000000))"
    by (rule reach_step) (rule step_failure)
  then show ?thesis by (rule breaker_invariant)
qed

text \<open>Failures in a row trip the breaker at the threshold and not before. From a closed
  breaker with no failure on record, fewer failures than the threshold leave it closed and
  counting; from the threshold on it is open, and its break period runs from the last
  failure.\<close>

theorem breaker_trips_at_threshold:
  assumes "breaker_wf cb" and "state cb = BreakerClosed" and "failureCount cb = 0"
    and "int (length ts) \<le> maxInt64"
  shows "if int (length ts) < max 1 (failureThreshold cb)
    then state (fail_at ts cb) = BreakerClosed \<and> failureCount (fail_at ts cb) = int (length ts)
    else state (fail_at ts cb) = BreakerOpen \<and> openedAt (fail_at ts cb) = last ts"
proof (cases "int (length ts) < max 1 (failureThreshold cb)")
  case True
  with fail_at_closed [OF assms(1-3)] assms(2) show ?thesis by simp
next
  case False
  then have "max 1 (failureThreshold cb) \<le> int (length ts)" by (simp only: not_less)
  from fail_at_trips [OF assms(1-3) this assms(4)] False show ?thesis by simp
qed

theorem breaker_trips_at_threshold_witness:
  "state (fail_at [1, 2] (NewCircuitBreaker 3 10)) = BreakerClosed \<and>
   state (fail_at [1, 2, 7] (NewCircuitBreaker 3 10)) = BreakerOpen \<and>
   openedAt (fail_at [1, 2, 7] (NewCircuitBreaker 3 10)) = 7"
proof -
  have wf: "breaker_wf (NewCircuitBreaker 3 10)"
    by (rule breaker_wf_new) (simp add: int_range_defs)
  have a: "state (NewCircuitBreaker 3 10) = BreakerClosed"
    "failureCount (NewCircuitBreaker 3 10) = 0" "failureThreshold (NewCircuitBreaker 3 10) = 3"
    by (simp_all add: NewCircuitBreaker_def)
  show ?thesis
    using breaker_trips_at_threshold [OF wf a(1,2), of "[1, 2]"]
      breaker_trips_at_threshold [OF wf a(1,2), of "[1, 2, 7]"] a(3)
    by (simp add: maxInt64_def)
qed

text \<open>An open breaker fails fast. Whatever mix of calls asks for admission, polls the
  state or reports failures of earlier requests between the trip and the end of the break
  period, nobody is let through and the breaker stays open, unless somebody reports a
  success.\<close>

theorem breaker_fails_fast:
  assumes "state cb = BreakerOpen" and "duration_ok cb"
    and "ops_within (openedAt cb) (openedAt cb + breakDuration cb) xs"
  shows "admissions xs cb = 0 \<and> state (breaker_run xs cb) = BreakerOpen"
  using open_window_run [of cb "openedAt cb" xs] assms by (simp add: duration_ok_def)

theorem breaker_fails_fast_witness:
  "admissions [OpAllow 12, OpState 13, OpFailure 14, OpAllow 19]
     (RecordFailure 10 (NewCircuitBreaker 1 10)) = 0"
  using breaker_fails_fast [of "RecordFailure 10 (NewCircuitBreaker 1 10)"
      "[OpAllow 12, OpState 13, OpFailure 14, OpAllow 19]"]
  by (simp add: RecordFailure_def NewCircuitBreaker_def duration_ok_def int_range_defs
      wrap64_def ops_within_def)

text \<open>C18: While the breaker does not close, it admits at most one caller more than the number
  of outcomes reported meanwhile: a half-open breaker has one probe out at a time.\<close>

theorem breaker_single_probe:
  assumes "breaker_reachable cb" and "never_closed xs cb"
  shows "admissions xs cb \<le> 1 + outcomes xs"
  using admissions_probe_bound [OF breaker_reachable_inv [OF assms(1)] assms(2)]
  by (auto split: if_splits)

theorem breaker_single_probe_witness:
  "admissions [OpAllow 20, OpAllow 21, OpAllow 22] (RecordFailure 10 (NewCircuitBreaker 1 10)) \<le> 1"
proof -
  have "breaker_reachable (RecordFailure 10 (NewCircuitBreaker 1 10))"
    by (rule reach_step [OF reach_new step_failure]) (simp add: int_range_defs)
  moreover have "never_closed [OpAllow 20, OpAllow 21, OpAllow 22]
      (RecordFailure 10 (NewCircuitBreaker 1 10))"
    by (simp add: RecordFailure_def NewCircuitBreaker_def Allow_def wrap64_def time_Sub_def
        int_range_defs)
  ultimately show ?thesis
    using breaker_single_probe [of "RecordFailure 10 (NewCircuitBreaker 1 10)"
        "[OpAllow 20, OpAllow 21, OpAllow 22]"]
    by (simp add: outcomes_def)
qed

text \<open>Once its break period is over, an open breaker recovers by exactly
  recoveryThreshold successful probes in a row: each of them is admitted, it stays half-open
  until the last, and is closed after it.\<close>

theorem breaker_recovers:
  assumes "breaker_wf cb" and "duration_ok cb" and "state cb = BreakerOpen"
    and "openedAt cb + breakDuration cb \<le> t" and "int (Suc (length ts)) \<le> recoveryThreshold cb"
  shows "admissions (probe_cycles (t # ts)) cb = Suc (length ts) \<and>
    state (breaker_run (probe_cycles (t # ts)) cb) =
      (if int (Suc (length ts)) < recoveryThreshold cb then BreakerHalfOpen else BreakerClosed)"
proof -
  let ?cb = "snd (State t cb)"
  have elapsed: "breakDuration cb \<le> time_Sub t (openedAt cb)"
    using time_Sub_ge_iff [of "breakDuration cb"] assms(2,4) by (auto simp: duration_ok_def)
  then have s: "?cb = cb\<lparr>state := BreakerHalfOpen\<rparr>" using assms(3) by (simp add: State_def)
  have h: "\<not> halfOpenUsed cb" "recoveryCount cb = 0"
    using assms(1,3) by (auto simp: breaker_wf_def)
  have "Allow t ?cb = Allow t cb" using s h elapsed assms(3) by (simp add: Allow_def)
  then have same: "admissions (probe_cycles (t # ts)) cb = admissions (probe_cycles (t # ts)) ?cb"
    "breaker_run (probe_cycles (t # ts)) cb = breaker_run (probe_cycles (t # ts)) ?cb" by simp_all
  show ?thesis unfolding same
    using half_open_cycles [OF breaker_wf_State [OF assms(1)], of t "t # ts"] s h assms(5) by simp
qed

theorem breaker_recovers_witness:
  "state (breaker_run (probe_cycles [30, 31])
     (RecordFailure 10 (NewCircuitBreakerWithRecovery 1 2 10))) = BreakerClosed"
proof -
  let ?cb = "RecordFailure 10 (NewCircuitBreakerWithRecovery 1 2 10)"
  have wf: "breaker_wf ?cb"
    by (intro breaker_wf_ops breaker_wf_new_recovery) (simp_all add: int_range_defs)
  have a: "duration_ok ?cb" "state ?cb = BreakerOpen" "openedAt ?cb = 10" "breakDuration ?cb = 10"
    "recoveryThreshold ?cb = 2"
    by (simp_all add: RecordFailure_def NewCircuitBreakerWithRecovery_def duration_ok_def
        int_range_defs wrap64_def)
  show ?thesis using breaker_recovers [OF wf a(1,2), of 30 "[31]"] a(3-5) by simp
qed

text \<open>A failed probe starts a new full break period: after a failure reported in the
  half-open state at time t every request before t plus the break duration is refused, and
  the first request from then on is admitted.\<close>

theorem breaker_probe_failure_reopens:
  assumes "state cb = BreakerHalfOpen" and "duration_ok cb"
  shows "fst (Allow u (RecordFailure t cb)) \<longleftrightarrow> t + breakDuration cb \<le> u"
  using assms time_Sub_ge_iff [of "breakDuration cb" u t]
  by (simp add: RecordFailure_def Allow_def duration_ok_def Let_def)

theorem breaker_probe_failure_reopens_witness:
  "\<not> fst (Allow 39 (RecordFailure 30 (snd (Allow 25 (RecordFailure 10 (NewCircuitBreaker 1 10))))))"
  using breaker_probe_failure_reopens
    [of "snd (Allow 25 (RecordFailure 10 (NewCircuitBreaker 1 10)))" 39 30]
  by (simp add: RecordFailure_def NewCircuitBreaker_def Allow_def duration_ok_def int_range_defs
      wrap64_def time_Sub_def)

text \<open>C16: The breaker refines the abstract breaker that is closed with a run of failures,
  tripped since a time, or probing: every execution of the methods on a well-formed breaker
  is mirrored step by step by the specification, and each admission decision agrees.\<close>

theorem breaker_refines_spec:
  assumes "breaker_wf cb" and "duration_ok cb"
  shows "abs_breaker (breaker_run xs cb) = fold (spec_exec cb) xs (abs_breaker cb) \<and>
    fst (Allow t (breaker_run xs cb)) =
      fst (spec_allow (breakDuration cb) t (fold (spec_exec cb) xs (abs_breaker cb)))"
proof -
  have ok: "breaker_wf (breaker_run xs cb)" "duration_ok (breaker_run xs cb)"
    using assms breaker_wf_run duration_ok_config [of "breaker_run xs cb" cb] by auto
  have "abs_breaker (breaker_run xs cb) = fold (spec_exec cb) xs (abs_breaker cb)" using assms
  proof (induction xs arbitrary: cb)
    case Nil
    then show ?case by simp
  next
    case (Cons x xs)
    then have "breaker_wf (breaker_exec x cb)" "duration_ok (breaker_exec x cb)"
      using duration_ok_config [of "breaker_exec x cb" cb] by (auto intro: breaker_wf_exec)
    from Cons.IH [OF this] show ?case
      using Cons.prems spec_exec_config [of "breaker_exec x cb" cb] by (simp add: abs_exec)
  qed
  moreover have "breakDuration (breaker_run xs cb) = breakDuration cb"
    using breaker_config_run [of xs cb] by (simp add: breaker_config_def)
  ultimately show ?thesis using abs_Allow [OF ok, of t] by (metis fst_conv)
qed

theorem breaker_refines_spec_witness:
  "abs_breaker (breaker_run [OpFailure 4, OpFailure 6, OpAllow 20] (NewCircuitBreaker 2 10)) =
     Probing 2 True 0 6"
proof -
  have "breaker_wf (NewCircuitBreaker 2 10)" "duration_ok (NewCircuitBreaker 2 10)"
    by (rule breaker_wf_new) (simp_all add: int_range_defs duration_ok_def NewCircuitBreaker_def)
  from breaker_refines_spec [OF this, of "[OpFailure 4, OpFailure 6, OpAllow 20]"]
  show ?thesis by (simp add: abs_breaker_def NewCircuitBreaker_def wrap64_def)
qed

text \<open>A success reported while the breaker is open closes it at once, whatever is left of
  the break period: the request may have been admitted before the trip. The next caller is
  then admitted at any time, so the open state does not always last for the break
  duration.\<close>

theorem breaker_late_success_closes:
  assumes "state cb = BreakerOpen"
  shows "state (RecordSuccess cb) = BreakerClosed \<and> fst (Allow t (RecordSuccess cb))"
  using assms by (simp add: RecordSuccess_def Allow_def Let_def)

theorem breaker_late_success_closes_witness:
  "\<not> fst (Allow 11 (fail_at [8, 9, 10] (NewCircuitBreaker 3 20000000000))) \<and>
   fst (Allow 11 (RecordSuccess (fail_at [8, 9, 10] (NewCircuitBreaker 3 20000000000))))"
  using breaker_late_success_closes
    [of "fail_at [8, 9, 10] (NewCircuitBreaker 3 20000000000)" 11]
  by (simp add: fail_at_def RecordFailure_def NewCircuitBreaker_def Allow_def wrap64_def
      time_Sub_def int_range_defs)

end
