(* ===== verification/Rate_Limiter.thy ===== *)
theory Rate_Limiter
  imports Go_Strings
begin

text \<open>
  The fixed-window rate limiter of \<^verbatim>\<open>internal/gateway/middleware.go\<close>: \<^verbatim>\<open>RateLimiter\<close>, its
  \<^verbatim>\<open>allow\<close> and one round of its \<^verbatim>\<open>evictLoop\<close>. Both hold the limiter's mutex and read the
  clock while holding it, so an execution is a sequence of requests and eviction rounds with
  readings that do not decrease.

  The lemmas reduce the limiter to one bucket per key, show that eviction is invisible, and
  bound what a key gets within one window and within any interval of a window's length.
\<close>

section \<open>State and operations\<close>

record bucket =
  count :: go_int
  resetAt :: time

record RateLimiter =
  buckets :: "(string, bucket) gomap"
  limit :: go_int
  window :: duration

definition NewRateLimiter :: "go_int \<Rightarrow> go_int \<Rightarrow> RateLimiter" where
  "NewRateLimiter lim windowSeconds =
     \<lparr>buckets = [], limit = lim, window = wrap64 (windowSeconds * Second)\<rparr>"

definition allow :: "time \<Rightarrow> string \<Rightarrow> RateLimiter \<Rightarrow> bool \<times> RateLimiter" where
  "allow now key rl =
     (let fresh = (True, rl\<lparr>buckets :=
             gm_set key \<lparr>count = 1, resetAt = time_Add now (window rl)\<rparr> (buckets rl)\<rparr>)
      in case gm_get (buckets rl) key of
           None \<Rightarrow> fresh
         | Some b \<Rightarrow>
             if time_After now (resetAt b) then fresh
             else if limit rl \<le> count b then (False, rl)
             else (True, rl\<lparr>buckets :=
                     gm_set key (b\<lparr>count := wrap64 (count b + 1)\<rparr>) (buckets rl)\<rparr>))"

text \<open>The period of the eviction loop, and one of its rounds.\<close>

definition evict_interval :: "RateLimiter \<Rightarrow> duration" where
  "evict_interval rl =
     (let interval = wrap64 (window rl * 2)
      in if interval < 10 * Second then 10 * Second else interval)"

definition evict_round :: "time \<Rightarrow> RateLimiter \<Rightarrow> RateLimiter" where
  "evict_round now rl =
     rl\<lparr>buckets := gm_filter (\<lambda>key b. \<not> time_After now (resetAt b)) (buckets rl)\<rparr>"

datatype limiter_event = Request (at: time) (key: string) | Evict (at: time)

fun limiter_step :: "limiter_event \<Rightarrow> RateLimiter \<Rightarrow> bool \<times> RateLimiter" where
  "limiter_step (Request t k) rl = allow t k rl"
| "limiter_step (Evict t) rl = (False, evict_round t rl)"

text \<open>The times at which requests of the client \<open>k\<close> were let through.\<close>

fun admitted :: "string \<Rightarrow> limiter_event list \<Rightarrow> RateLimiter \<Rightarrow> time list" where
  "admitted k [] rl = []"
| "admitted k (e # es) rl =
     (let r = limiter_step e rl
      in (if fst r \<and> (case e of Request t k' \<Rightarrow> k' = k | Evict t \<Rightarrow> False) then [at e] else [])
         @ admitted k es (snd r))"

fun limiter_run :: "limiter_event list \<Rightarrow> RateLimiter \<Rightarrow> RateLimiter" where
  "limiter_run [] rl = rl"
| "limiter_run (e # es) rl = limiter_run es (snd (limiter_step e rl))"

section \<open>One bucket\<close>

definition permits :: "go_int \<Rightarrow> int" where
  "permits lim = max 1 lim"

definition bucket_step :: "duration \<Rightarrow> go_int \<Rightarrow> time \<Rightarrow> bucket option \<Rightarrow> bool \<times> bucket" where
  "bucket_step w lim now ob =
     (case ob of
        None \<Rightarrow> (True, \<lparr>count = 1, resetAt = now + w\<rparr>)
      | Some b \<Rightarrow>
          if resetAt b < now then (True, \<lparr>count = 1, resetAt = now + w\<rparr>)
          else if lim \<le> count b then (False, b)
          else (True, b\<lparr>count := count b + 1\<rparr>))"

fun bucket_run :: "duration \<Rightarrow> go_int \<Rightarrow> bucket option \<Rightarrow> time list \<Rightarrow> time list" where
  "bucket_run w lim ob [] = []"
| "bucket_run w lim ob (t # ts) =
     (let r = bucket_step w lim t ob
      in (if fst r then [t] else []) @ bucket_run w lim (Some (snd r)) ts)"

definition bucket_ok :: "go_int \<Rightarrow> bucket \<Rightarrow> bool" where
  "bucket_ok lim b \<longleftrightarrow> 1 \<le> count b \<and> count b \<le> permits lim"

definition limiter_wf :: "RateLimiter \<Rightarrow> bool" where
  "limiter_wf rl \<longleftrightarrow>
     gm_wf (buckets rl) \<and> is_int64 (limit rl) \<and>
     (\<forall>k b. gm_get (buckets rl) k = Some b \<longrightarrow> bucket_ok (limit rl) b)"

lemma bucket_step_ok:
  "(\<And>b. ob = Some b \<Longrightarrow> bucket_ok lim b) \<Longrightarrow> bucket_ok lim (snd (bucket_step w lim t ob))"
  by (auto simp: bucket_step_def bucket_ok_def permits_def split: option.splits)

text \<open>The limiter treats each key as its own bucket.\<close>

lemma allow_bucket_step:
  assumes "limiter_wf rl"
  shows "fst (allow t k rl) = fst (bucket_step (window rl) (limit rl) t (gm_get (buckets rl) k))"
    and "gm_get (buckets (snd (allow t k rl))) j =
      (if j = k then Some (snd (bucket_step (window rl) (limit rl) t (gm_get (buckets rl) k)))
       else gm_get (buckets rl) j)"
proof -
  have "wrap64 (count b + 1) = count b + 1"
    if "gm_get (buckets rl) k = Some b" "\<not> limit rl \<le> count b" for b
    using that assms
    by (intro wrap64_nonneg) (fastforce simp: limiter_wf_def bucket_ok_def int_range_defs)+
  then show "fst (allow t k rl) = fst (bucket_step (window rl) (limit rl) t (gm_get (buckets rl) k))"
    and "gm_get (buckets (snd (allow t k rl))) j =
      (if j = k then Some (snd (bucket_step (window rl) (limit rl) t (gm_get (buckets rl) k)))
       else gm_get (buckets rl) j)"
    by (auto simp: allow_def bucket_step_def time_After_def time_Add_def Let_def gm_simps
        split: option.splits)
qed

lemma allow_frame [simp]:
  "limit (snd (allow t k rl)) = limit rl" "window (snd (allow t k rl)) = window rl"
  by (auto simp: allow_def Let_def split: option.splits)

lemma evict_frame [simp]:
  "limit (evict_round t rl) = limit rl" "window (evict_round t rl) = window rl"
  by (simp_all add: evict_round_def)

lemma limiter_wf_allow:
  assumes "limiter_wf rl"
  shows "limiter_wf (snd (allow t k rl))"
proof -
  have "gm_wf (buckets (snd (allow t k rl)))"
    using assms by (auto simp: limiter_wf_def allow_def Let_def split: option.splits)
  moreover have "bucket_ok (limit rl) (snd (bucket_step (window rl) (limit rl) t (gm_get (buckets rl) k)))"
    using assms by (intro bucket_step_ok) (auto simp: limiter_wf_def)
  ultimately show ?thesis
    using assms by (auto simp: limiter_wf_def allow_bucket_step(2) [OF assms] split: if_splits)
qed

lemma limiter_wf_evict: "limiter_wf rl \<Longrightarrow> limiter_wf (evict_round t rl)"
  by (auto simp: limiter_wf_def evict_round_def gm_simps split: option.splits if_splits)

lemma limiter_wf_step: "limiter_wf rl \<Longrightarrow> limiter_wf (snd (limiter_step e rl))"
  by (cases e) (auto intro: limiter_wf_allow limiter_wf_evict)

lemma limiter_wf_run: "limiter_wf rl \<Longrightarrow> limiter_wf (limiter_run es rl)"
  by (induction es arbitrary: rl) (auto intro: limiter_wf_step)

lemma admitted_append [simp]: "admitted k (es @ fs) rl = admitted k es rl @ admitted k fs (limiter_run es rl)"
  by (induction es arbitrary: rl) (simp_all add: Let_def)

lemma limiter_run_append [simp]: "limiter_run (es @ fs) rl = limiter_run fs (limiter_run es rl)"
  by (induction es arbitrary: rl) simp_all

lemma limiter_step_frame [simp]:
  "limit (snd (limiter_step e rl)) = limit rl" "window (snd (limiter_step e rl)) = window rl"
  by (cases e; simp)+

lemma limiter_wf_new: "is_int64 lim \<Longrightarrow> limiter_wf (NewRateLimiter lim s)"
  by (simp add: limiter_wf_def NewRateLimiter_def)

section \<open>Eviction is invisible\<close>

fun request_times :: "string \<Rightarrow> limiter_event list \<Rightarrow> time list" where
  "request_times k [] = []"
| "request_times k (Request t k' # es) = (if k' = k then t # request_times k es else request_times k es)"
| "request_times k (Evict t # es) = request_times k es"

definition ordered_events :: "limiter_event list \<Rightarrow> bool" where
  "ordered_events es \<longleftrightarrow> sorted (map at es)"

text \<open>
  A bucket that is missing on one side only because it has expired: no later reading can
  tell the two apart.
\<close>

definition same_bucket :: "bucket option \<Rightarrow> bucket option \<Rightarrow> time list \<Rightarrow> bool" where
  "same_bucket ob ob' ts \<longleftrightarrow>
     ob = ob' \<or> (ob = None \<and> (\<exists>b. ob' = Some b \<and> (\<forall>t \<in> set ts. resetAt b < t)))"

lemma same_bucket_step:
  "same_bucket ob ob' ts \<Longrightarrow> t \<in> set ts \<Longrightarrow> bucket_step w lim t ob = bucket_step w lim t ob'"
  by (auto simp: same_bucket_def bucket_step_def)

lemma request_times_subset: "set (request_times k es) \<subseteq> at ` set es"
  by (induction es rule: request_times.induct) auto

lemma ordered_tail: "ordered_events (e # es) \<Longrightarrow> ordered_events es"
  by (simp add: ordered_events_def)

lemma ordered_request_times: "ordered_events (e # es) \<Longrightarrow> t \<in> set (request_times k es) \<Longrightarrow> at e \<le> t"
  using request_times_subset [of k es] by (auto simp: ordered_events_def)

lemma sorted_request_times: "ordered_events es \<Longrightarrow> sorted (request_times k es)"
proof (induction k es rule: request_times.induct)
  case (2 k t k' es)
  then show ?case using ordered_request_times [of "Request t k'" es] ordered_tail [OF 2(3)] by auto
qed (auto dest: ordered_tail)

lemma admitted_bucket_run:
  assumes "limiter_wf rl" and "ordered_events es"
    and "same_bucket (gm_get (buckets rl) k) ob (request_times k es)"
  shows "admitted k es rl = bucket_run (window rl) (limit rl) ob (request_times k es)"
  using assms
proof (induction es arbitrary: rl ob)
  case Nil
  then show ?case by simp
next
  case (Cons e es)
  let ?rl = "snd (limiter_step e rl)"
  have wf: "limiter_wf ?rl" using Cons.prems(1) by (rule limiter_wf_step)
  have ord: "ordered_events es" using Cons.prems(2) by (rule ordered_tail)
  show ?case
  proof (cases e)
    case (Request t k')
    show ?thesis
    proof (cases "k' = k")
      case True
      then have s: "bucket_step (window rl) (limit rl) t (gm_get (buckets rl) k) =
          bucket_step (window rl) (limit rl) t ob"
        using Cons.prems(3) Request by (intro same_bucket_step) auto
      have "same_bucket (gm_get (buckets ?rl) k)
          (Some (snd (bucket_step (window rl) (limit rl) t ob))) (request_times k es)"
        using Request True s by (simp add: allow_bucket_step [OF Cons.prems(1)] same_bucket_def)
      from Cons.IH [OF wf ord this] show ?thesis
        using Request True s by (simp add: allow_bucket_step(1) [OF Cons.prems(1)] Let_def)
    next
      case False
      then have "same_bucket (gm_get (buckets ?rl) k) ob (request_times k es)"
        using Request Cons.prems by (simp add: allow_bucket_step [OF Cons.prems(1)])
      from Cons.IH [OF wf ord this] show ?thesis using Request False by (simp add: Let_def)
    qed
  next
    case (Evict t)
    have later: "\<forall>u \<in> set (request_times k es). t \<le> u"
      using ordered_request_times [OF Cons.prems(2)] Evict by auto
    have "same_bucket (gm_get (buckets ?rl) k) ob (request_times k es)"
      using Cons.prems(1,3) later Evict
      by (fastforce simp: same_bucket_def evict_round_def gm_simps limiter_wf_def time_After_def
          split: option.splits if_splits)
    from Cons.IH [OF wf ord this] show ?thesis using Evict by (simp add: Let_def)
  qed
qed

section \<open>Counting\<close>

definition among :: "(time \<Rightarrow> bool) \<Rightarrow> time list \<Rightarrow> int" where
  "among P ts = int (length (filter P ts))"

lemma among_simps [simp]:
  "among P [] = 0" "among P (t # ts) = (if P t then 1 else 0) + among P ts"
  "among P (ts @ us) = among P ts + among P us"
  by (simp_all add: among_def)

lemma among_nonneg [simp]: "0 \<le> among P ts"
  by (simp add: among_def)

lemma among_mono: "(\<And>t. t \<in> set ts \<Longrightarrow> P t \<Longrightarrow> Q t) \<Longrightarrow> among P ts \<le> among Q ts"
  by (induction ts) auto

lemma among_none: "(\<And>t. t \<in> set ts \<Longrightarrow> \<not> P t) \<Longrightarrow> among P ts = 0"
  by (induction ts) auto

lemma bucket_run_subset: "set (bucket_run w lim ob ts) \<subseteq> set ts"
  by (induction ts arbitrary: ob) (auto simp: Let_def)

lemma current_bucket_bound:
  "sorted ts \<Longrightarrow> bucket_ok lim b \<Longrightarrow>
   among (\<lambda>u. u \<le> resetAt b) (bucket_run w lim (Some b) ts) \<le> permits lim - count b"
proof (induction ts arbitrary: b)
  case Nil
  then show ?case by (simp add: bucket_ok_def)
next
  case (Cons t ts)
  let ?b = "snd (bucket_step w lim t (Some b))"
  have ok: "bucket_ok lim ?b" using Cons.prems(2) by (intro bucket_step_ok) simp
  show ?case
  proof (cases "resetAt b < t")
    case True
    then have "\<And>u. u \<in> set (bucket_run w lim (Some b) (t # ts)) \<Longrightarrow> \<not> u \<le> resetAt b"
      using bucket_run_subset [of w lim "Some b" "t # ts"] Cons.prems(1) by fastforce
    then have "among (\<lambda>u. u \<le> resetAt b) (bucket_run w lim (Some b) (t # ts)) = 0"
      by (rule among_none)
    then show ?thesis using Cons.prems(2) by (simp add: bucket_ok_def del: bucket_run.simps)
  next
    case False
    have "among (\<lambda>u. u \<le> resetAt ?b) (bucket_run w lim (Some ?b) ts) \<le> permits lim - count ?b"
      using Cons.IH [OF _ ok] Cons.prems(1) by simp
    then show ?thesis using False by (auto simp: bucket_step_def Let_def)
  qed
qed

lemma next_bucket_bound:
  "sorted ts \<Longrightarrow> bucket_ok lim b \<Longrightarrow>
   among (\<lambda>u. resetAt b < u \<and> u \<le> resetAt b + w) (bucket_run w lim (Some b) ts) \<le> permits lim"
proof (induction ts arbitrary: b)
  case Nil
  then show ?case by (simp add: permits_def)
next
  case (Cons t ts)
  let ?b = "snd (bucket_step w lim t (Some b))"
  have ok: "bucket_ok lim ?b" using Cons.prems(2) by (intro bucket_step_ok) simp
  have sorted: "sorted ts" using Cons.prems(1) by simp
  show ?case
  proof (cases "resetAt b < t")
    case True
    then have b: "?b = \<lparr>count = 1, resetAt = t + w\<rparr>" by (simp add: bucket_step_def)
    have "among (\<lambda>u. resetAt b < u \<and> u \<le> resetAt b + w) (bucket_run w lim (Some ?b) ts)
        \<le> among (\<lambda>u. u \<le> resetAt ?b) (bucket_run w lim (Some ?b) ts)"
      using True b by (intro among_mono) auto
    also have "\<dots> \<le> permits lim - 1" using current_bucket_bound [OF sorted ok] b by simp
    finally show ?thesis by (simp add: Let_def)
  next
    case False
    then have "resetAt ?b = resetAt b" by (simp add: bucket_step_def)
    with Cons.IH [OF sorted ok] False show ?thesis by (simp add: Let_def)
  qed
qed

lemma interval_bound:
  "sorted ts \<Longrightarrow> (\<And>b. ob = Some b \<Longrightarrow> bucket_ok lim b) \<Longrightarrow>
   among (\<lambda>u. s \<le> u \<and> u \<le> s + w) (bucket_run w lim ob ts) \<le> 2 * permits lim"
proof (induction ts arbitrary: ob)
  case Nil
  then show ?case by (simp add: permits_def)
next
  case (Cons t ts)
  let ?r = "bucket_step w lim t ob" and ?P = "\<lambda>u. s \<le> u \<and> u \<le> s + w"
  have ok: "bucket_ok lim (snd ?r)" using Cons.prems(2) by (rule bucket_step_ok)
  have sorted: "sorted ts" using Cons.prems(1) by simp
  let ?us = "bucket_run w lim (Some (snd ?r)) ts"
  have ih: "among ?P ?us \<le> 2 * permits lim" using Cons.IH [OF sorted, of "Some (snd ?r)"] ok by simp
  show ?case
  proof (cases "fst ?r \<and> s \<le> t")
    case False
    with ih show ?thesis by (auto simp: Let_def)
  next
    case True
    then have reset: "t \<le> resetAt (snd ?r) \<or> w < 0" "resetAt (snd ?r) = t + w \<or> t \<le> resetAt (snd ?r)"
      by (auto simp: bucket_step_def split: option.splits if_splits)
    have "among ?P ?us \<le> among (\<lambda>u. u \<le> resetAt (snd ?r)) ?us
        + among (\<lambda>u. resetAt (snd ?r) < u \<and> u \<le> resetAt (snd ?r) + w) ?us"
    proof -
      have "among ?P xs \<le> among (\<lambda>u. u \<le> resetAt (snd ?r)) xs
          + among (\<lambda>u. resetAt (snd ?r) < u \<and> u \<le> resetAt (snd ?r) + w) xs" for xs
        using True reset by (induction xs) auto
      then show ?thesis .
    qed
    also have "\<dots> \<le> (permits lim - count (snd ?r)) + permits lim"
      using current_bucket_bound [OF sorted ok] next_bucket_bound [OF sorted ok] by (rule add_mono)
    finally show ?thesis using ok True by (auto simp: Let_def bucket_ok_def)
  qed
qed

lemma admitted_interval:
  assumes "limiter_wf rl" and "ordered_events es"
  shows "among (\<lambda>u. s \<le> u \<and> u \<le> s + window rl) (admitted k es rl) \<le> 2 * permits (limit rl)"
proof -
  have "admitted k es rl =
      bucket_run (window rl) (limit rl) (gm_get (buckets rl) k) (request_times k es)"
    using admitted_bucket_run [OF assms] by (simp add: same_bucket_def)
  then show ?thesis
    using interval_bound [OF sorted_request_times [OF assms(2)], of "gm_get (buckets rl) k"] assms(1)
    by (simp add: limiter_wf_def)
qed

lemma bucket_run_window:
  "bucket_ok lim b \<Longrightarrow> (\<And>t. t \<in> set ts \<Longrightarrow> t \<le> resetAt b) \<Longrightarrow>
   bucket_run w lim (Some b) ts = take (nat (permits lim - count b)) ts"
proof (induction ts arbitrary: b)
  case Nil
  then show ?case by simp
next
  case (Cons t ts)
  show ?case
  proof (cases "lim \<le> count b")
    case True
    then have "permits lim = count b" using Cons.prems(1) by (auto simp: bucket_ok_def permits_def)
    moreover have "bucket_run w lim (Some b) us = []" if "set us \<subseteq> set (t # ts)" for us
      using that True Cons.prems(2) by (induction us) (auto simp: bucket_step_def Let_def not_less)
    ultimately show ?thesis by (simp del: bucket_run.simps)
  next
    case False
    then have "nat (permits lim - count b) = Suc (nat (permits lim - (count b + 1)))"
      by (simp add: permits_def)
    moreover have "bucket_ok lim (b\<lparr>count := count b + 1\<rparr>)"
      using False Cons.prems(1) by (simp add: bucket_ok_def permits_def)
    moreover have "\<not> resetAt b < t" using Cons.prems(2) [of t] by simp
    ultimately show ?thesis
      using False Cons.prems(2) Cons.IH [of "b\<lparr>count := count b + 1\<rparr>"]
      by (simp add: bucket_step_def Let_def)
  qed
qed

lemma bucket_run_first_window:
  assumes "\<And>u. u \<in> set ts \<Longrightarrow> u \<le> t + w"
  shows "bucket_run w lim None (t # ts) = take (nat (permits lim)) (t # ts)"
proof -
  have "nat (permits lim) = Suc (nat (permits lim - 1))" by (simp add: permits_def)
  then show ?thesis
    using bucket_run_window [of lim "\<lparr>count = 1, resetAt = t + w\<rparr>" ts w] assms
    by (simp add: bucket_step_def Let_def bucket_ok_def permits_def)
qed

lemma request_times_alone: "request_times k (map (\<lambda>t. Request t k) ts) = ts"
  by (induction ts) auto

section \<open>Properties\<close>

text \<open>In every execution from a new limiter, whatever requests and eviction rounds come in,
  each bucket counts at least one request and never more than the permit limit (or one, where
  the limit is not positive), and no client has two buckets.\<close>

theorem limiter_invariant:
  assumes "is_int64 lim"
  shows "limiter_wf (limiter_run es (NewRateLimiter lim windowSeconds))"
  using assms by (intro limiter_wf_run limiter_wf_new)

theorem limiter_invariant_witness:
  "limiter_wf (limiter_run [Request 5 ''10.0.0.1'', Evict 7, Request 8 ''10.0.0.1'']
     (NewRateLimiter 100 60))"
  by (rule limiter_invariant) (simp add: int_range_defs)

text \<open>A client whose requests all fall into one window, counted from its first request,
  has exactly its first limit requests let through and every later one rejected, whatever
  other clients do and whenever eviction runs.\<close>

theorem limiter_window_exact:
  assumes "limiter_wf rl" and "ordered_events es" and "gm_get (buckets rl) k = None"
    and "request_times k es = t # ts" and "\<forall>u \<in> set ts. u \<le> t + window rl"
  shows "admitted k es rl = take (nat (permits (limit rl))) (request_times k es)"
proof -
  have "admitted k es rl = bucket_run (window rl) (limit rl) None (t # ts)"
    using admitted_bucket_run [OF assms(1,2), of k None] assms(3,4) by (simp add: same_bucket_def)
  also have "\<dots> = take (nat (permits (limit rl))) (t # ts)"
    using assms(5) by (intro bucket_run_first_window) auto
  finally show ?thesis by (simp add: assms(4))
qed

theorem limiter_window_exact_witness:
  "admitted ''a'' [Request 1 ''a'', Request 2 ''b'', Request 3 ''a'', Evict 4, Request 5 ''a'']
     (NewRateLimiter 2 60) = [1, 3]"
proof -
  let ?es = "[Request 1 ''a'', Request 2 ''b'', Request 3 ''a'', Evict 4, Request 5 ''a'']"
  have "limiter_wf (NewRateLimiter 2 60)" by (rule limiter_wf_new) (simp add: int_range_defs)
  moreover have "ordered_events ?es" by (simp add: ordered_events_def)
  ultimately show ?thesis
    using limiter_window_exact [of "NewRateLimiter 2 60" ?es "''a''" 1 "[3, 5]"]
    by (simp add: NewRateLimiter_def wrap64_def permits_def)
qed

text \<open>In any interval as long as the window, wherever it starts, a client gets at most
  twice the permit limit through, the price of windows that are fixed and not sliding.\<close>

theorem limiter_interval_bound:
  assumes "limiter_wf rl" and "ordered_events es"
  shows "among (\<lambda>u. s \<le> u \<and> u \<le> s + window rl) (admitted k es rl) \<le> 2 * permits (limit rl)"
  using assms by (rule admitted_interval)

theorem limiter_interval_bound_witness:
  "among (\<lambda>u. 5 \<le> u \<and> u \<le> 5 + 60000000000)
     (admitted ''a'' [Request 5 ''a'', Request 6 ''a'', Request 60000000007 ''a''] (NewRateLimiter 1 60))
   \<le> 2"
proof -
  let ?es = "[Request 5 ''a'', Request 6 ''a'', Request 60000000007 ''a'']"
  have "limiter_wf (NewRateLimiter 1 60)" by (rule limiter_wf_new) (simp add: int_range_defs)
  moreover have "ordered_events ?es" by (simp add: ordered_events_def)
  ultimately show ?thesis
    using limiter_interval_bound [of "NewRateLimiter 1 60" ?es 5 "''a''"]
    by (simp add: NewRateLimiter_def wrap64_def permits_def)
qed

text \<open>What a client is granted depends on its own requests only: neither the requests of
  other clients nor the eviction rounds in between change which of its requests pass.\<close>

theorem limiter_isolated:
  assumes "limiter_wf rl" and "ordered_events es"
  shows "admitted k es rl = admitted k (map (\<lambda>t. Request t k) (request_times k es)) rl"
proof -
  have "ordered_events (map (\<lambda>t. Request t k) (request_times k es))"
    using sorted_request_times [OF assms(2)] by (simp add: ordered_events_def comp_def)
  then show ?thesis
    using admitted_bucket_run [OF assms, of k "gm_get (buckets rl) k"]
      admitted_bucket_run [OF assms(1), of "map (\<lambda>t. Request t k) (request_times k es)" k
        "gm_get (buckets rl) k"]
    by (simp add: same_bucket_def request_times_alone)
qed

theorem limiter_isolated_witness:
  "admitted ''a'' [Request 1 ''b'', Request 2 ''a'', Evict 90000000000, Request 90000000001 ''a'']
     (NewRateLimiter 1 60) =
   admitted ''a'' [Request 2 ''a'', Request 90000000001 ''a''] (NewRateLimiter 1 60)"
proof -
  let ?es = "[Request 1 ''b'', Request 2 ''a'', Evict 90000000000, Request 90000000001 ''a'']"
  have "limiter_wf (NewRateLimiter 1 60)" by (rule limiter_wf_new) (simp add: int_range_defs)
  moreover have "ordered_events ?es" by (simp add: ordered_events_def)
  ultimately have "admitted ''a'' ?es (NewRateLimiter 1 60) =
      admitted ''a'' (map (\<lambda>t. Request t ''a'') (request_times ''a'' ?es)) (NewRateLimiter 1 60)"
    by (rule limiter_isolated)
  then show ?thesis by simp
qed

end
