(* ===== verification/Mesh_Types.thy ===== *)
theory Mesh_Types
  imports Go_Strings
begin

text \<open>
  Data that several packages share: the health status of \<^verbatim>\<open>internal/types/health.go\<close> (which
  \<^verbatim>\<open>consul\<close>, \<^verbatim>\<open>router\<close> and \<^verbatim>\<open>healthmonitor\<close> alias), the service instance of
  \<^verbatim>\<open>internal/consul/registry.go\<close> (which \<^verbatim>\<open>internal/router/router.go\<close> declares field by field
  again), Go's \<^verbatim>\<open>error\<close> values as their messages, and the result of a call that may panic.
\<close>

type_synonym error = string
type_synonym metadata = "(string, string) gomap"

datatype 'a outcome = Panics | Returns 'a

datatype HealthStatus = HealthUnknown | HealthHealthy | HealthUnhealthy | HealthDegraded

fun HealthStatus_String :: "HealthStatus \<Rightarrow> string" where
  "HealthStatus_String HealthHealthy = ''Healthy''"
| "HealthStatus_String HealthUnhealthy = ''Unhealthy''"
| "HealthStatus_String HealthDegraded = ''Degraded''"
| "HealthStatus_String HealthUnknown = ''Unknown''"

record Instance =
  ServiceName :: string
  ServiceID :: string
  Address :: string
  Port :: go_int
  Status :: HealthStatus
  Metadata :: metadata
  RegisteredAt :: time
  LastHealthCheck :: time

text \<open>\<^verbatim>\<open>if v, ok := m[k]; ok && v != ""\<close>: a metadata entry that is set and not empty.\<close>

definition meta_nonempty :: "metadata \<Rightarrow> string \<Rightarrow> string option" where
  "meta_nonempty m k =
     (case gm_get m k of None \<Rightarrow> None | Some v \<Rightarrow> if v = [] then None else Some v)"

text \<open>
  The states of health in the order in which one prevails over another when they are combined:
  healthy, unknown, degraded, unhealthy.
\<close>

fun severity :: "HealthStatus \<Rightarrow> nat" where
  "severity HealthHealthy = 0"
| "severity HealthUnknown = 1"
| "severity HealthDegraded = 2"
| "severity HealthUnhealthy = 3"

lemma severity_inj [simp]: "severity a = severity b \<longleftrightarrow> a = b"
  by (cases a; cases b) auto

instantiation HealthStatus :: linorder
begin

definition less_eq_HealthStatus :: "HealthStatus \<Rightarrow> HealthStatus \<Rightarrow> bool" where
  "less_eq_HealthStatus a b \<longleftrightarrow> severity a \<le> severity b"

definition less_HealthStatus :: "HealthStatus \<Rightarrow> HealthStatus \<Rightarrow> bool" where
  "less_HealthStatus a b \<longleftrightarrow> severity a < severity b"

instance
  by standard (auto simp: less_eq_HealthStatus_def less_HealthStatus_def simp flip: severity_inj)

end

lemma HealthStatus_String_inj: "HealthStatus_String s = HealthStatus_String t \<Longrightarrow> s = t"
  by (cases s; cases t) auto

lemma meta_nonempty_not_Nil: "meta_nonempty m k = Some v \<Longrightarrow> v \<noteq> []"
  by (auto simp: meta_nonempty_def split: option.splits if_splits)

end
