(* ===== verification/Load_Balancer.thy ===== *)
theory Load_Balancer
  imports Mesh_Types "HOL-Library.Signed_Division" "HOL-Library.Multiset"
begin

unbundle bit_operations_syntax

text \<open>
  The load balancer of \<^verbatim>\<open>internal/router\<close>: the strategy names of \<^verbatim>\<open>router.go\<close> and \<^verbatim>\<open>Select\<close>,
  \<^verbatim>\<open>ReportResult\<close> and \<^verbatim>\<open>Stats\<close> of \<^verbatim>\<open>balancer.go\<close> with every strategy and helper. Counters
  that the code keeps in \<^verbatim>\<open>atomic.Int64\<close> are 64-bit words. The \<^verbatim>\<open>InstanceProvider\<close> interface
  is an argument, and so is the random number a call may draw.

  The lemmas show that no selection panics, which instances can be selected, that round
  robin is fair and weighted round robin is proportional, that least connections picks a
  minimum, that session hashing is sticky, and that the request statistics add up.
\<close>

section \<open>Strategies\<close>

datatype Strategy = RoundRobin | LeastConnections | Random | WeightedRoundRobin | IPHash

definition ParseStrategy :: "unicode_tables \<Rightarrow> string \<Rightarrow> Strategy" where
  "ParseStrategy u name =
     (let s = ToLower u name in
      if s = ''roundrobin'' \<or> s = ''round_robin'' then RoundRobin
      else if s = ''leastconnections'' \<or> s = ''least_connections'' then LeastConnections
      else if s = ''random'' then Random
      else if s = ''weightedroundrobin'' \<or> s = ''weighted_round_robin'' then WeightedRoundRobin
      else if s = ''iphash'' \<or> s = ''ip_hash'' then IPHash
      else RoundRobin)"

fun Strategy_String :: "Strategy \<Rightarrow> string" where
  "Strategy_String RoundRobin = ''RoundRobin''"
| "Strategy_String LeastConnections = ''LeastConnections''"
| "Strategy_String Random = ''Random''"
| "Strategy_String WeightedRoundRobin = ''WeightedRoundRobin''"
| "Strategy_String IPHash = ''IPHash''"

record Context =
  PreferredZone :: string
  Headers :: "(string, string) gomap"
  SessionID :: string

record RequestResult =
  rr_ServiceID :: string
  Success :: bool
  ResponseTime :: duration
  StatusCode :: go_int
  ErrorMessage :: string

record Stats =
  st_ServiceName :: string
  TotalRequests :: int64
  SuccessfulRequests :: int64
  FailedRequests :: int64
  AverageResponseTime :: duration
  InstanceRequestCounts :: "(string, int64) gomap"

section \<open>State\<close>

record serviceStats =
  serviceName :: string
  totalRequests :: int64
  successfulRequests :: int64
  failedRequests :: int64
  totalResponseNanos :: int64
  instanceCounts :: "(string, int64) gomap"

record LoadBalancer =
  roundRobinIdx :: "(string, int64) gomap"
  connectionCount :: "(string, (string, int64) gomap) gomap"
  stats :: "(string, serviceStats) gomap"

definition NewLoadBalancer :: LoadBalancer where
  "NewLoadBalancer = \<lparr>roundRobinIdx = [], connectionCount = [], stats = []\<rparr>"

definition newServiceStats :: "string \<Rightarrow> serviceStats" where
  "newServiceStats name =
     \<lparr>serviceName = name, totalRequests = 0, successfulRequests = 0, failedRequests = 0,
      totalResponseNanos = 0, instanceCounts = []\<rparr>"

section \<open>Helpers\<close>

definition filterHealthy :: "Instance list \<Rightarrow> Instance list" where
  "filterHealthy instances = filter (\<lambda>inst. Status inst = HealthHealthy) instances"

definition filterNonUnknown :: "Instance list \<Rightarrow> Instance list" where
  "filterNonUnknown instances = filter (\<lambda>inst. Status inst \<noteq> HealthUnknown) instances"

fun resolveStrategy :: "unicode_tables \<Rightarrow> Instance list \<Rightarrow> Strategy" where
  "resolveStrategy u [] = RoundRobin"
| "resolveStrategy u (inst # rest) =
     (case meta_nonempty (Metadata inst) ''lb_strategy'' of
        Some s \<Rightarrow> ParseStrategy u s
      | None \<Rightarrow> resolveStrategy u rest)"

definition getRoundRobinIdx :: "string \<Rightarrow> LoadBalancer \<Rightarrow> int64 \<times> LoadBalancer" where
  "getRoundRobinIdx name lb =
     (case gm_get (roundRobinIdx lb) name of
        Some idx \<Rightarrow> (idx, lb)
      | None \<Rightarrow> (0, lb\<lparr>roundRobinIdx := gm_set name 0 (roundRobinIdx lb)\<rparr>))"

definition getConnectionCounts :: "string \<Rightarrow> LoadBalancer \<Rightarrow> (string, int64) gomap \<times> LoadBalancer" where
  "getConnectionCounts name lb =
     (case gm_get (connectionCount lb) name of
        Some counts \<Rightarrow> (counts, lb)
      | None \<Rightarrow> ([], lb\<lparr>connectionCount := gm_set name [] (connectionCount lb)\<rparr>))"

definition getOrCreateCounter :: "string \<Rightarrow> (string, int64) gomap \<Rightarrow> int64 \<times> (string, int64) gomap" where
  "getOrCreateCounter serviceID counts =
     (case gm_get counts serviceID of
        Some c \<Rightarrow> (c, counts)
      | None \<Rightarrow> (0, gm_set serviceID 0 counts))"

definition serviceStats_recordRequest :: "string \<Rightarrow> serviceStats \<Rightarrow> serviceStats" where
  "serviceStats_recordRequest instanceID s =
     s\<lparr>totalRequests := totalRequests s + 1,
       instanceCounts :=
         gm_set instanceID (gm_get_or 0 (instanceCounts s) instanceID + 1) (instanceCounts s)\<rparr>"

definition serviceStats_report :: "RequestResult \<Rightarrow> serviceStats \<Rightarrow> serviceStats" where
  "serviceStats_report result s =
     (let s' = (if Success result
                then s\<lparr>successfulRequests := successfulRequests s + 1\<rparr>
                else s\<lparr>failedRequests := failedRequests s + 1\<rparr>)
      in s'\<lparr>totalResponseNanos := totalResponseNanos s' + word_of_int (ResponseTime result)\<rparr>)"

definition getServiceStats :: "string \<Rightarrow> string \<Rightarrow> LoadBalancer \<Rightarrow> serviceStats \<times> LoadBalancer" where
  "getServiceStats name serviceID lb =
     (case gm_get (stats lb) serviceID of
        Some s \<Rightarrow> (s, lb)
      | None \<Rightarrow> (newServiceStats name,
                 lb\<lparr>stats := gm_set serviceID (newServiceStats name) (stats lb)\<rparr>))"

definition recordRequest :: "string \<Rightarrow> Instance \<Rightarrow> LoadBalancer \<Rightarrow> LoadBalancer" where
  "recordRequest name inst lb =
     (let (s, lb1) = getServiceStats name (ServiceID inst) lb
      in lb1\<lparr>stats := gm_set (ServiceID inst)
                (serviceStats_recordRequest (ServiceID inst) s) (stats lb1)\<rparr>)"

text \<open>FNV-1a over the code points of the string, in 32-bit arithmetic.\<close>

definition fnv1a :: "string \<Rightarrow> uint32" where
  "fnv1a s = fold (\<lambda>c h. (h XOR of_nat c) * 16777619) (runes s) 2166136261"

definition abs64 :: "int64 \<Rightarrow> int64" where
  "abs64 n =
     (if sint n = minInt64 then word_of_int maxInt64
      else if sint n < 0 then - n else n)"

section \<open>Selection\<close>

text \<open>Indexing a slice panics out of range; the remainder by zero panics too.\<close>

definition index :: "'a list \<Rightarrow> int \<Rightarrow> 'a outcome" where
  "index xs i = (if 0 \<le> i \<and> i < int (length xs) then Returns (xs ! nat i) else Panics)"

definition selectRoundRobin ::
  "string \<Rightarrow> Instance list \<Rightarrow> LoadBalancer \<Rightarrow> Instance outcome \<times> LoadBalancer" where
  "selectRoundRobin name instances lb =
     (let (idx, lb1) = getRoundRobinIdx name lb;
          n = idx + 1;
          lb2 = lb1\<lparr>roundRobinIdx := gm_set name n (roundRobinIdx lb1)\<rparr>
      in (if length instances = 0 then Panics
          else index instances (sint (abs64 n) smod int (length instances)), lb2))"

text \<open>The loop of \<^verbatim>\<open>selectLeastConnections\<close> with its variables \<^verbatim>\<open>best\<close> and \<^verbatim>\<open>bestCount\<close>.\<close>

fun leastLoop ::
  "Instance list \<Rightarrow> Instance option \<Rightarrow> int \<Rightarrow> (string, int64) gomap
     \<Rightarrow> Instance option \<times> (string, int64) gomap" where
  "leastLoop [] best bestCount counts = (best, counts)"
| "leastLoop (inst # rest) best bestCount counts =
     (let (c, counts') = getOrCreateCounter (ServiceID inst) counts; v = sint c
      in if bestCount < 0 \<or> v < bestCount then leastLoop rest (Some inst) v counts'
         else leastLoop rest best bestCount counts')"

definition selectLeastConnections ::
  "string \<Rightarrow> Instance list \<Rightarrow> LoadBalancer \<Rightarrow> Instance option \<times> LoadBalancer" where
  "selectLeastConnections name instances lb =
     (let (counts, lb1) = getConnectionCounts name lb;
          (best, counts1) = leastLoop instances None (- 1) counts;
          counts2 = (case best of
                       None \<Rightarrow> counts1
                     | Some b \<Rightarrow> (let (c, counts') = getOrCreateCounter (ServiceID b) counts1
                                 in gm_set (ServiceID b) (c + 1) counts'))
      in (best, lb1\<lparr>connectionCount := gm_set name counts2 (connectionCount lb1)\<rparr>))"

definition weight :: "Instance \<Rightarrow> int" where
  "weight inst =
     (case gm_get (Metadata inst) ''weight'' of
        None \<Rightarrow> 1
      | Some w \<Rightarrow> (case Atoi w of
                    Some parsed \<Rightarrow> if 0 < parsed then parsed else 1
                  | None \<Rightarrow> 1))"

definition expandWeights :: "Instance list \<Rightarrow> Instance list" where
  "expandWeights instances = concat (map (\<lambda>inst. replicate (nat (weight inst)) inst) instances)"

definition selectWeightedRoundRobin ::
  "string \<Rightarrow> Instance list \<Rightarrow> LoadBalancer \<Rightarrow> Instance outcome \<times> LoadBalancer" where
  "selectWeightedRoundRobin name instances lb =
     selectRoundRobin (name @ ''-weighted'') (expandWeights instances) lb"

text \<open>The two random sources: \<^verbatim>\<open>rand.IntN(n)\<close> is \<open>r mod n\<close> for a draw \<open>r\<close>, and \<^verbatim>\<open>rand.Int64()\<close>
  the low 63 bits of the draw.\<close>

definition hashKey :: "Context \<Rightarrow> nat \<Rightarrow> string" where
  "hashKey ctx r =
     (let key = SessionID ctx;
          key = (if key = [] then gm_get_or [] (Headers ctx) ''X-Correlation-ID'' else key)
      in if key = [] then FormatInt (int (r mod 2 ^ 63)) 16 else key)"

definition selectIPHash :: "Instance list \<Rightarrow> Context \<Rightarrow> nat \<Rightarrow> Instance outcome" where
  "selectIPHash instances ctx r =
     (let h = fnv1a (hashKey ctx r);
          len = (of_nat (length instances) :: uint32)
      in if len = 0 then Panics else index instances (uint (h mod len)))"

definition selectRandom :: "Instance list \<Rightarrow> nat \<Rightarrow> Instance outcome" where
  "selectRandom instances r =
     (if length instances = 0 then Panics else index instances (int (r mod length instances)))"

text \<open>The candidates: the healthy instances, else those whose health is known.\<close>

definition candidates :: "Instance list \<Rightarrow> Instance list" where
  "candidates instances =
     (let healthy = filterHealthy instances
      in if length healthy = 0 then filterNonUnknown instances else healthy)"

fun ptr :: "'a outcome \<Rightarrow> 'a option outcome" where
  "ptr Panics = Panics"
| "ptr (Returns x) = Returns (Some x)"

definition selectBy ::
  "Strategy \<Rightarrow> string \<Rightarrow> Instance list \<Rightarrow> Context \<Rightarrow> nat \<Rightarrow> LoadBalancer
     \<Rightarrow> Instance option outcome \<times> LoadBalancer" where
  "selectBy strategy name cs ctx r lb =
     (case strategy of
        LeastConnections \<Rightarrow> (let (b, lb') = selectLeastConnections name cs lb in (Returns b, lb'))
      | WeightedRoundRobin \<Rightarrow> (let (b, lb') = selectWeightedRoundRobin name cs lb in (ptr b, lb'))
      | IPHash \<Rightarrow> (ptr (selectIPHash cs ctx r), lb)
      | Random \<Rightarrow> (ptr (selectRandom cs r), lb)
      | RoundRobin \<Rightarrow> (let (b, lb') = selectRoundRobin name cs lb in (ptr b, lb')))"

definition Select ::
  "unicode_tables \<Rightarrow> (string \<Rightarrow> error + Instance list) \<Rightarrow> string \<Rightarrow> Context \<Rightarrow> nat \<Rightarrow> LoadBalancer
     \<Rightarrow> (error + Instance option) outcome \<times> LoadBalancer" where
  "Select u provider name ctx r lb =
     (case provider name of
        Inl err \<Rightarrow> (Returns (Inl err), lb)
      | Inr instances \<Rightarrow>
          (let cs = candidates instances
           in if length cs = 0 then (Returns (Inr None), lb)
              else (case selectBy (resolveStrategy u cs) name cs ctx r lb of
                      (Panics, lb') \<Rightarrow> (Panics, lb')
                    | (Returns None, lb') \<Rightarrow> (Returns (Inr None), lb')
                    | (Returns (Some inst), lb') \<Rightarrow>
                        (Returns (Inr (Some inst)), recordRequest name inst lb'))))"

section \<open>Feedback and statistics\<close>

definition releaseConnection :: "string \<Rightarrow> (string, int64) gomap \<Rightarrow> (string, int64) gomap" where
  "releaseConnection serviceID counts =
     (case gm_get counts serviceID of
        None \<Rightarrow> counts
      | Some c \<Rightarrow> if 0 < sint c then gm_set serviceID (c - 1) counts else counts)"

definition ReportResult :: "string \<Rightarrow> RequestResult \<Rightarrow> LoadBalancer \<Rightarrow> LoadBalancer" where
  "ReportResult serviceID result lb =
     (let lb1 = lb\<lparr>connectionCount := gm_map (releaseConnection serviceID) (connectionCount lb)\<rparr>
      in case gm_get (stats lb1) serviceID of
           None \<Rightarrow> lb1
         | Some s \<Rightarrow> lb1\<lparr>stats := gm_set serviceID (serviceStats_report result s) (stats lb1)\<rparr>)"

definition addCounts :: "(string, int64) gomap \<Rightarrow> (string, int64) gomap \<Rightarrow> (string, int64) gomap" where
  "addCounts counts acc =
     fold (\<lambda>e acc. gm_set (fst e) (gm_get_or 0 acc (fst e) + snd e) acc) counts acc"

definition LoadBalancer_Stats :: "string \<Rightarrow> LoadBalancer \<Rightarrow> Stats" where
  "LoadBalancer_Stats name lb =
     (let ss = filter (\<lambda>s. serviceName s = name) (gm_values (stats lb));
          totalReq = sum_list (map totalRequests ss);
          totalTicks = sum_list (map totalResponseNanos ss)
      in \<lparr>st_ServiceName = name,
          TotalRequests = totalReq,
          SuccessfulRequests = sum_list (map successfulRequests ss),
          FailedRequests = sum_list (map failedRequests ss),
          AverageResponseTime =
            (if 0 < sint totalReq then sint totalTicks sdiv sint totalReq else 0),
          InstanceRequestCounts = fold (\<lambda>s acc. addCounts (instanceCounts s) acc) ss []\<rparr>)"

section \<open>Candidates and indices\<close>

lemma index_in_range: "xs \<noteq> [] \<Longrightarrow> index xs (int (i mod length xs)) = Returns (xs ! (i mod length xs))"
  by (simp add: index_def)

lemma abs64_nonneg: "0 \<le> sint (abs64 n)"
  by (auto simp: abs64_def sint_of_int64 sint_uminus64 int_range_defs)

lemma abs64_pos: "0 \<le> sint n \<Longrightarrow> abs64 n = n"
  by (auto simp: abs64_def int_range_defs)

lemma smod_nonneg: "0 \<le> a \<Longrightarrow> 0 < b \<Longrightarrow> a smod b = a mod (b :: int)"
  by (cases "a = 0") (simp_all add: signed_modulo_int_def)

text \<open>Whatever the counter holds, also after it has wrapped around, the index is in range.\<close>

lemma round_robin_index:
  assumes "xs \<noteq> []"
  shows "index xs (sint (abs64 n) smod int (length xs)) =
    Returns (xs ! nat (sint (abs64 n) mod int (length xs)))"
  using assms abs64_nonneg [of n] smod_nonneg [of "sint (abs64 n)" "int (length xs)"]
  by (simp add: index_def)

lemma index_ok: "0 \<le> i \<Longrightarrow> i < int (length xs) \<Longrightarrow> \<exists>b. index xs i = Returns b \<and> b \<in> set xs"
  by (simp add: index_def nat_less_iff)

lemma index_Returns: "index xs i = Returns x \<Longrightarrow> x \<in> set xs"
  by (auto simp: index_def split: if_splits)

lemma weight_pos [simp]: "0 < weight inst"
  by (auto simp: weight_def split: option.splits)

lemma expandWeights_Nil [simp]: "expandWeights xs = [] \<longleftrightarrow> xs = []"
  by (cases xs) (auto simp: expandWeights_def not_le)

lemma set_expandWeights [simp]: "set (expandWeights xs) = set xs"
  by (induction xs) (auto simp: expandWeights_def not_le)

lemma candidates_subset: "set (candidates xs) \<subseteq> set xs"
  by (auto simp: candidates_def filterHealthy_def filterNonUnknown_def Let_def)

lemma candidates_status:
  "inst \<in> set (candidates xs) \<Longrightarrow>
   (if \<exists>i \<in> set xs. Status i = HealthHealthy then Status inst = HealthHealthy
    else Status inst \<noteq> HealthUnknown)"
  by (auto simp: candidates_def filterHealthy_def filterNonUnknown_def Let_def filter_empty_conv
      split: if_splits)

lemma candidates_Nil: "candidates xs = [] \<longleftrightarrow> (\<forall>i \<in> set xs. Status i = HealthUnknown)"
  by (auto simp: candidates_def filterHealthy_def filterNonUnknown_def Let_def filter_empty_conv)

section \<open>Lookup-or-insert\<close>

interpretation rr_idx: get_or_create "\<lambda>lb. gm_get (roundRobinIdx lb)" getRoundRobinIdx "\<lambda>_. 0"
  by unfold_locales (auto simp: getRoundRobinIdx_def gm_simps split: option.splits)

interpretation conn: get_or_create "\<lambda>lb. gm_get (connectionCount lb)" getConnectionCounts "\<lambda>_. []"
  by unfold_locales (auto simp: getConnectionCounts_def gm_simps split: option.splits)

interpretation ctr: get_or_create gm_get getOrCreateCounter "\<lambda>_. 0"
  by unfold_locales (auto simp: getOrCreateCounter_def gm_simps split: option.splits)

interpretation svc_stats: get_or_create "\<lambda>lb. gm_get (stats lb)" "getServiceStats name"
    "\<lambda>_. newServiceStats name" for name
  by unfold_locales (auto simp: getServiceStats_def gm_simps split: option.splits)

section \<open>Round robin\<close>

definition rr_counter :: "LoadBalancer \<Rightarrow> string \<Rightarrow> int64" where
  "rr_counter lb key = gm_get_or 0 (roundRobinIdx lb) key"

lemma selectRoundRobin_result:
  "xs \<noteq> [] \<Longrightarrow> fst (selectRoundRobin key xs lb) =
     Returns (xs ! nat (sint (abs64 (rr_counter lb key + 1)) mod int (length xs)))"
  using rr_idx.goc_val [of key lb]
  by (auto simp: selectRoundRobin_def rr_counter_def gm_get_or_def round_robin_index Let_def
      split: prod.splits option.splits)

lemma selectRoundRobin_counter:
  "rr_counter (snd (selectRoundRobin key xs lb)) k =
     (if k = key then rr_counter lb key + 1 else rr_counter lb k)"
  using rr_idx.goc_val [of key lb] rr_idx.goc_other [of k key lb]
  by (auto simp: selectRoundRobin_def rr_counter_def gm_get_or_def gm_simps Let_def
      split: prod.splits option.splits)

lemma selectRoundRobin_frame [simp]:
  "connectionCount (snd (selectRoundRobin key xs lb)) = connectionCount lb"
  "stats (snd (selectRoundRobin key xs lb)) = stats lb"
  by (auto simp: selectRoundRobin_def getRoundRobinIdx_def Let_def split: prod.splits option.splits)

lemma selectLeastConnections_frame [simp]:
  "roundRobinIdx (snd (selectLeastConnections name xs lb)) = roundRobinIdx lb"
  "stats (snd (selectLeastConnections name xs lb)) = stats lb"
  by (auto simp: selectLeastConnections_def getConnectionCounts_def Let_def
      split: prod.splits option.splits)

lemma recordRequest_frame [simp]:
  "roundRobinIdx (recordRequest name inst lb) = roundRobinIdx lb"
  "connectionCount (recordRequest name inst lb) = connectionCount lb"
  by (auto simp: recordRequest_def getServiceStats_def split: prod.splits option.splits)

lemma ReportResult_frame [simp]: "roundRobinIdx (ReportResult i r lb) = roundRobinIdx lb"
  by (auto simp: ReportResult_def Let_def split: option.splits)

section \<open>Least connections\<close>

definition conn_count :: "(string, int64) gomap \<Rightarrow> string \<Rightarrow> int" where
  "conn_count counts serviceID = sint (gm_get_or 0 counts serviceID)"

definition counts_nonneg :: "(string, int64) gomap \<Rightarrow> bool" where
  "counts_nonneg counts \<longleftrightarrow> (\<forall>k. 0 \<le> conn_count counts k)"

lemma getOrCreateCounter_count:
  assumes "getOrCreateCounter k counts = (c, counts')"
  shows "sint c = conn_count counts k" and "conn_count counts' j = conn_count counts j"
  using assms
  by (auto simp: getOrCreateCounter_def conn_count_def gm_get_or_def gm_simps
      split: option.splits if_splits)

lemma leastLoop_counts: "conn_count (snd (leastLoop xs best n counts)) j = conn_count counts j"
proof (induction xs arbitrary: best n counts)
  case (Cons x xs)
  obtain c counts' where g: "getOrCreateCounter (ServiceID x) counts = (c, counts')"
    by fastforce
  with Cons show ?case using getOrCreateCounter_count(2) [OF g] by (auto simp: Let_def)
qed simp

lemma leastLoop_best:
  assumes "counts_nonneg counts"
  shows "best = Some b \<Longrightarrow> n = conn_count counts (ServiceID b) \<Longrightarrow>
    \<exists>b'. fst (leastLoop xs best n counts) = Some b' \<and> b' \<in> set (b # xs) \<and>
      (\<forall>i \<in> set (b # xs). conn_count counts (ServiceID b') \<le> conn_count counts (ServiceID i))"
  using assms
proof (induction xs arbitrary: best b n counts)
  case Nil
  then show ?case by simp
next
  case (Cons x xs)
  obtain c counts' where g: "getOrCreateCounter (ServiceID x) counts = (c, counts')"
    by fastforce
  have c: "sint c = conn_count counts (ServiceID x)" "\<And>j. conn_count counts' j = conn_count counts j"
    using getOrCreateCounter_count [OF g] by auto
  have nn: "counts_nonneg counts'" "\<not> n < 0"
    using Cons.prems c by (simp_all add: counts_nonneg_def not_less)
  show ?case
  proof (cases "sint c < n")
    case True
    with Cons.IH [of "Some x" x "sint c" counts'] nn g c Cons.prems show ?thesis
      by (fastforce simp: Let_def)
  next
    case False
    with Cons.IH [of "Some b" b n counts'] nn g c Cons.prems show ?thesis
      by (fastforce simp: Let_def)
  qed
qed

lemma leastLoop_start:
  assumes "counts_nonneg counts" and "xs \<noteq> []"
  shows "\<exists>b. fst (leastLoop xs None (- 1) counts) = Some b \<and> b \<in> set xs \<and>
    (\<forall>i \<in> set xs. conn_count counts (ServiceID b) \<le> conn_count counts (ServiceID i))"
proof -
  obtain x ys where xs: "xs = x # ys" using assms(2) by (cases xs) auto
  obtain c counts' where g: "getOrCreateCounter (ServiceID x) counts = (c, counts')"
    by fastforce
  have c: "sint c = conn_count counts (ServiceID x)" "\<And>j. conn_count counts' j = conn_count counts j"
    using getOrCreateCounter_count [OF g] by auto
  then have "counts_nonneg counts'" using assms(1) by (simp add: counts_nonneg_def)
  from leastLoop_best [OF this, of "Some x" x "sint c" ys] show ?thesis
    using xs g c by (simp add: Let_def)
qed

section \<open>Executions\<close>

datatype lb_op = LbSelect string Context nat | LbReport string RequestResult

type_synonym provider = "string \<Rightarrow> error + Instance list"

fun lb_step :: "unicode_tables \<Rightarrow> provider \<Rightarrow> lb_op \<Rightarrow> LoadBalancer \<Rightarrow> LoadBalancer" where
  "lb_step u p (LbSelect n ctx r) lb = snd (Select u p n ctx r lb)"
| "lb_step u p (LbReport i res) lb = ReportResult i res lb"

text \<open>A history: each call with what the provider answers while it runs.\<close>

fun lb_run :: "unicode_tables \<Rightarrow> (provider \<times> lb_op) list \<Rightarrow> LoadBalancer \<Rightarrow> LoadBalancer" where
  "lb_run u [] lb = lb"
| "lb_run u ((p, x) # xs) lb = lb_run u xs (lb_step u p x lb)"

text \<open>The results of the selections made for one service, in order.\<close>

fun lb_picks :: "unicode_tables \<Rightarrow> provider \<Rightarrow> string \<Rightarrow> lb_op list \<Rightarrow> LoadBalancer
    \<Rightarrow> (error + Instance option) outcome list" where
  "lb_picks u p name [] lb = []"
| "lb_picks u p name (x # xs) lb =
     (case x of
        LbSelect n ctx r \<Rightarrow> (if n = name then [fst (Select u p n ctx r lb)] else [])
      | LbReport i res \<Rightarrow> [])
     @ lb_picks u p name xs (lb_step u p x lb)"

text \<open>The counter that a service's rotation uses, and the list it rotates through.\<close>

definition rotation :: "Strategy \<Rightarrow> string \<Rightarrow> Instance list \<Rightarrow> string \<times> Instance list" where
  "rotation s name cs =
     (if s = WeightedRoundRobin then (name @ ''-weighted'', expandWeights cs) else (name, cs))"

text \<open>No other service of the execution uses the counter.\<close>

definition counter_private :: "string \<Rightarrow> string \<Rightarrow> lb_op list \<Rightarrow> bool" where
  "counter_private name key ops \<longleftrightarrow>
     list_all (\<lambda>x. case x of
        LbSelect n ctx r \<Rightarrow> n = name \<or> (n \<noteq> key \<and> n @ ''-weighted'' \<noteq> key)
      | LbReport i res \<Rightarrow> True) ops"

fun lb_selects :: "string \<Rightarrow> lb_op list \<Rightarrow> nat" where
  "lb_selects name [] = 0"
| "lb_selects name (LbSelect n ctx r # xs) = (if n = name then 1 else 0) + lb_selects name xs"
| "lb_selects name (LbReport i res # xs) = lb_selects name xs"

lemma rr_counter_cong: "roundRobinIdx lb = roundRobinIdx lb' \<Longrightarrow> rr_counter lb = rr_counter lb'"
  by (simp add: rr_counter_def fun_eq_iff)

lemma rr_counter_frames [simp]:
  "rr_counter (snd (selectLeastConnections n cs lb)) = rr_counter lb"
  "rr_counter (recordRequest n inst lb) = rr_counter lb"
  "rr_counter (ReportResult i res lb) = rr_counter lb"
  by (rule rr_counter_cong; simp)+

lemma selectBy_counter_frame:
  "key \<noteq> n \<Longrightarrow> key \<noteq> n @ ''-weighted'' \<Longrightarrow>
   rr_counter (snd (selectBy s n cs ctx r lb)) key = rr_counter lb key"
  by (cases s) (simp_all add: selectBy_def selectWeightedRoundRobin_def split_beta
      selectRoundRobin_counter)

text \<open>What \<^verbatim>\<open>Select\<close> does with the balancer's state, in terms of the strategy's own step.\<close>

lemma Select_state:
  "snd (Select u p n ctx r lb) =
     (case p n of
        Inl e \<Rightarrow> lb
      | Inr xs \<Rightarrow>
          if candidates xs = [] then lb
          else (let (res, lb') = selectBy (resolveStrategy u (candidates xs)) n (candidates xs) ctx r lb
                in case res of Returns (Some inst) \<Rightarrow> recordRequest n inst lb' | _ \<Rightarrow> lb'))"
  by (auto simp: Select_def Let_def split: sum.splits prod.splits outcome.splits option.splits)

lemma Select_counter_frame:
  "key \<noteq> n \<Longrightarrow> key \<noteq> n @ ''-weighted'' \<Longrightarrow>
   rr_counter (snd (Select u p n ctx r lb)) key = rr_counter lb key"
  using selectBy_counter_frame [of key n]
  by (auto simp: Select_state split_beta Let_def split: sum.splits outcome.splits option.splits)

lemma Select_rotation:
  assumes "p name = Inr xs" and "candidates xs \<noteq> []"
    and "resolveStrategy u (candidates xs) = s" and "s = RoundRobin \<or> s = WeightedRoundRobin"
    and "rotation s name (candidates xs) = (key, ys)"
  shows "fst (Select u p name ctx r lb) =
      Returns (Inr (Some (ys ! nat (sint (abs64 (rr_counter lb key + 1)) mod int (length ys)))))"
    and "rr_counter (snd (Select u p name ctx r lb)) key = rr_counter lb key + 1"
proof -
  have ys: "ys \<noteq> []" using assms(2,5) by (auto simp: rotation_def split: if_splits)
  let ?lb = "snd (selectRoundRobin key ys lb)"
  let ?inst = "ys ! nat (sint (abs64 (rr_counter lb key + 1)) mod int (length ys))"
  have "selectBy s name (candidates xs) ctx r lb = (Returns (Some ?inst), ?lb)"
    using assms(4,5) selectRoundRobin_result [OF ys, of key lb]
    by (auto simp: selectBy_def rotation_def selectWeightedRoundRobin_def split_beta)
  then show "fst (Select u p name ctx r lb) = Returns (Inr (Some ?inst))"
    and "rr_counter (snd (Select u p name ctx r lb)) key = rr_counter lb key + 1"
    using assms(1-3) by (simp_all add: Select_def Let_def selectRoundRobin_counter)
qed

lemma rotation_picks:
  assumes "p name = Inr xs" and "candidates xs \<noteq> []"
    and "resolveStrategy u (candidates xs) = s" and "s = RoundRobin \<or> s = WeightedRoundRobin"
    and "rotation s name (candidates xs) = (key, ys)"
  shows "counter_private name key ops \<Longrightarrow> sint (rr_counter lb key) = int c \<Longrightarrow>
    int (c + lb_selects name ops) \<le> maxInt64 \<Longrightarrow>
    lb_picks u p name ops lb =
      map (\<lambda>j. Returns (Inr (Some (ys ! ((Suc c + j) mod length ys))))) [0..<lb_selects name ops]"
proof (induction ops arbitrary: lb c)
  case Nil
  then show ?case by simp
next
  case (Cons x ops)
  show ?case
  proof (cases x)
    case (LbReport i res)
    with Cons show ?thesis by (simp add: counter_private_def)
  next
    case (LbSelect n ctx r)
    show ?thesis
    proof (cases "n = name")
      case False
      then have "rr_counter (snd (Select u p n ctx r lb)) key = rr_counter lb key"
        using Cons.prems(1) LbSelect by (intro Select_counter_frame) (auto simp: counter_private_def)
      with False LbSelect Cons show ?thesis by (simp add: counter_private_def)
    next
      case True
      let ?lb = "snd (Select u p name ctx r lb)"
      note sel = Select_rotation [where p = p and name = name, OF assms, of ctx r lb]
      have c: "sint (rr_counter lb key + 1) = int (Suc c)"
        using Cons.prems(2,3) True LbSelect by (subst sint_Suc64) auto
      have "lb_picks u p name ops ?lb =
          map (\<lambda>j. Returns (Inr (Some (ys ! ((Suc (Suc c) + j) mod length ys))))) [0..<lb_selects name ops]"
        using Cons.IH [of ?lb "Suc c"] Cons.prems(1,3) sel(2) c True LbSelect
        by (simp add: counter_private_def)
      moreover have "fst (Select u p name ctx r lb) = Returns (Inr (Some (ys ! (Suc c mod length ys))))"
        using sel(1) c by (simp add: abs64_pos nat_int_mod del: of_nat_Suc)
      ultimately show ?thesis
        using True LbSelect by (simp add: upt_conv_Cons map_Suc_upt [symmetric] comp_def del: upt_Suc)
    qed
  qed
qed

lemma mset_expandWeights:
  "mset (expandWeights xs) = (\<Sum>x \<leftarrow> xs. replicate_mset (nat (weight x)) x)"
  by (induction xs) (auto simp: expandWeights_def)

section \<open>Connection counts over an execution\<close>

text \<open>All connection counts of a service lie between 0 and \<open>k\<close>.\<close>

definition counts_within :: "int \<Rightarrow> (string, int64) gomap \<Rightarrow> bool" where
  "counts_within k counts \<longleftrightarrow> (\<forall>j. 0 \<le> conn_count counts j \<and> conn_count counts j \<le> k)"

definition lb_counts :: "LoadBalancer \<Rightarrow> string \<Rightarrow> (string, int64) gomap" where
  "lb_counts lb name = gm_get_or [] (connectionCount lb) name"

definition lb_inv :: "int \<Rightarrow> LoadBalancer \<Rightarrow> bool" where
  "lb_inv k lb \<longleftrightarrow> (\<forall>name. counts_within k (lb_counts lb name))"

lemma conn_count_set:
  "conn_count (gm_set k v counts) j = (if j = k then sint v else conn_count counts j)"
  by (simp add: conn_count_def gm_get_or_def gm_simps)

lemma conn_count_Nil [simp]: "conn_count [] j = 0"
  by (simp add: conn_count_def gm_get_or_def)

text \<open>A report takes one connection off, but not below zero.\<close>

lemma releaseConnection_count:
  "conn_count (releaseConnection i counts) j =
     (if j = i \<and> 0 < conn_count counts i then conn_count counts i - 1 else conn_count counts j)"
proof (cases "gm_get counts i")
  case None
  then have "conn_count counts i = 0" by (simp add: conn_count_def gm_get_or_def)
  with None show ?thesis by (simp add: releaseConnection_def)
next
  case (Some c)
  then have c: "conn_count counts i = sint c" by (simp add: conn_count_def gm_get_or_def)
  have "0 < sint c \<Longrightarrow> sint (c - 1) = sint c - 1" by (intro sint_pred64) (simp add: int_range_defs)
  with Some c show ?thesis by (simp add: releaseConnection_def conn_count_set)
qed

lemma counts_within_release: "counts_within k counts \<Longrightarrow> counts_within k (releaseConnection i counts)"
  unfolding counts_within_def
proof
  fix j
  assume "\<forall>j. 0 \<le> conn_count counts j \<and> conn_count counts j \<le> k"
  then have "0 \<le> conn_count counts j \<and> conn_count counts j \<le> k" and "conn_count counts i \<le> k"
    by simp_all
  then show "0 \<le> conn_count (releaseConnection i counts) j \<and>
      conn_count (releaseConnection i counts) j \<le> k"
    by (simp add: releaseConnection_count)
qed

lemma lb_counts_ReportResult:
  "lb_counts (ReportResult i res lb) name = releaseConnection i (lb_counts lb name)"
proof -
  have "releaseConnection i [] = []" by (simp add: releaseConnection_def)
  then show ?thesis
    by (auto simp: lb_counts_def ReportResult_def gm_get_or_def gm_simps Let_def split: option.splits)
qed

lemma lb_counts_cong: "connectionCount lb = connectionCount lb' \<Longrightarrow> lb_counts lb = lb_counts lb'"
  by (simp add: lb_counts_def fun_eq_iff)

lemma selectLeastConnections_best:
  "fst (selectLeastConnections name cs lb) = fst (leastLoop cs None (- 1) (lb_counts lb name))"
  using conn.goc_val [of name lb]
  by (auto simp: selectLeastConnections_def lb_counts_def gm_get_or_def split_beta Let_def
      split: option.splits)

lemma selectLeastConnections_counts:
  assumes "\<And>b. fst (selectLeastConnections name cs lb) = Some b \<Longrightarrow>
      conn_count (lb_counts lb name) (ServiceID b) < maxInt64"
  shows "conn_count (lb_counts (snd (selectLeastConnections name cs lb)) n) j =
    conn_count (lb_counts lb n) j +
      (if n = name \<and> fst (selectLeastConnections name cs lb) \<noteq> None \<and>
          j = ServiceID (the (fst (selectLeastConnections name cs lb))) then 1 else 0)"
proof -
  obtain counts lb1 where g: "getConnectionCounts name lb = (counts, lb1)" by fastforce
  obtain best counts1 where l: "leastLoop cs None (- 1) counts = (best, counts1)" by fastforce
  have c: "counts = lb_counts lb name"
    using conn.goc_val [of name lb] g by (auto simp: lb_counts_def gm_get_or_def split: option.splits)
  have other: "n \<noteq> name \<Longrightarrow> gm_get (connectionCount lb1) n = gm_get (connectionCount lb) n"
    using conn.goc_other [of n name lb] g by simp
  have l1: "conn_count counts1 i = conn_count counts i" for i
    using leastLoop_counts [of cs None "- 1" counts i] l by simp
  have best: "fst (selectLeastConnections name cs lb) = best"
    by (simp add: selectLeastConnections_def g l Let_def)
  show ?thesis
  proof (cases best)
    case None
    then show ?thesis using other l1 c g l
      by (auto simp: selectLeastConnections_def lb_counts_def gm_get_or_def gm_simps)
  next
    case (Some b)
    obtain cc counts2 where gc: "getOrCreateCounter (ServiceID b) counts1 = (cc, counts2)" by fastforce
    have "sint (cc + 1) = conn_count counts (ServiceID b) + 1"
      using getOrCreateCounter_count(1) [OF gc] assms [of b] best Some l1 c
      by (subst sint_Suc64) auto
    then have "conn_count (gm_set (ServiceID b) (cc + 1) counts2) j =
        conn_count counts j + (if j = ServiceID b then 1 else 0)"
      using getOrCreateCounter_count(2) [OF gc] l1 by (simp add: conn_count_set)
    then show ?thesis using Some other c best g l gc
      by (auto simp: selectLeastConnections_def lb_counts_def gm_get_or_def gm_simps Let_def)
  qed
qed

lemma lb_inv_new: "lb_inv 0 NewLoadBalancer"
  by (simp add: lb_inv_def NewLoadBalancer_def lb_counts_def gm_get_or_def counts_within_def)

lemma lb_inv_mono: "lb_inv k lb \<Longrightarrow> k \<le> k' \<Longrightarrow> lb_inv k' lb"
  by (auto simp: lb_inv_def counts_within_def intro: order_trans)

lemma lb_inv_selectBy:
  assumes "lb_inv k lb" and "k < maxInt64"
  shows "lb_inv (k + 1) (snd (selectBy s n cs ctx r lb))"
proof (cases "s = LeastConnections")
  case False
  then have "connectionCount (snd (selectBy s n cs ctx r lb)) = connectionCount lb"
    by (cases s) (auto simp: selectBy_def selectWeightedRoundRobin_def split_beta)
  then have "lb_counts (snd (selectBy s n cs ctx r lb)) = lb_counts lb" by (rule lb_counts_cong)
  with lb_inv_mono [OF assms(1), of "k + 1"] show ?thesis by (simp add: lb_inv_def)
next
  case True
  have "conn_count (lb_counts lb m) j \<le> k \<and> 0 \<le> conn_count (lb_counts lb m) j" for m j
    using assms(1) by (simp add: lb_inv_def counts_within_def)
  moreover have "conn_count (lb_counts lb n) i < maxInt64" for i
    using assms by (force simp: lb_inv_def counts_within_def intro: le_less_trans)
  ultimately show ?thesis
    using True by (simp add: selectBy_def split_beta lb_inv_def counts_within_def
        selectLeastConnections_counts add_nonneg_nonneg add_mono)
qed

lemma lb_inv_step:
  assumes "lb_inv k lb" and "k < maxInt64"
  shows "lb_inv (k + 1) (lb_step u p x lb)"
proof (cases x)
  case (LbSelect n ctx r)
  have sel: "lb_inv (k + 1) (snd (selectBy s n cs ctx r lb))" for s cs
    using assms by (rule lb_inv_selectBy)
  have rec: "lb_inv j (recordRequest n inst lb') = lb_inv j lb'" for j inst lb'
    using lb_counts_cong [of "recordRequest n inst lb'" lb'] by (simp add: lb_inv_def)
  have "lb_inv (k + 1) lb" using assms(1) by (rule lb_inv_mono) simp
  then show ?thesis using LbSelect sel rec
    by (auto simp: Select_state split_beta Let_def split: sum.splits outcome.splits option.splits)
next
  case (LbReport i res)
  have "lb_inv k (ReportResult i res lb)"
    using assms(1) by (simp add: lb_inv_def lb_counts_ReportResult counts_within_release)
  then show ?thesis using LbReport lb_inv_mono by simp
qed

lemma lb_inv_run:
  "lb_inv k lb \<Longrightarrow> k + int (length ops) \<le> maxInt64 \<Longrightarrow>
   lb_inv (k + int (length ops)) (lb_run u ops lb)"
proof (induction ops arbitrary: k lb)
  case (Cons e ops)
  obtain p x where e: "e = (p, x)" by (cases e)
  have "lb_inv (k + 1) (lb_step u p x lb)" using Cons.prems by (intro lb_inv_step) auto
  with Cons show ?case using Cons.IH [of "k + 1" "lb_step u p x lb"] by (simp add: e add.assoc)
qed simp

section \<open>What can be selected\<close>

lemma leastLoop_member:
  "\<exists>b'. fst (leastLoop xs (Some b) n counts) = Some b' \<and> b' \<in> set (b # xs)"
proof (induction xs arbitrary: b n counts)
  case Nil
  then show ?case by simp
next
  case (Cons x xs)
  from Cons.IH [of x] Cons.IH [of b] show ?case
    by (fastforce simp: Let_def split_beta)
qed

lemma leastLoop_some:
  "xs \<noteq> [] \<Longrightarrow> \<exists>b. fst (leastLoop xs None (- 1) counts) = Some b \<and> b \<in> set xs"
  using leastLoop_member by (cases xs) (auto simp: Let_def split_beta)

lemma selectRoundRobin_member:
  "xs \<noteq> [] \<Longrightarrow> \<exists>b. fst (selectRoundRobin key xs lb) = Returns b \<and> b \<in> set xs"
  by (simp add: selectRoundRobin_result nat_less_iff)

lemma selectIPHash_member:
  assumes "xs \<noteq> []" and "length xs < 2 ^ 32"
  shows "\<exists>b. selectIPHash xs ctx r = Returns b \<and> b \<in> set xs"
proof -
  let ?len = "of_nat (length xs) :: uint32"
  have len: "uint ?len = int (length xs)" using assms(2)
    by (simp add: unsigned_of_nat take_bit_nat_eq_self)
  then have nz: "?len \<noteq> 0" using assms(1) by auto
  have "uint (fnv1a (hashKey ctx r) mod ?len) < int (length xs)"
    using len assms(1) by (simp add: uint_mod_distrib)
  with nz index_ok [of "uint (fnv1a (hashKey ctx r) mod ?len)" xs] show ?thesis
    by (simp add: selectIPHash_def Let_def)
qed

lemma selectBy_member:
  assumes "cs \<noteq> []" and "length cs < 2 ^ 32"
  shows "\<exists>b. fst (selectBy s name cs ctx r lb) = Returns (Some b) \<and> b \<in> set cs"
proof (cases s)
  case RoundRobin
  then show ?thesis using selectRoundRobin_member [OF assms(1), of name lb]
    by (auto simp: selectBy_def split_beta)
next
  case LeastConnections
  then show ?thesis using leastLoop_some [OF assms(1), of "lb_counts lb name"]
    by (auto simp: selectBy_def split_beta selectLeastConnections_best)
next
  case Random
  then show ?thesis using assms(1) index_in_range [of cs r]
    by (simp add: selectBy_def selectRandom_def)
next
  case WeightedRoundRobin
  then show ?thesis
    using selectRoundRobin_member [of "expandWeights cs" "name @ ''-weighted''" lb] assms(1)
    by (auto simp: selectBy_def selectWeightedRoundRobin_def split_beta)
next
  case IPHash
  then show ?thesis using selectIPHash_member [OF assms, of ctx r] by (auto simp: selectBy_def)
qed

section \<open>Statistics over an execution\<close>

text \<open>Which selections and reports of an execution belong to a service, when \<open>own\<close> says which
  service an instance belongs to.\<close>

definition picked :: "(error + Instance option) outcome \<Rightarrow> string option" where
  "picked res = (case res of Returns (Inr (Some inst)) \<Rightarrow> Some (ServiceID inst) | _ \<Rightarrow> None)"

fun lb_selected :: "unicode_tables \<Rightarrow> string \<Rightarrow> (provider \<times> lb_op) list \<Rightarrow> LoadBalancer \<Rightarrow> nat" where
  "lb_selected u name [] lb = 0"
| "lb_selected u name ((p, x) # xs) lb =
     (case x of
        LbSelect n ctx r \<Rightarrow>
          if n = name \<and> picked (fst (Select u p n ctx r lb)) \<noteq> None then 1 else 0
      | LbReport i res \<Rightarrow> 0)
     + lb_selected u name xs (lb_step u p x lb)"

fun lb_reported :: "unicode_tables \<Rightarrow> (string \<Rightarrow> string) \<Rightarrow> string \<Rightarrow> bool
    \<Rightarrow> (provider \<times> lb_op) list \<Rightarrow> LoadBalancer \<Rightarrow> nat" where
  "lb_reported u own name ok [] lb = 0"
| "lb_reported u own name ok ((p, x) # xs) lb =
     (case x of
        LbSelect n ctx r \<Rightarrow> 0
      | LbReport i res \<Rightarrow>
          if own i = name \<and> Success res = ok \<and> gm_get (stats lb) i \<noteq> None then 1 else 0)
     + lb_reported u own name ok xs (lb_step u p x lb)"

definition owned_stats :: "(string \<Rightarrow> string) \<Rightarrow> LoadBalancer \<Rightarrow> bool" where
  "owned_stats own lb \<longleftrightarrow> gm_wf (stats lb) \<and>
     (\<forall>i s. gm_get (stats lb) i = Some s \<longrightarrow> serviceName s = own i)"

definition stat_sum :: "(serviceStats \<Rightarrow> int64) \<Rightarrow> string \<Rightarrow> LoadBalancer \<Rightarrow> int64" where
  "stat_sum f name lb = gm_sum (\<lambda>s. if serviceName s = name then f s else 0) (stats lb)"

lemma Stats_sums:
  "TotalRequests (LoadBalancer_Stats name lb) = stat_sum totalRequests name lb"
  "SuccessfulRequests (LoadBalancer_Stats name lb) = stat_sum successfulRequests name lb"
  "FailedRequests (LoadBalancer_Stats name lb) = stat_sum failedRequests name lb"
  by (simp_all add: LoadBalancer_Stats_def stat_sum_def gm_sum_filter Let_def)

lemma recordRequest_stats:
  "stats (recordRequest n inst lb) =
     gm_set (ServiceID inst) (serviceStats_recordRequest (ServiceID inst)
       (case gm_get (stats lb) (ServiceID inst) of None \<Rightarrow> newServiceStats n | Some s \<Rightarrow> s))
       (stats (snd (getServiceStats n (ServiceID inst) lb)))"
  using svc_stats.goc_val [of n "ServiceID inst" lb] by (simp add: recordRequest_def split_beta)

lemma serviceName_simps [simp]:
  "serviceName (serviceStats_recordRequest i s) = serviceName s"
  "serviceName (newServiceStats n) = n"
  "serviceName (serviceStats_report res s) = serviceName s"
  by (simp_all add: serviceStats_recordRequest_def newServiceStats_def serviceStats_report_def Let_def)

lemma stat_sum_record:
  assumes "owned_stats own lb" and "own (ServiceID inst) = n"
    and "\<And>s. f (serviceStats_recordRequest (ServiceID inst) s) = f s + d"
    and "\<And>m. f (newServiceStats m) = 0"
  shows "stat_sum f name (recordRequest n inst lb) = stat_sum f name lb + (if n = name then d else 0)"
proof (cases "gm_get (stats lb) (ServiceID inst)")
  case None
  then show ?thesis using assms
    by (simp add: stat_sum_def recordRequest_stats getServiceStats_def gm_sum_set gm_simps
        owned_stats_def)
next
  case (Some s)
  then have "serviceName s = n" using assms(1,2) by (simp add: owned_stats_def)
  then show ?thesis using Some assms
    by (simp add: stat_sum_def recordRequest_stats getServiceStats_def gm_sum_set owned_stats_def)
qed

lemma owned_record:
  "owned_stats own lb \<Longrightarrow> own (ServiceID inst) = n \<Longrightarrow> owned_stats own (recordRequest n inst lb)"
  by (auto simp: owned_stats_def recordRequest_stats getServiceStats_def gm_simps
      split: option.splits if_splits)

lemma selectBy_stats [simp]: "stats (snd (selectBy s n cs ctx r lb)) = stats lb"
  by (cases s) (auto simp: selectBy_def selectWeightedRoundRobin_def split_beta)

lemma stat_sum_cong: "stats lb = stats lb' \<Longrightarrow> stat_sum f name lb = stat_sum f name lb'"
  by (simp add: stat_sum_def)

lemma owned_cong: "stats lb = stats lb' \<Longrightarrow> owned_stats own lb = owned_stats own lb'"
  by (simp add: owned_stats_def)

text \<open>The provider lists an instance under the service it belongs to only, and no list is
  longer than a 32-bit count.\<close>

definition provider_ok :: "(string \<Rightarrow> string) \<Rightarrow> provider \<Rightarrow> bool" where
  "provider_ok own p \<longleftrightarrow>
     (\<forall>n xs. p n = Inr xs \<longrightarrow> length xs < 2 ^ 32 \<and> (\<forall>i \<in> set xs. own (ServiceID i) = n))"

lemma length_candidates: "length (candidates xs) \<le> length xs"
  by (simp add: candidates_def filterHealthy_def filterNonUnknown_def Let_def)

text \<open>The three ways a selection can end.\<close>

lemma Select_cases:
  assumes "\<forall>xs. p n = Inr xs \<longrightarrow> length xs < 2 ^ 32"
  obtains
    (fails) e where "p n = Inl e" "Select u p n ctx r lb = (Returns (Inl e), lb)"
  | (nobody) xs where "p n = Inr xs" "\<forall>i \<in> set xs. Status i = HealthUnknown"
      "Select u p n ctx r lb = (Returns (Inr None), lb)"
  | (picks) xs inst lb' where "p n = Inr xs" "inst \<in> set (candidates xs)"
      "selectBy (resolveStrategy u (candidates xs)) n (candidates xs) ctx r lb = (Returns (Some inst), lb')"
      "Select u p n ctx r lb = (Returns (Inr (Some inst)), recordRequest n inst lb')"
proof (cases "p n")
  case (Inl e)
  then show ?thesis by (intro fails) (simp_all add: Select_def)
next
  case (Inr xs)
  show ?thesis
  proof (cases "candidates xs = []")
    case True
    then show ?thesis using Inr by (intro nobody [of xs]) (simp_all add: Select_def candidates_Nil)
  next
    case False
    have "length (candidates xs) < 2 ^ 32"
      using assms Inr le_less_trans [OF length_candidates] by blast
    from selectBy_member [OF False this, of "resolveStrategy u (candidates xs)" n ctx r lb]
    obtain inst where i: "inst \<in> set (candidates xs)"
      and f: "fst (selectBy (resolveStrategy u (candidates xs)) n (candidates xs) ctx r lb) = Returns (Some inst)"
      by auto
    then obtain lb' where
      "selectBy (resolveStrategy u (candidates xs)) n (candidates xs) ctx r lb = (Returns (Some inst), lb')"
      by (metis prod.collapse)
    then show ?thesis using i Inr False
      by (intro picks [of xs inst lb']) (simp_all add: Select_def Let_def)
  qed
qed

lemma stat_sum_report:
  assumes "owned_stats own lb"
  shows "stat_sum f name (ReportResult i res lb) = stat_sum f name lb +
    (case gm_get (stats lb) i of
       None \<Rightarrow> 0
     | Some s \<Rightarrow> if own i = name then f (serviceStats_report res s) - f s else 0)"
proof (cases "gm_get (stats lb) i")
  case None
  then show ?thesis by (simp add: stat_sum_def ReportResult_def Let_def)
next
  case (Some s)
  then have "serviceName s = own i" using assms by (simp add: owned_stats_def)
  then show ?thesis using Some assms
    by (simp add: stat_sum_def ReportResult_def gm_sum_set owned_stats_def Let_def)
qed

lemma owned_report: "owned_stats own lb \<Longrightarrow> owned_stats own (ReportResult i res lb)"
  by (auto simp: owned_stats_def ReportResult_def gm_simps Let_def split: option.splits if_splits)

lemma report_deltas:
  "totalRequests (serviceStats_report res s) = totalRequests s"
  "successfulRequests (serviceStats_report res s) = successfulRequests s + (if Success res then 1 else 0)"
  "failedRequests (serviceStats_report res s) = failedRequests s + (if Success res then 0 else 1)"
  by (simp_all add: serviceStats_report_def Let_def)

lemma record_deltas:
  "totalRequests (serviceStats_recordRequest i s) = totalRequests s + 1"
  "successfulRequests (serviceStats_recordRequest i s) = successfulRequests s + 0"
  "failedRequests (serviceStats_recordRequest i s) = failedRequests s + 0"
  "totalRequests (newServiceStats n) = 0" "successfulRequests (newServiceStats n) = 0"
  "failedRequests (newServiceStats n) = 0"
  by (simp_all add: serviceStats_recordRequest_def newServiceStats_def)

lemma provider_ok_length: "provider_ok own p \<Longrightarrow> \<forall>xs. p n = Inr xs \<longrightarrow> length xs < 2 ^ 32"
  by (simp add: provider_ok_def)

lemma stats_select_step:
  fixes u n ctx r
  assumes "provider_ok own p" and "owned_stats own lb"
  defines "lb' \<equiv> snd (Select u p n ctx r lb)"
  shows "owned_stats own lb' \<and>
    stat_sum totalRequests name lb' = stat_sum totalRequests name lb +
      (if n = name \<and> picked (fst (Select u p n ctx r lb)) \<noteq> None then 1 else 0) \<and>
    stat_sum successfulRequests name lb' = stat_sum successfulRequests name lb \<and>
    stat_sum failedRequests name lb' = stat_sum failedRequests name lb"
proof (cases rule: Select_cases [where p = p and n = n and u = u and ctx = ctx and r = r and lb = lb,
      OF provider_ok_length [OF assms(1)]])
  case (3 xs inst lb1)
  note picks = 3
  have own: "own (ServiceID inst) = n"
    using assms(1) picks(1,2) candidates_subset [of xs] by (auto simp: provider_ok_def)
  have st: "stats lb1 = stats lb" using selectBy_stats picks(3) by (metis snd_conv)
  then have o: "owned_stats own lb1" using assms(2) owned_cong by blast
  show ?thesis unfolding lb'_def
    using stat_sum_record [OF o own] record_deltas owned_record [OF o own]
      stat_sum_cong [OF st] picks(4) by (simp add: picked_def)
qed (use assms(2) in \<open>simp_all add: picked_def lb'_def\<close>)

lemma stats_run:
  "list_all (\<lambda>e. provider_ok own (fst e)) ops \<Longrightarrow> owned_stats own lb \<Longrightarrow>
    stat_sum totalRequests name (lb_run u ops lb) =
      stat_sum totalRequests name lb + of_nat (lb_selected u name ops lb) \<and>
    stat_sum successfulRequests name (lb_run u ops lb) =
      stat_sum successfulRequests name lb + of_nat (lb_reported u own name True ops lb) \<and>
    stat_sum failedRequests name (lb_run u ops lb) =
      stat_sum failedRequests name lb + of_nat (lb_reported u own name False ops lb)"
proof (induction ops arbitrary: lb)
  case Nil
  then show ?case by simp
next
  case (Cons e ops)
  obtain p x where e: "e = (p, x)" by (cases e)
  have p: "provider_ok own p" and ops: "list_all (\<lambda>e. provider_ok own (fst e)) ops" using Cons.prems(1) e by simp_all
  note IH = Cons.IH [OF ops]
  show ?case
  proof (cases x)
    case (LbSelect n ctx r)
    from stats_select_step [OF p Cons.prems(2), of u n ctx r name] show ?thesis
      using IH [of "snd (Select u p n ctx r lb)"] LbSelect
      by (cases "n = name") (simp_all add: e add.assoc)
  next
    case (LbReport i res)
    from IH [OF owned_report [OF Cons.prems(2), of i res]] show ?thesis
      using LbReport stat_sum_report [OF Cons.prems(2), of _ name i res] report_deltas
      by (auto simp: e add.assoc split: option.splits)
  qed
qed

lemma rotation_mset:
  assumes "p name = Inr xs" and "candidates xs \<noteq> []"
    and "resolveStrategy u (candidates xs) = s" and "s = RoundRobin \<or> s = WeightedRoundRobin"
    and "rotation s name (candidates xs) = (key, ys)"
    and "counter_private name key ops" and "0 \<le> sint (rr_counter lb key)"
    and "lb_selects name ops = m * length ys"
    and "sint (rr_counter lb key) + int (lb_selects name ops) \<le> maxInt64"
  shows "mset (lb_picks u p name ops lb) =
    repeat_mset m (image_mset (\<lambda>i. Returns (Inr (Some i))) (mset ys))"
proof -
  let ?c = "nat (sint (rr_counter lb key))"
  have "lb_picks u p name ops lb =
      map (\<lambda>j. Returns (Inr (Some (ys ! ((Suc ?c + j) mod length ys))))) [0..<m * length ys]"
    using rotation_picks [where p = p and name = name and c = ?c, OF assms(1-6)] assms(7-9) by simp
  then have "mset (lb_picks u p name ops lb) = image_mset (\<lambda>i. Returns (Inr (Some i)))
      (mset (map (\<lambda>j. ys ! ((Suc ?c + j) mod length ys)) [0..<m * length ys]))"
    by (simp add: image_mset.compositionality comp_def)
  then show ?thesis by (simp only: cyclic_rounds image_mset_repeat)
qed

section \<open>Properties\<close>

text \<open>Instances for the examples.\<close>

definition demo_instance :: "string \<Rightarrow> HealthStatus \<Rightarrow> metadata \<Rightarrow> Instance" where
  "demo_instance i st meta =
     \<lparr>ServiceName = ''api'', ServiceID = i, Address = ''10.0.0.1'', Port = 8080, Status = st,
      Metadata = meta, RegisteredAt = 0, LastHealthCheck = 0\<rparr>"

definition demo_tables :: unicode_tables where
  "demo_tables = \<lparr>uc_ToLower = id, uc_EqualFold = (=)\<rparr>"

definition demo_ctx :: "string \<Rightarrow> Context" where
  "demo_ctx sid = \<lparr>PreferredZone = [], Headers = [], SessionID = sid\<rparr>"

text \<open>C19: A selection never panics and never picks badly. Whatever the strategy, the counters
  and the random draw are, a selection among fewer than 2^32 listed instances returns one of them, a healthy
  one if there is any, and never one of unknown health; it returns nil, and changes nothing,
  exactly when the health of every instance is unknown.\<close>

theorem select_picks_usable:
  assumes "p name = Inr xs" and "length xs < 2 ^ 32"
  shows "if \<forall>i \<in> set xs. Status i = HealthUnknown
    then Select u p name ctx r lb = (Returns (Inr None), lb)
    else \<exists>inst \<in> set xs. fst (Select u p name ctx r lb) = Returns (Inr (Some inst)) \<and>
      (if \<exists>i \<in> set xs. Status i = HealthHealthy then Status inst = HealthHealthy
       else Status inst \<noteq> HealthUnknown)"
proof -
  have len: "\<forall>ys. p name = Inr ys \<longrightarrow> length ys < 2 ^ 32" using assms by simp
  show ?thesis
  proof (cases rule: Select_cases [where p = p and n = name and u = u and ctx = ctx and r = r
        and lb = lb, OF len])
    case (3 xs' inst lb')
    note picks = this
    then have "xs' = xs" "inst \<in> set xs" using assms(1) candidates_subset by auto
    with picks candidates_status [of inst xs] have
      "if \<exists>i \<in> set xs. Status i = HealthHealthy then Status inst = HealthHealthy
       else Status inst \<noteq> HealthUnknown" and "Status inst \<noteq> HealthUnknown"
      by (auto split: if_splits)
    with picks \<open>inst \<in> set xs\<close> show ?thesis by auto
  qed (use assms in auto)
qed

theorem select_picks_usable_witness:
  "fst (Select demo_tables
      (\<lambda>_. Inr [demo_instance ''u'' HealthUnhealthy [], demo_instance ''h'' HealthHealthy []])
      ''api'' (demo_ctx []) 7 NewLoadBalancer) =
   Returns (Inr (Some (demo_instance ''h'' HealthHealthy [])))"
  using select_picks_usable [of
      "\<lambda>_. Inr [demo_instance ''u'' HealthUnhealthy [], demo_instance ''h'' HealthHealthy []]"
      "''api''" "[demo_instance ''u'' HealthUnhealthy [], demo_instance ''h'' HealthHealthy []]"
      demo_tables "demo_ctx []" 7 NewLoadBalancer]
  by (auto simp: demo_instance_def)

text \<open>Round robin is fair. However the selections of one service are interleaved with
  reports and with selections of other services (which use other counters), after m rounds
  of as many selections as there are candidates every candidate has been selected exactly m
  times, as long as the 64-bit counter does not overflow.\<close>

theorem round_robin_fair:
  assumes "p name = Inr xs" and "candidates xs \<noteq> []"
    and "resolveStrategy u (candidates xs) = RoundRobin"
    and "counter_private name name ops" and "0 \<le> sint (rr_counter lb name)"
    and "lb_selects name ops = m * length (candidates xs)"
    and "sint (rr_counter lb name) + int (lb_selects name ops) \<le> maxInt64"
  shows "mset (lb_picks u p name ops lb) =
    repeat_mset m (image_mset (\<lambda>i. Returns (Inr (Some i))) (mset (candidates xs)))"
  using assms by (intro rotation_mset [of p name xs u RoundRobin name]) (auto simp: rotation_def)

theorem round_robin_fair_witness:
  "mset (lb_picks demo_tables
      (\<lambda>_. Inr [demo_instance ''a'' HealthHealthy [], demo_instance ''b'' HealthHealthy []]) ''api''
      [LbSelect ''api'' (demo_ctx []) 0, LbSelect ''web'' (demo_ctx []) 0,
       LbSelect ''api'' (demo_ctx []) 0] NewLoadBalancer) =
   {#Returns (Inr (Some (demo_instance ''a'' HealthHealthy []))),
     Returns (Inr (Some (demo_instance ''b'' HealthHealthy [])))#}"
  using round_robin_fair [of
      "\<lambda>_. Inr [demo_instance ''a'' HealthHealthy [], demo_instance ''b'' HealthHealthy []]" "''api''"
      "[demo_instance ''a'' HealthHealthy [], demo_instance ''b'' HealthHealthy []]" demo_tables
      "[LbSelect ''api'' (demo_ctx []) 0, LbSelect ''web'' (demo_ctx []) 0,
        LbSelect ''api'' (demo_ctx []) 0]" NewLoadBalancer 1]
  by (simp add: demo_instance_def candidates_def filterHealthy_def meta_nonempty_def gm_get_def
      counter_private_def rr_counter_def NewLoadBalancer_def gm_get_or_def maxInt64_def)

text \<open>Weighted round robin is proportional. After m rounds of as many selections as the
  weights of the candidates add up to, every candidate has been selected m times its weight:
  the positive integer in its metadata, or one.\<close>

theorem weighted_round_robin_proportional:
  assumes "p name = Inr xs" and "candidates xs \<noteq> []"
    and "resolveStrategy u (candidates xs) = WeightedRoundRobin"
    and "counter_private name (name @ ''-weighted'') ops"
    and "0 \<le> sint (rr_counter lb (name @ ''-weighted''))"
    and "lb_selects name ops = m * length (expandWeights (candidates xs))"
    and "sint (rr_counter lb (name @ ''-weighted'')) + int (lb_selects name ops) \<le> maxInt64"
  shows "mset (lb_picks u p name ops lb) =
    repeat_mset m (image_mset (\<lambda>i. Returns (Inr (Some i)))
      (\<Sum>i \<leftarrow> candidates xs. replicate_mset (nat (weight i)) i))"
  using rotation_mset [of p name xs u WeightedRoundRobin "name @ ''-weighted''"
      "expandWeights (candidates xs)" ops lb m] assms
  by (simp add: rotation_def mset_expandWeights)

theorem weighted_round_robin_proportional_witness:
  "mset (lb_picks demo_tables (\<lambda>_. Inr
      [demo_instance ''h'' HealthHealthy [(''lb_strategy'', ''Weighted_Round_Robin''), (''weight'', ''2'')],
       demo_instance ''l'' HealthHealthy []]) ''api''
      (replicate 3 (LbSelect ''api'' (demo_ctx []) 0)) NewLoadBalancer) =
   {#Returns (Inr (Some (demo_instance ''h'' HealthHealthy
        [(''lb_strategy'', ''Weighted_Round_Robin''), (''weight'', ''2'')]))),
     Returns (Inr (Some (demo_instance ''h'' HealthHealthy
        [(''lb_strategy'', ''Weighted_Round_Robin''), (''weight'', ''2'')]))),
     Returns (Inr (Some (demo_instance ''l'' HealthHealthy [])))#}"
proof -
  let ?h = "demo_instance ''h'' HealthHealthy [(''lb_strategy'', ''Weighted_Round_Robin''), (''weight'', ''2'')]"
  let ?l = "demo_instance ''l'' HealthHealthy []"
  have w: "weight ?h = 2" "weight ?l = 1"
    by (simp_all add: weight_def demo_instance_def gm_get_def Atoi_def Let_def byte_def int_range_defs)
  have c: "candidates [?h, ?l] = [?h, ?l]"
    by (simp add: demo_instance_def candidates_def filterHealthy_def)
  have s: "resolveStrategy demo_tables [?h, ?l] = WeightedRoundRobin"
    by (simp add: demo_instance_def meta_nonempty_def gm_get_def ParseStrategy_def ToLower_def
        is_ascii_def byte_def lower_char_def char_of_def bit_Suc_0_iff Let_def)
  have e: "length (expandWeights [?h, ?l]) = 3" by (simp add: expandWeights_def w)
  show ?thesis
    using weighted_round_robin_proportional [of "\<lambda>_. Inr [?h, ?l]" "''api''" "[?h, ?l]" demo_tables
        "replicate 3 (LbSelect ''api'' (demo_ctx []) 0)" NewLoadBalancer 1] c s e w
    by (simp add: counter_private_def rr_counter_def NewLoadBalancer_def gm_get_or_def maxInt64_def
        numeral_3_eq_3 numeral_2_eq_2)
qed

text \<open>C20: Least connections picks, in every state that fewer than the maximum 64-bit number of calls can
  lead to, a candidate whose open connections are fewest among the candidates, and counts the new
  connection. The calls are selections for any services and reports, one after the other, and the
  provider may give another answer, or an error, at each of them.\<close>

theorem least_connections_minimal:
  assumes "int (length ops) < maxInt64" and "lb = lb_run u ops NewLoadBalancer"
    and "p name = Inr xs" and "candidates xs \<noteq> []"
    and "resolveStrategy u (candidates xs) = LeastConnections"
  shows "\<exists>b \<in> set (candidates xs). fst (Select u p name ctx r lb) = Returns (Inr (Some b)) \<and>
    (\<forall>i \<in> set (candidates xs).
       conn_count (lb_counts lb name) (ServiceID b) \<le> conn_count (lb_counts lb name) (ServiceID i)) \<and>
    conn_count (lb_counts (snd (Select u p name ctx r lb)) name) (ServiceID b) =
      conn_count (lb_counts lb name) (ServiceID b) + 1"
proof -
  have inv: "lb_inv (int (length ops)) lb"
    using lb_inv_run [OF lb_inv_new, of ops u] assms(1,2) by simp
  then have nn: "counts_nonneg (lb_counts lb name)"
    by (simp add: lb_inv_def counts_within_def counts_nonneg_def)
  obtain b where b: "fst (leastLoop (candidates xs) None (- 1) (lb_counts lb name)) = Some b"
      "b \<in> set (candidates xs)"
      "\<forall>i \<in> set (candidates xs). conn_count (lb_counts lb name) (ServiceID b)
         \<le> conn_count (lb_counts lb name) (ServiceID i)"
    using leastLoop_start [OF nn assms(4)] by blast
  have best: "fst (selectLeastConnections name (candidates xs) lb) = Some b"
    using b(1) by (simp add: selectLeastConnections_best)
  have lt: "conn_count (lb_counts lb name) (ServiceID b) < maxInt64"
    using inv assms(1) by (force simp: lb_inv_def counts_within_def intro: le_less_trans)
  have sel: "Select u p name ctx r lb =
      (Returns (Inr (Some b)), recordRequest name b (snd (selectLeastConnections name (candidates xs) lb)))"
    using assms(3-5) best by (simp add: Select_def selectBy_def split_beta Let_def)
  have "lb_counts (snd (Select u p name ctx r lb)) =
      lb_counts (snd (selectLeastConnections name (candidates xs) lb))"
    using sel by (intro lb_counts_cong) simp
  then show ?thesis
    using b(2,3) sel selectLeastConnections_counts [of name "candidates xs" lb name] best lt by auto
qed

theorem least_connections_minimal_witness:
  "let inst = (\<lambda>i. demo_instance i HealthHealthy [(''lb_strategy'', ''LeastConnections'')]);
       first = (\<lambda>_. Inr [inst ''a'']); second = (\<lambda>_. Inr [inst ''a'', inst ''b'']);
       lb = lb_run demo_tables [(first, LbSelect ''api'' (demo_ctx []) 0), (\<lambda>_. Inl ''timeout'', LbSelect ''api'' (demo_ctx []) 0)]
         NewLoadBalancer
   in fst (Select demo_tables second ''api'' (demo_ctx []) 0 lb) = Returns (Inr (Some (inst ''b'')))"
proof -
  let ?inst = "\<lambda>i. demo_instance i HealthHealthy [(''lb_strategy'', ''LeastConnections'')]"
  let ?ops = "[(\<lambda>_. Inr [?inst ''a''], LbSelect ''api'' (demo_ctx []) 0), (\<lambda>_. Inl ''timeout'', LbSelect ''api'' (demo_ctx []) 0)]"
  let ?xs = "[?inst ''a'', ?inst ''b'']" and ?lb = "lb_run demo_tables ?ops NewLoadBalancer"
  have c: "candidates ?xs = ?xs" by (simp add: demo_instance_def candidates_def filterHealthy_def)
  have s: "resolveStrategy demo_tables ?xs = LeastConnections" by code_simp
  have "conn_count (lb_counts ?lb ''api'') ''a'' = 1 \<and> conn_count (lb_counts ?lb ''api'') ''b'' = 0" by code_simp
  moreover have "ServiceID (?inst i) = i" for i by (simp add: demo_instance_def)
  ultimately show ?thesis
    using least_connections_minimal [of ?ops ?lb demo_tables "\<lambda>_. Inr ?xs" "''api''" ?xs "demo_ctx []" 0] c s
    by (auto simp: maxInt64_def Let_def simp del: lb_run.simps)
qed

text \<open>Hashing is sticky. For a service balanced by IPHash, two requests with the same
  non-empty session go to the same instance, whatever state the balancer is in, whatever else
  the requests carry and whatever random number is drawn.\<close>

theorem ip_hash_sticky:
  assumes "p name = Inr xs" and "resolveStrategy u (candidates xs) = IPHash"
    and "SessionID ctx = SessionID ctx'" and "SessionID ctx \<noteq> []"
  shows "fst (Select u p name ctx r lb) = fst (Select u p name ctx' r' lb')"
proof -
  have "hashKey ctx r = hashKey ctx' r'" using assms(3,4) by (simp add: hashKey_def)
  then have "selectIPHash cs ctx r = selectIPHash cs ctx' r'" for cs by (simp add: selectIPHash_def)
  then show ?thesis using assms(1,2)
    by (auto simp: Select_def selectBy_def Let_def split: outcome.splits option.splits)
qed

theorem ip_hash_sticky_witness:
  "fst (Select demo_tables (\<lambda>_. Inr [demo_instance ''a'' HealthHealthy [(''lb_strategy'', ''ip_hash'')],
        demo_instance ''b'' HealthHealthy []]) ''api'' (demo_ctx ''user-1'') 3 NewLoadBalancer) =
   fst (Select demo_tables (\<lambda>_. Inr [demo_instance ''a'' HealthHealthy [(''lb_strategy'', ''ip_hash'')],
        demo_instance ''b'' HealthHealthy []]) ''api'' (demo_ctx ''user-1'') 4 NewLoadBalancer)"
  by (rule ip_hash_sticky [where xs = "[demo_instance ''a'' HealthHealthy [(''lb_strategy'', ''ip_hash'')],
        demo_instance ''b'' HealthHealthy []]"])
    (simp_all add: demo_instance_def candidates_def filterHealthy_def meta_nonempty_def gm_get_def
      ParseStrategy_def ToLower_def is_ascii_def byte_def lower_char_def char_of_def bit_Suc_0_iff Let_def demo_ctx_def)

text \<open>The statistics add up. After any execution on a new balancer whose provider, whatever it
  answers at each call, lists every instance under one service, the total requests of a service are the selections that
  returned an instance for it, and its successful and failed requests are the reports for
  instances that had been selected, all modulo 2 to the 64.\<close>

theorem stats_account_for_calls:
  assumes "list_all (\<lambda>e. provider_ok own (fst e)) ops"
  shows "TotalRequests (LoadBalancer_Stats name (lb_run u ops NewLoadBalancer)) =
      of_nat (lb_selected u name ops NewLoadBalancer) \<and>
    SuccessfulRequests (LoadBalancer_Stats name (lb_run u ops NewLoadBalancer)) =
      of_nat (lb_reported u own name True ops NewLoadBalancer) \<and>
    FailedRequests (LoadBalancer_Stats name (lb_run u ops NewLoadBalancer)) =
      of_nat (lb_reported u own name False ops NewLoadBalancer)"
proof -
  have "owned_stats own NewLoadBalancer" "\<And>f. stat_sum f name NewLoadBalancer = 0"
    by (simp_all add: owned_stats_def NewLoadBalancer_def stat_sum_def)
  with stats_run [OF assms, of NewLoadBalancer name u] Stats_sums [of name] show ?thesis
    by simp
qed

theorem stats_account_for_calls_witness:
  "TotalRequests (LoadBalancer_Stats ''api'' (lb_run demo_tables (map (Pair
     (\<lambda>n. if n = ''api'' then Inr [demo_instance ''a'' HealthHealthy []] else Inl ''unknown service''))
     [LbSelect ''api'' (demo_ctx []) 0, LbSelect ''web'' (demo_ctx []) 0,
      LbSelect ''api'' (demo_ctx []) 0]) NewLoadBalancer)) = 2"
proof -
  let ?p = "\<lambda>n. if n = ''api'' then Inr [demo_instance ''a'' HealthHealthy []] else Inl ''unknown service''"
  let ?ops = "map (Pair ?p) [LbSelect ''api'' (demo_ctx []) 0, LbSelect ''web'' (demo_ctx []) 0,
      LbSelect ''api'' (demo_ctx []) 0]"
  have "list_all (\<lambda>e. provider_ok (\<lambda>_. ''api'') (fst e)) ?ops" by (simp add: provider_ok_def)
  moreover have "picked (fst (Select demo_tables ?p ''api'' (demo_ctx []) 0 lb)) \<noteq> None" for lb
    by (simp add: Select_def demo_instance_def candidates_def filterHealthy_def meta_nonempty_def
        gm_get_def selectBy_def split_beta selectRoundRobin_result picked_def Let_def)
  then have "lb_selected demo_tables ''api'' ?ops NewLoadBalancer = 2" by simp
  ultimately show ?thesis
    using stats_account_for_calls [of "\<lambda>_. ''api''" ?ops "''api''" demo_tables]
    by (simp only: of_nat_numeral)
qed

end
