(* ===== verification/Health_Cache.thy ===== *)
theory Health_Cache
  imports Mesh_Types
begin

text \<open>
  The health report cache of \<^verbatim>\<open>internal/healthmonitor/cache.go\<close>. Every method holds the cache's
  lock, so a method is one step; the map of pointers is a map of records, because entries are
  replaced and copied out but never changed in place.

  The lemmas refine the cache to a finite map from service IDs to reports, and the interface
  \<open>keyed_store\<close> states what the worker's eviction sweep relies on.
\<close>

section \<open>State and operations\<close>

record MonitoredInstance =
  mi_ServiceID :: string
  mi_ServiceName :: string
  mi_Address :: string
  mi_Port :: go_int
  mi_Status :: HealthStatus
  LastProbe :: time
  ProbeType :: string
  Message :: string
  mi_Metadata :: metadata

record Cache =
  cached :: "(string, MonitoredInstance) gomap"

definition NewCache :: Cache where
  "NewCache = \<lparr>cached = []\<rparr>"

definition Update ::
  "time \<Rightarrow> string \<Rightarrow> string \<Rightarrow> string \<Rightarrow> go_int \<Rightarrow> HealthStatus \<Rightarrow> string \<Rightarrow> string \<Rightarrow> metadata
     \<Rightarrow> Cache \<Rightarrow> Cache" where
  "Update now serviceID serviceName address port status probeType message meta c =
     c\<lparr>cached := gm_set serviceID
         \<lparr>mi_ServiceID = serviceID, mi_ServiceName = serviceName, mi_Address = address,
          mi_Port = port, mi_Status = status, LastProbe = now, ProbeType = probeType,
          Message = message, mi_Metadata = meta\<rparr> (cached c)\<rparr>"

definition GetAll :: "Cache \<Rightarrow> MonitoredInstance list" where
  "GetAll c = gm_values (cached c)"

definition GetByService :: "string \<Rightarrow> Cache \<Rightarrow> MonitoredInstance list" where
  "GetByService serviceName c =
     filter (\<lambda>inst. mi_ServiceName inst = serviceName) (gm_values (cached c))"

definition Get :: "string \<Rightarrow> Cache \<Rightarrow> MonitoredInstance option" where
  "Get serviceID c = gm_get (cached c) serviceID"

definition Remove :: "string \<Rightarrow> Cache \<Rightarrow> Cache" where
  "Remove serviceID c = c\<lparr>cached := gm_del serviceID (cached c)\<rparr>"

definition RemoveByService :: "string \<Rightarrow> Cache \<Rightarrow> Cache" where
  "RemoveByService serviceName c =
     c\<lparr>cached := gm_filter (\<lambda>_ inst. mi_ServiceName inst \<noteq> serviceName) (cached c)\<rparr>"

definition EvictOlderThan :: "time \<Rightarrow> Cache \<Rightarrow> Cache" where
  "EvictOlderThan cutoff c =
     c\<lparr>cached := gm_filter (\<lambda>_ inst. \<not> time_Before (LastProbe inst) cutoff) (cached c)\<rparr>"

definition PreviousStatus :: "string \<Rightarrow> Cache \<Rightarrow> HealthStatus" where
  "PreviousStatus serviceID c =
     (case gm_get (cached c) serviceID of Some inst \<Rightarrow> mi_Status inst | None \<Rightarrow> HealthUnknown)"

lemmas cache_defs = Update_def GetAll_def GetByService_def Get_def Remove_def
  RemoveByService_def EvictOlderThan_def PreviousStatus_def

section \<open>The invariant\<close>

text \<open>No key is stored twice, and every report is stored under its own service ID.\<close>

definition cache_wf :: "Cache \<Rightarrow> bool" where
  "cache_wf c \<longleftrightarrow> gm_wf (cached c) \<and> list_all (\<lambda>e. mi_ServiceID (snd e) = fst e) (cached c)"

lemma cache_wf_key: "cache_wf c \<Longrightarrow> gm_get (cached c) k = Some m \<Longrightarrow> mi_ServiceID m = k"
  by (fastforce simp: cache_wf_def list_all_iff dest: gm_get_Some_set)

lemma cache_wfI:
  assumes "gm_wf (cached c)" and "\<And>k m. gm_get (cached c) k = Some m \<Longrightarrow> mi_ServiceID m = k"
  shows "cache_wf c"
  using assms by (auto simp: cache_wf_def list_all_iff gm_get_iff)

lemma cache_wf_New [simp]: "cache_wf NewCache"
  by (simp add: cache_wf_def NewCache_def)

lemma cache_wf_gm: "cache_wf c \<Longrightarrow> gm_wf (cached c)"
  by (simp add: cache_wf_def)

lemma cache_wf_Update [simp]: "cache_wf c \<Longrightarrow> cache_wf (Update t i n a p st pt msg meta c)"
  by (intro cache_wfI) (auto simp: Update_def gm_simps cache_wf_gm dest: cache_wf_key split: if_splits)

lemma cache_wf_Remove [simp]: "cache_wf c \<Longrightarrow> cache_wf (Remove i c)"
  by (intro cache_wfI) (auto simp: Remove_def gm_simps cache_wf_gm dest: cache_wf_key split: if_splits)

lemma cache_wf_filter:
  "cache_wf c \<Longrightarrow> cache_wf (c\<lparr>cached := gm_filter P (cached c)\<rparr>)"
  by (intro cache_wfI)
    (auto simp: gm_simps cache_wf_gm dest: cache_wf_key split: option.splits if_splits)

section \<open>The cache as a finite map\<close>

datatype cache_op =
    CUpdate time string string string go_int HealthStatus string string metadata
  | CRemove string
  | CRemoveByService string
  | CEvict time

fun cache_exec :: "cache_op \<Rightarrow> Cache \<Rightarrow> Cache" where
  "cache_exec (CUpdate t i n a p st pt msg meta) c = Update t i n a p st pt msg meta c"
| "cache_exec (CRemove i) c = Remove i c"
| "cache_exec (CRemoveByService n) c = RemoveByService n c"
| "cache_exec (CEvict t) c = EvictOlderThan t c"

text \<open>What the operations promise, on the map from IDs to reports.\<close>

definition keep_where ::
  "(MonitoredInstance \<Rightarrow> bool) \<Rightarrow> (string \<rightharpoonup> MonitoredInstance) \<Rightarrow> (string \<rightharpoonup> MonitoredInstance)" where
  "keep_where P f k = (case f k of None \<Rightarrow> None | Some m \<Rightarrow> if P m then Some m else None)"

fun cache_spec ::
  "cache_op \<Rightarrow> (string \<rightharpoonup> MonitoredInstance) \<Rightarrow> (string \<rightharpoonup> MonitoredInstance)" where
  "cache_spec (CUpdate t i n a p st pt msg meta) f =
     f(i \<mapsto> \<lparr>mi_ServiceID = i, mi_ServiceName = n, mi_Address = a, mi_Port = p, mi_Status = st,
              LastProbe = t, ProbeType = pt, Message = msg, mi_Metadata = meta\<rparr>)"
| "cache_spec (CRemove i) f = f(i := None)"
| "cache_spec (CRemoveByService n) f = keep_where (\<lambda>m. mi_ServiceName m \<noteq> n) f"
| "cache_spec (CEvict t) f = keep_where (\<lambda>m. t \<le> LastProbe m) f"

definition abs_cache :: "Cache \<Rightarrow> string \<rightharpoonup> MonitoredInstance" where
  "abs_cache c = (\<lambda>i. Get i c)"

lemma cache_wf_exec: "cache_wf c \<Longrightarrow> cache_wf (cache_exec x c)"
  by (cases x) (auto simp: RemoveByService_def EvictOlderThan_def cache_wf_filter)

lemma abs_cache_exec: "cache_wf c \<Longrightarrow> abs_cache (cache_exec x c) = cache_spec x (abs_cache c)"
  by (cases x; rule ext)
    (auto simp: abs_cache_def cache_defs gm_simps cache_wf_gm keep_where_def time_Before_def
      split: option.splits)

lemma cache_run:
  "cache_wf c \<Longrightarrow> cache_wf (fold cache_exec xs c) \<and>
     abs_cache (fold cache_exec xs c) = fold cache_spec xs (abs_cache c)"
  by (induction xs arbitrary: c) (auto simp: cache_wf_exec abs_cache_exec)

lemma set_GetAll: "cache_wf c \<Longrightarrow> set (GetAll c) = ran (abs_cache c)"
  by (auto simp: GetAll_def gm_values_iff cache_wf_gm abs_cache_def Get_def ran_def)

lemma distinct_GetAll: "cache_wf c \<Longrightarrow> distinct (map mi_ServiceID (GetAll c))"
proof -
  assume wf: "cache_wf c"
  then have "map mi_ServiceID (GetAll c) = map fst (cached c)"
    by (auto simp: GetAll_def gm_values_def cache_wf_def list_all_iff)
  then show ?thesis using wf by (simp add: cache_wf_def gm_wf_def)
qed

section \<open>The interface of the eviction sweep\<close>

text \<open>
  A store whose entries carry their keys. A client that lists the entries and removes those
  whose key fails a test leaves exactly the entries whose key passes.
\<close>

locale keyed_store =
  fixes wf :: "'s \<Rightarrow> bool"
    and entries :: "'s \<Rightarrow> 'e list"
    and key_of :: "'e \<Rightarrow> 'k"
    and find :: "'k \<Rightarrow> 's \<Rightarrow> 'e option"
    and remove :: "'k \<Rightarrow> 's \<Rightarrow> 's"
  assumes entry_found: "wf s \<Longrightarrow> find k s = Some e \<Longrightarrow> e \<in> set (entries s)"
    and found_key: "wf s \<Longrightarrow> find k s = Some e \<Longrightarrow> key_of e = k"
    and find_remove: "wf s \<Longrightarrow> find k (remove j s) = (if k = j then None else find k s)"
    and wf_remove: "wf s \<Longrightarrow> wf (remove j s)"
begin

definition sweep :: "('k \<Rightarrow> bool) \<Rightarrow> 'e list \<Rightarrow> 's \<Rightarrow> 's" where
  "sweep P es s = fold (\<lambda>e s. if P (key_of e) then s else remove (key_of e) s) es s"

lemma sweep_wf: "wf s \<Longrightarrow> wf (sweep P es s)"
  unfolding sweep_def by (induction es arbitrary: s) (auto simp: wf_remove)

lemma sweep_find:
  "wf s \<Longrightarrow> find k (sweep P es s) = (if \<not> P k \<and> k \<in> key_of ` set es then None else find k s)"
  unfolding sweep_def
proof (induction es arbitrary: s)
  case (Cons e es)
  then show ?case by (auto simp: wf_remove find_remove)
qed simp

lemma sweep_all: "wf s \<Longrightarrow> find k (sweep P (entries s) s) = (if P k then find k s else None)"
  using sweep_find [of s k P "entries s"] entry_found [of s k] found_key [of s k]
  by (cases "find k s") (auto intro: rev_image_eqI)

end

interpretation store: keyed_store cache_wf GetAll mi_ServiceID Get Remove
proof
  show "Get k c = Some e \<Longrightarrow> e \<in> set (GetAll c)" if "cache_wf c" for c k e
    using that by (auto simp: set_GetAll abs_cache_def ran_def)
  show "Get k c = Some e \<Longrightarrow> mi_ServiceID e = k" if "cache_wf c" for c k e
    using that by (simp add: Get_def cache_wf_key)
qed (auto simp: Get_def Remove_def gm_simps intro: cache_wf_Remove [unfolded Remove_def])

section \<open>Properties\<close>

text \<open>C40: The cache refines a finite map from service IDs to reports. After any sequence of
  updates, removals and evictions of a new cache, every read is the read of the map that the
  same operations build: Get is a lookup, PreviousStatus the status of the entry or Unknown,
  GetAll lists every entry once, and GetByService those of the service.\<close>

theorem cache_refines_map:
  "let c = fold cache_exec xs NewCache; f = fold cache_spec xs Map.empty in
     (\<forall>i. Get i c = f i) \<and>
     (\<forall>i. PreviousStatus i c = (case f i of None \<Rightarrow> HealthUnknown | Some m \<Rightarrow> mi_Status m)) \<and>
     set (GetAll c) = ran f \<and> distinct (map mi_ServiceID (GetAll c)) \<and>
     set (GetByService n c) = {m \<in> ran f. mi_ServiceName m = n}"
proof -
  let ?c = "fold cache_exec xs NewCache" and ?f = "fold cache_spec xs Map.empty"
  have "abs_cache NewCache = Map.empty"
    by (rule ext) (simp add: abs_cache_def Get_def NewCache_def)
  with cache_run [OF cache_wf_New, of xs] have wf: "cache_wf ?c" and f: "abs_cache ?c = ?f"
    by simp_all
  have get: "Get i ?c = ?f i" for i using f by (simp add: abs_cache_def fun_eq_iff)
  have prev: "PreviousStatus i ?c = (case ?f i of None \<Rightarrow> HealthUnknown | Some m \<Rightarrow> mi_Status m)" for i
    using get [of i] by (simp add: PreviousStatus_def Get_def)
  have "set (GetByService n ?c) = {m \<in> ran ?f. mi_ServiceName m = n}"
    using set_GetAll [OF wf] f by (auto simp: GetByService_def GetAll_def)
  then show ?thesis using get prev set_GetAll [OF wf] f distinct_GetAll [OF wf] by simp
qed

end
