(* ===== verification/Messaging.thy ===== *)
theory Messaging
  imports Mesh_Types
begin

text \<open>
  The events of \<^verbatim>\<open>internal/messaging/events.go\<close> and the publisher of \<^verbatim>\<open>publisher.go\<close>. The AMQP
  client is not part of the repository: it is the parameter \<open>amqp\<close>, functions on the state of
  the broker. \<^verbatim>\<open>json.Marshal\<close> is a parameter too. The package variable \<^verbatim>\<open>idCounter\<close> is a 64-bit
  word that each identifier increments atomically.
\<close>

section \<open>Events\<close>

record ServiceRegisteredEvent =
  sr_EventID :: string
  sr_Timestamp :: time
  sr_CorrelationID :: string
  sr_ServiceID :: string
  sr_ServiceName :: string
  sr_Address :: string
  sr_Port :: go_int
  sr_Metadata :: metadata

record ServiceDeregisteredEvent =
  sd_EventID :: string
  sd_Timestamp :: time
  sd_CorrelationID :: string
  sd_ServiceID :: string
  sd_ServiceName :: string
  sd_Reason :: string

record ServiceHealthChangedEvent =
  sh_EventID :: string
  sh_Timestamp :: time
  sh_CorrelationID :: string
  sh_ServiceID :: string
  sh_ServiceName :: string
  sh_PreviousStatus :: string
  sh_CurrentStatus :: string
  sh_HealthCheckOutput :: string

text \<open>A value of Go's type \<^verbatim>\<open>any\<close> as the type switch of \<^verbatim>\<open>eventMeta\<close> tells them apart.\<close>

datatype event =
    Registered ServiceRegisteredEvent
  | Deregistered ServiceDeregisteredEvent
  | HealthChanged ServiceHealthChangedEvent
  | OtherEvent string

definition eventMeta :: "event \<Rightarrow> string \<times> string" where
  "eventMeta event =
     (case event of
        Registered _ \<Rightarrow>
          (''urn:message:ToskaMesh.Common.Messaging:ServiceRegisteredEvent'',
           ''ToskaMesh.Common.Messaging:ServiceRegisteredEvent'')
      | Deregistered _ \<Rightarrow>
          (''urn:message:ToskaMesh.Common.Messaging:ServiceDeregisteredEvent'',
           ''ToskaMesh.Common.Messaging:ServiceDeregisteredEvent'')
      | HealthChanged _ \<Rightarrow>
          (''urn:message:ToskaMesh.Common.Messaging:ServiceHealthChangedEvent'',
           ''ToskaMesh.Common.Messaging:ServiceHealthChangedEvent'')
      | OtherEvent _ \<Rightarrow> (''urn:message:Unknown'', ''Unknown''))"

section \<open>Identifiers and envelopes\<close>

type_synonym uint64 = "64 word"

text \<open>\<^verbatim>\<open>generateID\<close> with the clock reading it takes; the result is the ID and the new counter.\<close>

definition generateID :: "time \<Rightarrow> uint64 \<Rightarrow> string \<times> uint64" where
  "generateID now idCounter =
     (let seq = idCounter + 1
      in (Itoa (UnixNano now) @ ''-'' @ Itoa (uint seq), seq))"

record massTransitHost =
  MachineName :: string
  ProcessName :: string
  ProcessID :: go_int
  Assembly :: string
  AssemblyVersion :: string
  FrameworkVersion :: string
  MassTransitVersion :: string
  OperatingSystemVersion :: string

record massTransitEnvelope =
  MessageID :: string
  MessageType :: "string list"
  env_Headers :: "(string, string) gomap"
  env_Message :: event
  SentTime :: time
  Host :: massTransitHost

section \<open>The publisher\<close>

text \<open>The client library: what each call does to the broker, and whether it fails.\<close>

record ('w, 'c, 'h) amqp =
  Dial :: "string \<Rightarrow> 'w \<Rightarrow> (error + 'c) \<times> 'w"
  Channel :: "'c \<Rightarrow> 'w \<Rightarrow> (error + 'h) \<times> 'w"
  ExchangeDeclare :: "'h \<Rightarrow> string \<Rightarrow> string \<Rightarrow> 'w \<Rightarrow> error option \<times> 'w"
  PublishWithContext :: "'h \<Rightarrow> string \<Rightarrow> string \<Rightarrow> string \<Rightarrow> string \<Rightarrow> 'w \<Rightarrow> error option \<times> 'w"
  Channel_Close :: "'h \<Rightarrow> 'w \<Rightarrow> 'w"
  Connection_Close :: "'c \<Rightarrow> 'w \<Rightarrow> error option \<times> 'w"

record ('c, 'h) Publisher =
  conn :: "'c option"
  ch :: "'h option"

definition NewPublisher ::
  "('w, 'c, 'h) amqp \<Rightarrow> string \<Rightarrow> 'w \<Rightarrow> (error + ('c, 'h) Publisher) \<times> 'w" where
  "NewPublisher q url w =
     (if url = [] then (Inr \<lparr>conn = None, ch = None\<rparr>, w)
      else (case Dial q url w of
              (Inl err, w1) \<Rightarrow> (Inl (''amqp dial: '' @ err), w1)
            | (Inr c, w1) \<Rightarrow>
                (case Channel q c w1 of
                   (Inl err, w2) \<Rightarrow>
                     (Inl (''amqp channel: '' @ err), snd (Connection_Close q c w2))
                 | (Inr h, w2) \<Rightarrow> (Inr \<lparr>conn = Some c, ch = Some h\<rparr>, w2))))"

definition meshHost :: massTransitHost where
  "meshHost =
     \<lparr>MachineName = ''toska-mesh'', ProcessName = ''discovery'', ProcessID = 0,
      Assembly = ''toska-mesh'', AssemblyVersion = ''1.0.0'', FrameworkVersion = [],
      MassTransitVersion = [], OperatingSystemVersion = []\<rparr>"

text \<open>The envelope \<^verbatim>\<open>Publish\<close> builds around an event, and the new counter.\<close>

definition newEnvelope :: "time \<Rightarrow> time \<Rightarrow> event \<Rightarrow> uint64 \<Rightarrow> massTransitEnvelope \<times> uint64" where
  "newEnvelope t1 t2 event idCounter =
     (let (msgID, idCounter') = generateID t1 idCounter
      in (\<lparr>MessageID = msgID, MessageType = [fst (eventMeta event)], env_Headers = [],
           env_Message = event, SentTime = t2, Host = meshHost\<rparr>, idCounter'))"

text \<open>\<open>t1\<close> is the clock reading inside \<^verbatim>\<open>generateID\<close> and \<open>t2\<close> the one for \<^verbatim>\<open>SentTime\<close>.\<close>

definition Publish ::
  "('w, 'c, 'h) amqp \<Rightarrow> (massTransitEnvelope \<Rightarrow> error + string) \<Rightarrow> ('c, 'h) Publisher
     \<Rightarrow> time \<Rightarrow> time \<Rightarrow> event \<Rightarrow> uint64 \<Rightarrow> 'w \<Rightarrow> error option \<times> uint64 \<times> 'w" where
  "Publish q marshal p t1 t2 event idCounter w =
     (let exchangeName = snd (eventMeta event);
          (envelope, idCounter') = newEnvelope t1 t2 event idCounter
      in case marshal envelope of
           Inl err \<Rightarrow> (Some (''marshal event: '' @ err), idCounter', w)
         | Inr body \<Rightarrow>
             (case ch p of
                None \<Rightarrow> (None, idCounter', w)
              | Some h \<Rightarrow>
                  (case ExchangeDeclare q h exchangeName ''fanout'' w of
                     (Some err, w1) \<Rightarrow>
                       (Some (''declare exchange '' @ exchangeName @ '': '' @ err), idCounter', w1)
                   | (None, w1) \<Rightarrow>
                       (let (e, w2) = PublishWithContext q h exchangeName []
                                        ''application/vnd.masstransit+json'' body w1
                        in (e, idCounter', w2)))))"

definition Publisher_Close ::
  "('w, 'c, 'h) amqp \<Rightarrow> ('c, 'h) Publisher \<Rightarrow> 'w \<Rightarrow> error option \<times> 'w" where
  "Publisher_Close q p w =
     (let w1 = (case ch p of None \<Rightarrow> w | Some h \<Rightarrow> Channel_Close q h w)
      in case conn p of None \<Rightarrow> (None, w1) | Some c \<Rightarrow> Connection_Close q c w1)"

text \<open>
  A publish call as its clients see it, who at most log its error: the two clock readings, the
  event, and what happens to the state of the bus. \<open>publishVia\<close> is the call through a publisher,
  on the identifier counter and the broker; \<open>record_event\<close> is a bus that only keeps the events,
  in the order of publication.
\<close>

type_synonym 'p publish = "time \<times> time \<Rightarrow> event \<Rightarrow> 'p \<Rightarrow> 'p"

definition publishVia ::
  "('w, 'c, 'h) amqp \<Rightarrow> (massTransitEnvelope \<Rightarrow> error + string) \<Rightarrow> ('c, 'h) Publisher
     \<Rightarrow> (uint64 \<times> 'w) publish" where
  "publishVia q marshal p ts ev s = snd (Publish q marshal p (fst ts) (snd ts) ev (fst s) (snd s))"

definition record_event :: "event list publish" where
  "record_event _ ev log = log @ [ev]"

section \<open>Unique identifiers\<close>

text \<open>The IDs of a sequence of calls that read the clock at \<open>ts\<close>.\<close>

fun generateIDs :: "time list \<Rightarrow> uint64 \<Rightarrow> string list" where
  "generateIDs [] c = []"
| "generateIDs (t # ts) c = (let (i, c') = generateID t c in i # generateIDs ts c')"

text \<open>The sequence number is what follows the last hyphen.\<close>

lemma hyphen_free_suffix:
  assumes "a @ CHR ''-'' # s = b @ CHR ''-'' # t" and "CHR ''-'' \<notin> set s" and "CHR ''-'' \<notin> set t"
  shows "s = t"
proof -
  have take: "takeWhile (\<lambda>c. c \<noteq> CHR ''-'') (rev u @ CHR ''-'' # rev v) = rev u"
    if "CHR ''-'' \<notin> set u" for u v :: string
    using that by (subst takeWhile_append2) auto
  have "rev s @ CHR ''-'' # rev a = rev t @ CHR ''-'' # rev b"
    using arg_cong [OF assms(1), of rev] by simp
  then have "rev s = rev t" using take [OF assms(2)] take [OF assms(3)] by metis
  then show ?thesis by simp
qed

lemma Itoa_no_hyphen: "0 \<le> i \<Longrightarrow> CHR ''-'' \<notin> set (Itoa i)"
  using digits_base_chars [of "CHR ''-''" "nat i"] by (auto simp: FormatInt_def byte_def)

lemma generateID_inj: "fst (generateID t c) = fst (generateID t' c') \<Longrightarrow> c = c'"
proof -
  assume "fst (generateID t c) = fst (generateID t' c')"
  then have "Itoa (UnixNano t) @ CHR ''-'' # Itoa (uint (c + 1)) =
      Itoa (UnixNano t') @ CHR ''-'' # Itoa (uint (c' + 1))"
    by (simp add: generateID_def Let_def)
  then have "Itoa (uint (c + 1)) = Itoa (uint (c' + 1))"
    by (rule hyphen_free_suffix) (simp_all add: Itoa_no_hyphen)
  then have "uint (c + 1) = uint (c' + 1)" by (rule Itoa_inj)
  then show "c = c'" by (simp only: word_uint_eq_iff [symmetric] add_right_cancel)
qed

lemma generateIDs_nth:
  "i < length ts \<Longrightarrow> generateIDs ts c ! i = fst (generateID (ts ! i) (c + of_nat i))"
proof (induction ts arbitrary: c i)
  case (Cons t ts)
  then show ?case
    by (cases i) (simp_all add: generateID_def Let_def add_ac)
qed simp

lemma length_generateIDs [simp]: "length (generateIDs ts c) = length ts"
  by (induction ts arbitrary: c) (auto simp: split_beta)

lemma of_nat_word_inj: "i < 2 ^ 64 \<Longrightarrow> j < 2 ^ 64 \<Longrightarrow> (of_nat i :: 64 word) = of_nat j \<Longrightarrow> i = j"
  by (simp add: word_of_nat_eq_iff take_bit_nat_eq_self)

lemma generateIDs_distinct:
  assumes "length ts \<le> 2 ^ 64"
  shows "distinct (generateIDs ts c)"
proof (unfold distinct_conv_nth, intro allI impI)
  fix i j
  assume ij: "i < length (generateIDs ts c)" "j < length (generateIDs ts c)" "i \<noteq> j"
  show "generateIDs ts c ! i \<noteq> generateIDs ts c ! j"
  proof
    assume "generateIDs ts c ! i = generateIDs ts c ! j"
    then have "c + of_nat i = c + of_nat j"
      using ij by (auto simp: generateIDs_nth dest: generateID_inj)
    then have "i = j" using ij assms by (intro of_nat_word_inj) auto
    then show False using ij by simp
  qed
qed

text \<open>Whatever the broker answers, a call advances the counter.\<close>

lemma Publish_counter: "fst (snd (Publish q marshal p t1 t2 ev c w)) = snd (newEnvelope t1 t2 ev c)"
  by (auto simp: Publish_def split_beta Let_def split: sum.splits option.splits prod.splits)

lemma newEnvelope_simps [simp]:
  "MessageID (fst (newEnvelope t1 t2 ev c)) = fst (generateID t1 c)"
  "snd (newEnvelope t1 t2 ev c) = snd (generateID t1 c)"
  by (simp_all add: newEnvelope_def split_beta)

text \<open>A publisher without a channel leaves the broker alone.\<close>

lemma Publish_noop: "ch p = None \<Longrightarrow> snd (snd (Publish q marshal p t1 t2 ev c w)) = w"
  by (auto simp: Publish_def split_beta Let_def split: sum.splits)

text \<open>The message IDs of a sequence of calls, each with its two clock readings and its event.\<close>

fun published_ids ::
  "('w, 'c, 'h) amqp \<Rightarrow> (massTransitEnvelope \<Rightarrow> error + string) \<Rightarrow> ('c, 'h) Publisher
     \<Rightarrow> (time \<times> time \<times> event) list \<Rightarrow> uint64 \<Rightarrow> 'w \<Rightarrow> string list" where
  "published_ids q marshal p [] c w = []"
| "published_ids q marshal p ((t1, t2, ev) # calls) c w =
     (let (_, c', w') = Publish q marshal p t1 t2 ev c w
      in MessageID (fst (newEnvelope t1 t2 ev c)) # published_ids q marshal p calls c' w')"

lemma published_ids_generate: "published_ids q marshal p calls c w = generateIDs (map fst calls) c"
proof (induction calls arbitrary: c w)
  case (Cons call calls)
  obtain t1 t2 ev where "call = (t1, t2, ev)" by (cases call)
  then show ?case using Cons Publish_counter [of q marshal p t1 t2 ev c w]
    by (simp add: split_beta Let_def)
qed simp

section \<open>Properties\<close>

text \<open>Message identifiers are unique. The messages of up to 2 to the 64 publish calls have
  pairwise different IDs, whatever the clock shows (the same reading every time, one that runs
  backwards, one before the Unix epoch), wherever the counter starts and whichever of the
  calls fail in the marshaller or in the broker.\<close>

theorem message_ids_unique:
  assumes "length calls \<le> 2 ^ 64"
  shows "distinct (published_ids q marshal p calls idCounter w)"
  using assms by (simp add: published_ids_generate generateIDs_distinct)

definition demo_amqp :: "(string list, unit, unit) amqp" where
  "demo_amqp =
     \<lparr>Dial = (\<lambda>_ w. (Inr (), w)), Channel = (\<lambda>_ w. (Inr (), w)),
      ExchangeDeclare = (\<lambda>_ _ _ w. (None, w)),
      PublishWithContext = (\<lambda>_ x _ _ _ w. (None, x # w)),
      Channel_Close = (\<lambda>_ w. w), Connection_Close = (\<lambda>_ w. (None, w))\<rparr>"

theorem message_ids_unique_witness:
  "distinct (published_ids demo_amqp (\<lambda>_. Inr ''{}'') \<lparr>conn = Some (), ch = Some ()\<rparr>
     [(0, 0, OtherEvent ''a''), (0, 0, OtherEvent ''a''), (- 7, 1, OtherEvent ''b'')] (- 1) [])"
  by (rule message_ids_unique) simp

end
