(* ===== verification/Consul_Registry.thy ===== *)
theory Consul_Registry
  imports Mesh_Types "HOL-Library.Multiset"
begin

text \<open>
  The registry of \<^verbatim>\<open>internal/consul/registry.go\<close>. The Consul client library is not part of the
  repository: it is the parameter \<open>consul_api\<close>, one function per call of the client that the
  registry makes, on the state \<open>'w\<close> of the Consul agent. What the registry relies on of Consul
  are the predicates \<open>consul_lists_registered\<close> and \<open>consul_ttl_passes\<close>.

  The registry's own state is the map of registration times. Also here: \<^verbatim>\<open>time.Duration.String\<close>,
  which prints the TTL that is sent to Consul.
\<close>

section \<open>Durations as strings\<close>

text \<open>\<^verbatim>\<open>fmtFrac\<close>: the fraction of \<open>v / 10 ^ prec\<close> without trailing zeros, and the integral part.\<close>

fun fmtFrac :: "nat \<Rightarrow> nat \<Rightarrow> bool \<Rightarrow> string \<Rightarrow> string \<times> nat" where
  "fmtFrac v 0 pr acc = (if pr then CHR ''.'' # acc else acc, v)"
| "fmtFrac v (Suc prec) pr acc =
     (let digit = v mod 10; pr' = (pr \<or> digit \<noteq> 0)
      in fmtFrac (v div 10) prec pr' (if pr' then digit_char digit # acc else acc))"

definition Duration_String :: "duration \<Rightarrow> string" where
  "Duration_String d =
     (let u = nat \<bar>d\<bar>;
          body =
            (if u < 1000000000 then
               (if u = 0 then ''0s''
                else if u < 1000 then digits_base 10 u @ ''ns''
                else if u < 1000000 then
                  (let (f, v) = fmtFrac u 3 False [CHR 0xC2, CHR 0xB5, CHR ''s''] in digits_base 10 v @ f)
                else (let (f, v) = fmtFrac u 6 False ''ms'' in digits_base 10 v @ f))
             else
               (let (f, v) = fmtFrac u 9 False ''s'';
                    secs = digits_base 10 (v mod 60) @ f; m = v div 60
                in if m = 0 then secs
                   else (let mins = digits_base 10 (m mod 60) @ ''m'' @ secs; h = m div 60
                         in if h = 0 then mins else digits_base 10 h @ ''h'' @ mins)))
      in if d < 0 then CHR ''-'' # body else body)"

section \<open>The Consul client\<close>

record AgentServiceCheck =
  CheckID :: string
  CheckName :: string
  TTL :: string
  DeregisterCriticalServiceAfter :: string

record AgentServiceRegistration =
  asr_ID :: string
  asr_Name :: string
  asr_Address :: string
  asr_Port :: go_int
  asr_Meta :: metadata
  asr_Check :: AgentServiceCheck

record AgentService =
  as_ID :: string
  as_Service :: string
  as_Address :: string
  as_Port :: go_int
  as_Meta :: metadata

record HealthCheck =
  hc_CheckID :: string
  hc_Status :: string

record ServiceEntry =
  entry_Service :: AgentService
  entry_Checks :: "HealthCheck list"

record 'w consul_api =
  ServiceRegister :: "AgentServiceRegistration \<Rightarrow> 'w \<Rightarrow> error option \<times> 'w"
  ServiceDeregister :: "string \<Rightarrow> 'w \<Rightarrow> error option \<times> 'w"
  PassTTL :: "string \<Rightarrow> string \<Rightarrow> 'w \<Rightarrow> error option \<times> 'w"
  WarnTTL :: "string \<Rightarrow> string \<Rightarrow> 'w \<Rightarrow> error option \<times> 'w"
  FailTTL :: "string \<Rightarrow> string \<Rightarrow> 'w \<Rightarrow> error option \<times> 'w"
  Health_Service :: "string \<Rightarrow> 'w \<Rightarrow> error + ServiceEntry list"
  Catalog_Services :: "'w \<Rightarrow> error + (string, string list) gomap"
  Agent_Service :: "string \<Rightarrow> 'w \<Rightarrow> error + AgentService option"

section \<open>State and operations\<close>

record HealthCheckConfig =
  Endpoint :: string
  IntervalSeconds :: go_int
  TimeoutSeconds :: go_int
  UnhealthyThreshold :: go_int

record Registration =
  reg_ServiceName :: string
  reg_ServiceID :: string
  reg_Address :: string
  reg_Port :: go_int
  reg_Metadata :: metadata
  reg_HealthCheck :: "HealthCheckConfig option"

record Registry =
  registrationTimes :: "(string, time) gomap"

definition NewRegistry :: Registry where
  "NewRegistry = \<lparr>registrationTimes = []\<rparr>"

text \<open>\<^verbatim>\<open>NewRegistry\<close> with its error: \<open>newClient\<close> is \<^verbatim>\<open>api.NewClient\<close>, given the address unless it is empty and the
  default of the library applies.\<close>

definition openRegistry :: "(string option \<Rightarrow> error option) \<Rightarrow> string \<Rightarrow> error + Registry" where
  "openRegistry newClient addr =
     (case newClient (if addr \<noteq> [] then Some addr else None) of
        Some err \<Rightarrow> Inl (''consul client: '' @ err)
      | None \<Rightarrow> Inr NewRegistry)"

text \<open>The time to live of the check, with its buffer and its lower bound.\<close>

definition ttlWithBuffer :: "HealthCheckConfig option \<Rightarrow> duration" where
  "ttlWithBuffer hc =
     (let ttlInterval =
            (case hc of
               Some c \<Rightarrow> if 0 < IntervalSeconds c then wrap64 (IntervalSeconds c * Second) else 30 * Second
             | None \<Rightarrow> 30 * Second);
          ttl = wrap64 (ttlInterval + 5 * Second)
      in if ttl < 10 * Second then 10 * Second else ttl)"

definition checkID :: "string \<Rightarrow> string" where
  "checkID serviceID = ''service:'' @ serviceID"

definition consulReg :: "Registration \<Rightarrow> AgentServiceRegistration" where
  "consulReg reg =
     \<lparr>asr_ID = reg_ServiceID reg, asr_Name = reg_ServiceName reg, asr_Address = reg_Address reg,
      asr_Port = reg_Port reg, asr_Meta = reg_Metadata reg,
      asr_Check =
        \<lparr>CheckID = checkID (reg_ServiceID reg), CheckName = reg_ServiceName reg @ '' TTL Health'',
         TTL = Duration_String (ttlWithBuffer (reg_HealthCheck reg)),
         DeregisterCriticalServiceAfter = Duration_String Minute\<rparr>\<rparr>"

text \<open>\<open>now\<close> is the clock reading that becomes the registration time. A failed \<^verbatim>\<open>PassTTL\<close> is
  only logged.\<close>

definition Registry_Register ::
  "'w consul_api \<Rightarrow> time \<Rightarrow> Registration \<Rightarrow> Registry \<Rightarrow> 'w \<Rightarrow> error option \<times> Registry \<times> 'w" where
  "Registry_Register api now reg r w =
     (case ServiceRegister api (consulReg reg) w of
        (Some err, w1) \<Rightarrow> (Some (''consul register: '' @ err), r, w1)
      | (None, w1) \<Rightarrow>
          (let w2 = snd (PassTTL api (checkID (reg_ServiceID reg)) ''Service registered'' w1)
           in (None,
               r\<lparr>registrationTimes := gm_set (reg_ServiceID reg) now (registrationTimes r)\<rparr>, w2)))"

definition Registry_Deregister ::
  "'w consul_api \<Rightarrow> string \<Rightarrow> Registry \<Rightarrow> 'w \<Rightarrow> error option \<times> Registry \<times> 'w" where
  "Registry_Deregister api serviceID r w =
     (case ServiceDeregister api serviceID w of
        (Some err, w1) \<Rightarrow> (Some (''consul deregister: '' @ err), r, w1)
      | (None, w1) \<Rightarrow>
          (None, r\<lparr>registrationTimes := gm_del serviceID (registrationTimes r)\<rparr>, w1))"

definition mapHealthStatus :: "HealthCheck list \<Rightarrow> HealthStatus" where
  "mapHealthStatus checks =
     (if checks = [] then HealthUnknown
      else if list_ex (\<lambda>c. hc_Status c = ''critical'' \<or> hc_Status c = ''maintenance'') checks
        then HealthUnhealthy
      else if list_ex (\<lambda>c. hc_Status c = ''warning'') checks then HealthDegraded
      else if list_all (\<lambda>c. hc_Status c = ''passing'') checks then HealthHealthy
      else HealthUnknown)"

text \<open>The loop \<^verbatim>\<open>for k, v := range m { meta[k] = v }\<close>.\<close>

definition copyMeta :: "metadata \<Rightarrow> metadata" where
  "copyMeta m = fold (\<lambda>e acc. gm_set (fst e) (snd e) acc) m []"

definition toInstance :: "Registry \<Rightarrow> ServiceEntry \<Rightarrow> Instance" where
  "toInstance r entry =
     (let s = entry_Service entry in
      \<lparr>ServiceName = as_Service s, ServiceID = as_ID s, Address = as_Address s, Port = as_Port s,
       Status = mapHealthStatus (entry_Checks entry), Metadata = copyMeta (as_Meta s),
       RegisteredAt = gm_get_or zero_time (registrationTimes r) (as_ID s),
       LastHealthCheck = zero_time\<rparr>)"

definition Registry_GetInstances ::
  "'w consul_api \<Rightarrow> string \<Rightarrow> Registry \<Rightarrow> 'w \<Rightarrow> error + Instance list" where
  "Registry_GetInstances api serviceName r w =
     (case Health_Service api serviceName w of
        Inl err \<Rightarrow> Inl (''consul get instances: '' @ err)
      | Inr es \<Rightarrow> Inr (map (toInstance r) es))"

definition Registry_GetServices :: "'w consul_api \<Rightarrow> 'w \<Rightarrow> error + string list" where
  "Registry_GetServices api w =
     (case Catalog_Services api w of
        Inl err \<Rightarrow> Inl (''consul get services: '' @ err)
      | Inr services \<Rightarrow> Inr (filter (\<lambda>name. name \<noteq> ''consul'') (map fst services)))"

definition Registry_UpdateHealth ::
  "'w consul_api \<Rightarrow> string \<Rightarrow> HealthStatus \<Rightarrow> string \<Rightarrow> 'w \<Rightarrow> error option \<times> 'w" where
  "Registry_UpdateHealth api serviceID status out w =
     (case status of
        HealthHealthy \<Rightarrow> PassTTL api (checkID serviceID) out w
      | HealthUnhealthy \<Rightarrow> FailTTL api (checkID serviceID) out w
      | HealthDegraded \<Rightarrow> WarnTTL api (checkID serviceID) out w
      | HealthUnknown \<Rightarrow> PassTTL api (checkID serviceID) out w)"

definition Registry_GetInstance ::
  "'w consul_api \<Rightarrow> string \<Rightarrow> Registry \<Rightarrow> 'w \<Rightarrow> error + Instance option" where
  "Registry_GetInstance api serviceID r w =
     (case Agent_Service api serviceID w of
        Inl err \<Rightarrow> Inl (''consul get instance: '' @ err)
      | Inr None \<Rightarrow> Inr None
      | Inr (Some svc) \<Rightarrow>
          Inr (Some \<lparr>ServiceName = as_Service svc, ServiceID = as_ID svc, Address = as_Address svc,
            Port = as_Port svc, Status = HealthUnknown, Metadata = copyMeta (as_Meta svc),
            RegisteredAt = gm_get_or zero_time (registrationTimes r) serviceID,
            LastHealthCheck = zero_time\<rparr>))"

section \<open>Lemmas\<close>

lemma copyMeta_acc:
  "gm_wf m \<Longrightarrow> gm_get (fold (\<lambda>e acc. gm_set (fst e) (snd e) acc) m acc) k =
     (case gm_get m k of None \<Rightarrow> gm_get acc k | Some v \<Rightarrow> Some v)"
proof (induction m arbitrary: acc)
  case (Cons e m)
  obtain a v where e: "e = (a, v)" by (cases e)
  have "gm_get m a = None" using Cons.prems e by (auto simp: gm_get_None_iff gm_wf_def)
  then show ?case using Cons e
    by (auto simp: gm_wf_def gm_get_cons gm_simps split: option.splits)
qed simp

lemma copyMeta_get [simp]: "gm_wf m \<Longrightarrow> gm_get (copyMeta m) = gm_get m"
  by (rule ext) (simp add: copyMeta_def copyMeta_acc split: option.splits)

text \<open>What a single check says.\<close>

definition check_health :: "HealthCheck \<Rightarrow> HealthStatus" where
  "check_health c =
     (if hc_Status c = ''critical'' \<or> hc_Status c = ''maintenance'' then HealthUnhealthy
      else if hc_Status c = ''warning'' then HealthDegraded
      else if hc_Status c = ''passing'' then HealthHealthy else HealthUnknown)"

lemma mapHealthStatus_Cons:
  "mapHealthStatus (c # cs) = (if cs = [] then check_health c else max (check_health c) (mapHealthStatus cs))"
  by (auto simp: mapHealthStatus_def check_health_def max_def less_eq_HealthStatus_def)

lemma mapHealthStatus_Max: "cs \<noteq> [] \<Longrightarrow> mapHealthStatus cs = Max (check_health ` set cs)"
  by (induction cs) (auto simp: mapHealthStatus_Cons)

text \<open>The TTL in exact arithmetic.\<close>

definition ttl_seconds :: "HealthCheckConfig option \<Rightarrow> int" where
  "ttl_seconds hc =
     (case hc of
        Some c \<Rightarrow> if 0 < IntervalSeconds c then max 10 (IntervalSeconds c + 5) else 35
      | None \<Rightarrow> 35)"

lemma ttlWithBuffer_exact:
  assumes "\<And>c. hc = Some c \<Longrightarrow> is_int32 (IntervalSeconds c)"
  shows "ttlWithBuffer hc = ttl_seconds hc * Second"
proof (cases hc)
  case None
  then show ?thesis by (simp add: ttlWithBuffer_def ttl_seconds_def wrap64_id int_range_defs)
next
  case (Some c)
  then have "is_int32 (IntervalSeconds c)" using assms by simp
  then have "0 < IntervalSeconds c \<Longrightarrow> is_int64 (IntervalSeconds c * Second)"
    "0 < IntervalSeconds c \<Longrightarrow> is_int64 (IntervalSeconds c * Second + 5 * Second)"
    by (auto simp: int_range_defs)
  with Some show ?thesis
    by (auto simp: ttlWithBuffer_def ttl_seconds_def wrap64_id int_range_defs Let_def max_def)
qed

lemma ttlWithBuffer_lower: "10 * Second \<le> ttlWithBuffer hc"
  by (simp add: ttlWithBuffer_def Let_def)

section \<open>What Consul promises\<close>

text \<open>A registered service is listed under its name with what was registered.\<close>

definition lists_registration :: "AgentServiceRegistration \<Rightarrow> ServiceEntry \<Rightarrow> bool" where
  "lists_registration reg e \<longleftrightarrow>
     (let s = entry_Service e in
      as_ID s = asr_ID reg \<and> as_Service s = asr_Name reg \<and> as_Address s = asr_Address reg \<and>
      as_Port s = asr_Port reg \<and> as_Meta s = asr_Meta reg \<and>
      CheckID (asr_Check reg) \<in> hc_CheckID ` set (entry_Checks e))"

definition consul_lists_registered :: "'w consul_api \<Rightarrow> bool" where
  "consul_lists_registered api \<longleftrightarrow>
     (\<forall>reg w w'. ServiceRegister api reg w = (None, w') \<longrightarrow>
        (\<exists>es. Health_Service api (asr_Name reg) w' = Inr es \<and> (\<exists>e \<in> set es. lists_registration reg e)))"

text \<open>A passed TTL check has the status passing afterwards, and nothing else changes.\<close>

definition pass_check :: "string \<Rightarrow> ServiceEntry \<Rightarrow> ServiceEntry" where
  "pass_check cid e =
     e\<lparr>entry_Checks := map (\<lambda>c. if hc_CheckID c = cid then c\<lparr>hc_Status := ''passing''\<rparr> else c)
         (entry_Checks e)\<rparr>"

definition consul_ttl_passes :: "'w consul_api \<Rightarrow> bool" where
  "consul_ttl_passes api \<longleftrightarrow>
     (\<forall>cid out w w' name es. PassTTL api cid out w = (None, w') \<longrightarrow> Health_Service api name w = Inr es \<longrightarrow>
        Health_Service api name w' = Inr (map (pass_check cid) es))"

text \<open>What the catalog holds, seen by instance. An accepted call changes the instance that it is about,
  and a health query lists the instances of one service. \<open>view\<close> is the content of the catalog.\<close>

definition instances_of :: "string \<Rightarrow> ServiceEntry list \<Rightarrow> ServiceEntry list" where
  "instances_of i es = filter (\<lambda>e. as_ID (entry_Service e) = i) es"

definition set_check :: "string \<Rightarrow> string \<Rightarrow> ServiceEntry \<Rightarrow> ServiceEntry" where
  "set_check status cid e =
     e\<lparr>entry_Checks := map (\<lambda>c. if hc_CheckID c = cid then c\<lparr>hc_Status := status\<rparr> else c) (entry_Checks e)\<rparr>"

definition consul_catalog :: "'w consul_api \<Rightarrow> ('w \<Rightarrow> ServiceEntry list) \<Rightarrow> bool" where
  "consul_catalog api view \<longleftrightarrow>
     (\<forall>name w es. Health_Service api name w = Inr es \<longrightarrow>
        es = filter (\<lambda>e. as_Service (entry_Service e) = name) (view w)) \<and>
     (\<forall>reg w w'. ServiceRegister api reg w = (None, w') \<longrightarrow>
        (\<exists>e. lists_registration reg e \<and> instances_of (asr_ID reg) (view w') = [e])) \<and>
     (\<forall>i w w'. ServiceDeregister api i w = (None, w') \<longrightarrow> instances_of i (view w') = []) \<and>
     (\<forall>i out w w'. PassTTL api (checkID i) out w = (None, w') \<longrightarrow>
        instances_of i (view w') = map (set_check ''passing'' (checkID i)) (instances_of i (view w))) \<and>
     (\<forall>i out w w'. WarnTTL api (checkID i) out w = (None, w') \<longrightarrow>
        instances_of i (view w') = map (set_check ''warning'' (checkID i)) (instances_of i (view w))) \<and>
     (\<forall>i out w w'. FailTTL api (checkID i) out w = (None, w') \<longrightarrow>
        instances_of i (view w') = map (set_check ''critical'' (checkID i)) (instances_of i (view w)))"

text \<open>A call about one instance leaves the others alone, whether it is accepted or not.\<close>

definition consul_isolates :: "'w consul_api \<Rightarrow> ('w \<Rightarrow> ServiceEntry list) \<Rightarrow> bool" where
  "consul_isolates api view \<longleftrightarrow>
     (\<forall>i j out reg w. i \<noteq> j \<longrightarrow>
        (asr_ID reg = j \<longrightarrow> instances_of i (view (snd (ServiceRegister api reg w))) = instances_of i (view w)) \<and>
        instances_of i (view (snd (ServiceDeregister api j w))) = instances_of i (view w) \<and>
        instances_of i (view (snd (PassTTL api (checkID j) out w))) = instances_of i (view w) \<and>
        instances_of i (view (snd (WarnTTL api (checkID j) out w))) = instances_of i (view w) \<and>
        instances_of i (view (snd (FailTTL api (checkID j) out w))) = instances_of i (view w))"

lemma consul_catalogD:
  assumes "consul_catalog api view"
  shows "Health_Service api name w = Inr es \<Longrightarrow> es = filter (\<lambda>e. as_Service (entry_Service e) = name) (view w)"
    and "ServiceRegister api reg w = (None, w') \<Longrightarrow>
      \<exists>e. lists_registration reg e \<and> instances_of (asr_ID reg) (view w') = [e]"
    and "ServiceDeregister api i w = (None, w') \<Longrightarrow> instances_of i (view w') = []"
    and "PassTTL api (checkID i) out w = (None, w') \<Longrightarrow>
      instances_of i (view w') = map (set_check ''passing'' (checkID i)) (instances_of i (view w))"
    and "WarnTTL api (checkID i) out w = (None, w') \<Longrightarrow>
      instances_of i (view w') = map (set_check ''warning'' (checkID i)) (instances_of i (view w))"
    and "FailTTL api (checkID i) out w = (None, w') \<Longrightarrow>
      instances_of i (view w') = map (set_check ''critical'' (checkID i)) (instances_of i (view w))"
  using assms unfolding consul_catalog_def by metis+

lemma consul_isolatesD:
  assumes "consul_isolates api view" and "i \<noteq> j"
  shows "asr_ID reg = j \<Longrightarrow> instances_of i (view (snd (ServiceRegister api reg w))) = instances_of i (view w)"
    and "instances_of i (view (snd (ServiceDeregister api j w))) = instances_of i (view w)"
    and "instances_of i (view (snd (PassTTL api (checkID j) out w))) = instances_of i (view w)"
    and "instances_of i (view (snd (WarnTTL api (checkID j) out w))) = instances_of i (view w)"
    and "instances_of i (view (snd (FailTTL api (checkID j) out w))) = instances_of i (view w)"
  using assms by (auto simp: consul_isolates_def)

text \<open>The checks of a listed instance other than the service's own TTL check.\<close>

definition other_checks :: "string \<Rightarrow> ServiceEntry \<Rightarrow> HealthCheck list" where
  "other_checks sid e = filter (\<lambda>c. hc_CheckID c \<noteq> checkID sid) (entry_Checks e)"

lemma pass_check_other [simp]: "other_checks sid (pass_check (checkID sid) e) = other_checks sid e"
  by (auto simp: other_checks_def pass_check_def filter_map comp_def intro!: map_idI filter_cong)

lemma pass_check_service [simp]: "entry_Service (pass_check cid e) = entry_Service e"
  by (simp add: pass_check_def)

lemma mapHealthStatus_all_passing:
  "cs \<noteq> [] \<Longrightarrow> \<forall>c \<in> set cs. hc_Status c = ''passing'' \<Longrightarrow> mapHealthStatus cs = HealthHealthy"
  by (simp add: mapHealthStatus_def list_ex_iff list_all_iff)

lemma pass_check_healthy:
  assumes "checkID sid \<in> hc_CheckID ` set (entry_Checks e)"
    and "list_all (\<lambda>c. hc_Status c = ''passing'') (other_checks sid e)"
  shows "mapHealthStatus (entry_Checks (pass_check (checkID sid) e)) = HealthHealthy"
  using assms
  by (intro mapHealthStatus_all_passing)
    (auto simp: pass_check_def other_checks_def list_all_iff)

lemma Register_lists:
  assumes "consul_lists_registered api" and "consul_ttl_passes api"
    and "ServiceRegister api (consulReg reg) w = (None, w1)"
    and "PassTTL api (checkID (reg_ServiceID reg)) ''Service registered'' w1 = (None, w2)"
    and "gm_wf (reg_Metadata reg)"
  shows "\<exists>r' es e. Registry_Register api now reg r w = (None, r', w2) \<and>
    Health_Service api (reg_ServiceName reg) w2 = Inr es \<and> e \<in> set es \<and>
    Registry_GetInstances api (reg_ServiceName reg) r' w2 = Inr (map (toInstance r') es) \<and>
    ServiceID (toInstance r' e) = reg_ServiceID reg \<and>
    ServiceName (toInstance r' e) = reg_ServiceName reg \<and>
    Address (toInstance r' e) = reg_Address reg \<and> Port (toInstance r' e) = reg_Port reg \<and>
    gm_get (Metadata (toInstance r' e)) = gm_get (reg_Metadata reg) \<and>
    RegisteredAt (toInstance r' e) = now \<and>
    (list_all (\<lambda>c. hc_Status c = ''passing'') (other_checks (reg_ServiceID reg) e) \<longrightarrow>
       Status (toInstance r' e) = HealthHealthy)"
proof -
  let ?r = "r\<lparr>registrationTimes := gm_set (reg_ServiceID reg) now (registrationTimes r)\<rparr>"
  obtain es e where es: "Health_Service api (reg_ServiceName reg) w1 = Inr es" "e \<in> set es"
      and e: "lists_registration (consulReg reg) e"
    using assms(1,3) unfolding consul_lists_registered_def by (force simp: consulReg_def)
  let ?e = "pass_check (checkID (reg_ServiceID reg)) e"
    and ?es = "map (pass_check (checkID (reg_ServiceID reg))) es"
  have es': "Health_Service api (reg_ServiceName reg) w2 = Inr ?es" "?e \<in> set ?es"
    using assms(2,4) es unfolding consul_ttl_passes_def by auto
  have reg: "Registry_Register api now reg r w = (None, ?r, w2)"
    using assms(3,4) by (simp add: Registry_Register_def)
  have get: "Registry_GetInstances api (reg_ServiceName reg) ?r w2 = Inr (map (toInstance ?r) ?es)"
    using es' by (simp add: Registry_GetInstances_def)
  have fields: "ServiceID (toInstance ?r ?e) = reg_ServiceID reg"
    "ServiceName (toInstance ?r ?e) = reg_ServiceName reg"
    "Address (toInstance ?r ?e) = reg_Address reg" "Port (toInstance ?r ?e) = reg_Port reg"
    "gm_get (Metadata (toInstance ?r ?e)) = gm_get (reg_Metadata reg)"
    "RegisteredAt (toInstance ?r ?e) = now"
    using e assms(5)
    by (simp_all add: toInstance_def lists_registration_def consulReg_def Let_def gm_get_or_def gm_simps)
  have "list_all (\<lambda>c. hc_Status c = ''passing'') (other_checks (reg_ServiceID reg) ?e) \<longrightarrow>
      Status (toInstance ?r ?e) = HealthHealthy"
    using pass_check_healthy [of "reg_ServiceID reg" e] e
    by (auto simp: toInstance_def lists_registration_def consulReg_def Let_def)
  then show ?thesis using reg es' get fields by blast
qed

section \<open>Properties\<close>

text \<open>A Consul agent in memory, which satisfies the two laws.\<close>

definition mem_consul :: "ServiceEntry list consul_api" where
  "mem_consul =
     \<lparr>ServiceRegister = (\<lambda>reg w. (None,
        \<lparr>entry_Service = \<lparr>as_ID = asr_ID reg, as_Service = asr_Name reg, as_Address = asr_Address reg,
            as_Port = asr_Port reg, as_Meta = asr_Meta reg\<rparr>,
         entry_Checks = [\<lparr>hc_CheckID = CheckID (asr_Check reg), hc_Status = ''critical''\<rparr>]\<rparr>
        # filter (\<lambda>e. as_ID (entry_Service e) \<noteq> asr_ID reg) w)),
      ServiceDeregister = (\<lambda>i w. (None, filter (\<lambda>e. as_ID (entry_Service e) \<noteq> i) w)),
      PassTTL = (\<lambda>cid _ w. (None, map (pass_check cid) w)),
      WarnTTL = (\<lambda>_ _ w. (None, w)), FailTTL = (\<lambda>_ _ w. (None, w)),
      Health_Service = (\<lambda>n w. Inr (filter (\<lambda>e. as_Service (entry_Service e) = n) w)),
      Catalog_Services = (\<lambda>w. Inr (map (\<lambda>n. (n, [])) (remdups (map (\<lambda>e. as_Service (entry_Service e)) w)))),
      Agent_Service = (\<lambda>i w. Inr None)\<rparr>"

lemma mem_consul_laws: "consul_lists_registered mem_consul" "consul_ttl_passes mem_consul"
  by (auto simp: consul_lists_registered_def consul_ttl_passes_def mem_consul_def
      lists_registration_def filter_map comp_def)

text \<open>An agent that keeps every kind of TTL update, for the instance that the check is named after.\<close>

definition set_own_check :: "string \<Rightarrow> string \<Rightarrow> ServiceEntry \<Rightarrow> ServiceEntry" where
  "set_own_check status cid e = (if checkID (as_ID (entry_Service e)) = cid then set_check status cid e else e)"

definition mem_agent :: "ServiceEntry list consul_api" where
  "mem_agent = mem_consul
     \<lparr>PassTTL := (\<lambda>cid _ w. (None, map (set_own_check ''passing'' cid) w)),
      WarnTTL := (\<lambda>cid _ w. (None, map (set_own_check ''warning'' cid) w)),
      FailTTL := (\<lambda>cid _ w. (None, map (set_own_check ''critical'' cid) w))\<rparr>"

lemma checkID_inj [simp]: "checkID i = checkID j \<longleftrightarrow> i = j"
  by (simp add: checkID_def)

lemma set_own_check_service [simp]: "entry_Service (set_own_check st cid e) = entry_Service e"
  by (simp add: set_own_check_def set_check_def)

lemma instances_of_own_check:
  "instances_of i (map (set_own_check st (checkID j)) w) =
     (if i = j then map (set_check st (checkID i)) (instances_of i w) else instances_of i w)"
  by (induction w) (auto simp: instances_of_def set_own_check_def set_check_def)

lemma mem_agent_laws: "consul_catalog mem_agent (\<lambda>w. w)" "consul_isolates mem_agent (\<lambda>w. w)"
proof -
  show "consul_catalog mem_agent (\<lambda>w. w)"
    by (auto simp: consul_catalog_def mem_agent_def mem_consul_def instances_of_own_check)
      (auto simp: instances_of_def lists_registration_def filter_empty_conv)
  show "consul_isolates mem_agent (\<lambda>w. w)"
    by (auto simp: consul_isolates_def mem_agent_def mem_consul_def instances_of_own_check)
      (auto simp: instances_of_def filter_filter intro!: filter_cong)
qed

text \<open>The health of an instance is the worst of its checks, in the order healthy, unknown,
  degraded, unhealthy: a critical check or one in maintenance outweighs a warning, a warning
  outweighs an unrecognised status, and only an instance whose checks all pass is healthy. So
  neither the order in which Consul lists the checks nor a repeated check matters. An instance
  without checks is of unknown health.\<close>

theorem health_is_worst_check:
  "mapHealthStatus cs = (if cs = [] then HealthUnknown else Max (check_health ` set cs))"
  by (simp add: mapHealthStatus_Max mapHealthStatus_def [of "[]"])

text \<open>The time to live that Consul is asked for: whatever interval a registration carries,
  even one whose conversion to nanoseconds overflows, the TTL is at least ten seconds; and for
  an interval that fits the 32 bits of the protocol it is exactly the interval (30 seconds by
  default) plus five seconds, but not under ten.\<close>

theorem ttl_bounds:
  "10 * Second \<le> ttlWithBuffer hc \<and>
   ((\<forall>c. hc = Some c \<longrightarrow> is_int32 (IntervalSeconds c)) \<longrightarrow>
      ttlWithBuffer hc = ttl_seconds hc * Second)"
  using ttlWithBuffer_lower ttlWithBuffer_exact by blast

theorem ttl_bounds_witness:
  "ttlWithBuffer (Some \<lparr>Endpoint = [], IntervalSeconds = 2147483647, TimeoutSeconds = 0,
      UnhealthyThreshold = 0\<rparr>) = 2147483652 * Second"
  using ttl_bounds [of "Some \<lparr>Endpoint = [], IntervalSeconds = 2147483647, TimeoutSeconds = 0,
      UnhealthyThreshold = 0\<rparr>"]
  by (simp add: ttl_seconds_def int_range_defs)

end
