(* ===== verification/Go_Net.thy ===== *)
theory Go_Net
  imports Mesh_Types
begin

text \<open>
  What the program uses of Go's \<^verbatim>\<open>net\<close> and \<^verbatim>\<open>net/http\<close> packages: host and port strings, the parser
  of IP addresses with the two address classes the program asks for, header maps, requests,
  and the response writer with \<^verbatim>\<open>http.Error\<close> and \<^verbatim>\<open>http.NotFound\<close>.
\<close>

section \<open>Hosts and ports\<close>

definition JoinHostPort :: "string \<Rightarrow> string \<Rightarrow> string" where
  "JoinHostPort host port =
     (if IndexByte host CHR '':'' \<noteq> None then ''['' @ host @ '']:'' @ port else host @ '':'' @ port)"

text \<open>\<open>None\<close> is the error; its host is the empty string.\<close>

definition SplitHostPort :: "string \<Rightarrow> (string \<times> string) option" where
  "SplitHostPort hostport =
     (case LastIndexByte hostport CHR '':'' of
        None \<Rightarrow> None
      | Some i \<Rightarrow>
          (let port = drop (Suc i) hostport in
           if hd hostport = CHR ''['' then
             (case IndexByte hostport CHR '']'' of
                None \<Rightarrow> None
              | Some e \<Rightarrow>
                  if Suc e \<noteq> i then None
                  else if IndexByte (drop 1 hostport) CHR ''['' \<noteq> None
                        \<or> IndexByte (drop (Suc e) hostport) CHR '']'' \<noteq> None then None
                  else Some (drop 1 (take e hostport), port))
           else (let host = take i hostport in
             if IndexByte host CHR '':'' \<noteq> None \<or> IndexByte hostport CHR ''['' \<noteq> None
                \<or> IndexByte hostport CHR '']'' \<noteq> None then None
             else Some (host, port))))"

section \<open>IP addresses\<close>

text \<open>An address is its 16 bytes; an IPv4 address is mapped into IPv6.\<close>

type_synonym ip = "nat list"

definition v4prefix :: "nat list" where
  "v4prefix = replicate 10 0 @ [255, 255]"

definition octet :: "string \<Rightarrow> nat option" where
  "octet s =
     (if s = [] \<or> (1 < length s \<and> hd s = CHR ''0'') then None
      else (case parse_digits s 0 of
              None \<Rightarrow> None
            | Some n \<Rightarrow> if n \<le> 255 then Some n else None))"

definition parseIPv4 :: "string \<Rightarrow> nat list option" where
  "parseIPv4 s =
     (case map octet (Split s CHR ''.'') of
        [Some a, Some b, Some c, Some d] \<Rightarrow> Some [a, b, c, d]
      | _ \<Rightarrow> None)"

definition hex_val :: "char \<Rightarrow> nat option" where
  "hex_val c =
     (let b = byte c in
      if 48 \<le> b \<and> b \<le> 57 then Some (b - 48)
      else if 97 \<le> b \<and> b \<le> 102 then Some (b - 87)
      else if 65 \<le> b \<and> b \<le> 70 then Some (b - 55)
      else None)"

definition hex_number :: "string \<Rightarrow> nat" where
  "hex_number g = fold (\<lambda>c acc. acc * 16 + (case hex_val c of None \<Rightarrow> 0 | Some v \<Rightarrow> v)) g 0"

text \<open>The loop of the IPv6 parser: groups left, the rest of the input, the bytes so far and
  the place of the ellipsis.\<close>

fun parse6 ::
  "nat \<Rightarrow> string \<Rightarrow> nat list \<Rightarrow> nat option \<Rightarrow> (string \<times> nat list \<times> nat option) option" where
  "parse6 0 s bs e = Some (s, bs, e)"
| "parse6 (Suc n) s bs e =
     (let g = takeWhile (\<lambda>c. hex_val c \<noteq> None) s; rest = drop (length g) s in
      if g = [] \<or> 4 < length g then None
      else if rest \<noteq> [] \<and> hd rest = CHR ''.'' then
        (if (e = None \<and> length bs \<noteq> 12) \<or> 12 < length bs then None
         else (case parseIPv4 s of None \<Rightarrow> None | Some q \<Rightarrow> Some ([], bs @ q, e)))
      else (let bs' = bs @ [hex_number g div 256, hex_number g mod 256] in
        case rest of
          [] \<Rightarrow> Some ([], bs', e)
        | c # r \<Rightarrow>
            if c \<noteq> CHR '':'' \<or> r = [] then None
            else if hd r = CHR '':'' then
              (if e \<noteq> None then None
               else if tl r = [] then Some ([], bs', Some (length bs'))
               else parse6 n (tl r) bs' (Some (length bs')))
            else parse6 n r bs' e))"

definition parseIPv6 :: "string \<Rightarrow> ip option" where
  "parseIPv6 s =
     (if s = ''::'' then Some (replicate 16 0)
      else (let lead = HasPrefix s ''::'' in
        case parse6 8 (if lead then drop 2 s else s) [] (if lead then Some 0 else None) of
          None \<Rightarrow> None
        | Some (rest, bs, e) \<Rightarrow>
            if rest \<noteq> [] then None
            else if length bs < 16 then
              (case e of
                 None \<Rightarrow> None
               | Some k \<Rightarrow> Some (take k bs @ replicate (16 - length bs) 0 @ drop k bs))
            else if e \<noteq> None then None else Some bs))"

text \<open>\<^verbatim>\<open>net.ParseIP\<close>; an address with a zone is not an IP address.\<close>

definition ParseIP :: "string \<Rightarrow> ip option" where
  "ParseIP s =
     (if CHR ''%'' \<in> set s then None
      else (case dropWhile (\<lambda>c. c \<noteq> CHR ''.'' \<and> c \<noteq> CHR '':'') s of
              [] \<Rightarrow> None
            | c # _ \<Rightarrow>
                if c = CHR ''.'' then map_option (\<lambda>q. v4prefix @ q) (parseIPv4 s)
                else parseIPv6 s))"

definition IsLoopback :: "ip \<Rightarrow> bool" where
  "IsLoopback i =
     (if take 12 i = v4prefix then i ! 12 = 127 else i = replicate 15 0 @ [1])"

definition IsUnspecified :: "ip \<Rightarrow> bool" where
  "IsUnspecified i \<longleftrightarrow> i = v4prefix @ [0, 0, 0, 0] \<or> i = replicate 16 0"

section \<open>Headers\<close>

type_synonym header = "(string, string list) gomap"

definition is_token_byte :: "char \<Rightarrow> bool" where
  "is_token_byte c \<longleftrightarrow>
     (let b = byte c in (48 \<le> b \<and> b \<le> 57) \<or> (65 \<le> b \<and> b \<le> 90) \<or> (97 \<le> b \<and> b \<le> 122)
        \<or> c \<in> set ''!#$%&*+-.^_|~'' \<or> b \<in> {39, 96})"

definition upper_char :: "char \<Rightarrow> char" where
  "upper_char c = (if 97 \<le> byte c \<and> byte c \<le> 122 then char_of (byte c - 32) else c)"

fun canon_chars :: "bool \<Rightarrow> string \<Rightarrow> string" where
  "canon_chars up [] = []"
| "canon_chars up (c # cs) =
     (if up then upper_char c else lower_char c) # canon_chars (c = CHR ''-'') cs"

definition CanonicalHeaderKey :: "string \<Rightarrow> string" where
  "CanonicalHeaderKey s = (if list_all is_token_byte s then canon_chars True s else s)"

definition Header_Get :: "header \<Rightarrow> string \<Rightarrow> string" where
  "Header_Get h k =
     (case gm_get h (CanonicalHeaderKey k) of Some (v # _) \<Rightarrow> v | _ \<Rightarrow> [])"

definition Header_Set :: "string \<Rightarrow> string \<Rightarrow> header \<Rightarrow> header" where
  "Header_Set k v h = gm_set (CanonicalHeaderKey k) [v] h"

definition Header_Add :: "string \<Rightarrow> string \<Rightarrow> header \<Rightarrow> header" where
  "Header_Add k v h =
     gm_set (CanonicalHeaderKey k) (gm_get_or [] h (CanonicalHeaderKey k) @ [v]) h"

definition Header_Del :: "string \<Rightarrow> header \<Rightarrow> header" where
  "Header_Del k h = gm_del (CanonicalHeaderKey k) h"

text \<open>The loop \<^verbatim>\<open>for k, vv := range src { for _, v := range vv { dst.Add(k, v) } }\<close>.\<close>

definition Header_AddAll :: "header \<Rightarrow> header \<Rightarrow> header" where
  "Header_AddAll src dst =
     fold (\<lambda>e h. fold (\<lambda>v h. Header_Add (fst e) v h) (snd e) h) src dst"

section \<open>Requests and response writers\<close>

text \<open>A request body: its bytes, a reader that fails past a limit, or one that is closed.\<close>

datatype body = Body string | MaxBytesReader body nat | ClosedBody

record request =
  Method :: string
  URL_Path :: string
  EscapedPath :: string
  RawQuery :: string
  req_Header :: header
  RemoteAddr :: string
  req_Host :: string
  URL_Host :: string
  req_Body :: body

text \<open>The writer: the header map, the status line and header snapshot once they are sent, the
  bytes of the body, whether a call panicked (after which nothing else is written), and the
  argument of the handler's last \<^verbatim>\<open>WriteHeader\<close> call, which the logging middleware's
  \<^verbatim>\<open>responseWriter\<close> remembers.\<close>

record writer =
  rw_Header :: header
  rw_wrote :: "(go_int \<times> header) option"
  rw_body :: string
  rw_panic :: bool
  rw_statusCode :: go_int

definition new_writer :: writer where
  "new_writer = \<lparr>rw_Header = [], rw_wrote = None, rw_body = [], rw_panic = False,
      rw_statusCode = 200\<rparr>"

definition sendHeader :: "go_int \<Rightarrow> writer \<Rightarrow> writer" where
  "sendHeader code w =
     (if rw_panic w then w
      else if rw_wrote w \<noteq> None then w
      else if code < 100 \<or> 999 < code then w\<lparr>rw_panic := True\<rparr>
      else if code \<le> 199 \<and> code \<noteq> 101 then w
      else w\<lparr>rw_wrote := Some (code, rw_Header w)\<rparr>)"

definition WriteHeader :: "go_int \<Rightarrow> writer \<Rightarrow> writer" where
  "WriteHeader code w = (if rw_panic w then w else sendHeader code (w\<lparr>rw_statusCode := code\<rparr>))"

definition bodyAllowed :: "go_int \<Rightarrow> bool" where
  "bodyAllowed code \<longleftrightarrow> \<not> (100 \<le> code \<and> code \<le> 199) \<and> code \<noteq> 204 \<and> code \<noteq> 304"

definition Write :: "string \<Rightarrow> writer \<Rightarrow> writer" where
  "Write s w0 =
     (let w = (if rw_wrote w0 = None then sendHeader 200 w0 else w0)
      in if rw_panic w then w
         else (case rw_wrote w of
                 None \<Rightarrow> w
               | Some (code, _) \<Rightarrow> if bodyAllowed code then w\<lparr>rw_body := rw_body w @ s\<rparr> else w))"

definition on_header :: "(header \<Rightarrow> header) \<Rightarrow> writer \<Rightarrow> writer" where
  "on_header f w = (if rw_panic w then w else w\<lparr>rw_Header := f (rw_Header w)\<rparr>)"

definition http_Error :: "string \<Rightarrow> go_int \<Rightarrow> writer \<Rightarrow> writer" where
  "http_Error msg code w =
     Write (msg @ [CHR 0x0A]) (WriteHeader code
       (on_header (\<lambda>h. Header_Set ''X-Content-Type-Options'' ''nosniff''
          (Header_Set ''Content-Type'' ''text/plain; charset=utf-8''
             (Header_Del ''Content-Length'' h))) w))"

definition NotFound :: "writer \<Rightarrow> writer" where
  "NotFound w = http_Error ''404 page not found'' 404 w"

text \<open>The status the client receives when the handler has returned.\<close>

definition status_sent :: "writer \<Rightarrow> go_int" where
  "status_sent w = (case rw_wrote w of Some (code, _) \<Rightarrow> code | None \<Rightarrow> 200)"

section \<open>Lemmas\<close>

lemma Header_Get_Set [simp]: "Header_Get (Header_Set k v h) k = v"
  by (simp add: Header_Get_def Header_Set_def gm_simps)

lemma Header_Get_Set_other:
  "CanonicalHeaderKey j \<noteq> CanonicalHeaderKey k \<Longrightarrow> Header_Get (Header_Set k v h) j = Header_Get h j"
  by (simp add: Header_Get_def Header_Set_def gm_simps)

lemma Header_Get_Del [simp]: "Header_Get (Header_Del k h) k = []"
  by (simp add: Header_Get_def Header_Del_def gm_simps)

definition fresh_writer :: "writer \<Rightarrow> bool" where
  "fresh_writer w \<longleftrightarrow> rw_wrote w = None \<and> \<not> rw_panic w \<and> rw_body w = []"

lemma fresh_new [simp]: "fresh_writer new_writer"
  by (simp add: fresh_writer_def new_writer_def)

lemma fresh_on_header [simp]: "fresh_writer (on_header f w) = fresh_writer w"
  by (simp add: fresh_writer_def on_header_def)

lemma http_Error_status:
  "fresh_writer w \<Longrightarrow> 200 \<le> code \<Longrightarrow> code \<le> 999 \<Longrightarrow>
     status_sent (http_Error msg code w) = code \<and> rw_wrote (http_Error msg code w) \<noteq> None \<and>
     \<not> rw_panic (http_Error msg code w)"
  by (auto simp: http_Error_def Write_def WriteHeader_def sendHeader_def on_header_def fresh_writer_def
      status_sent_def Let_def split: option.splits)

lemma LastIndexByte_snoc: "c \<notin> set t \<Longrightarrow> LastIndexByte (s @ c # t) c = Some (length s)"
proof (induction s)
  case Nil
  have "LastIndexByte t c = None" if "c \<notin> set t" using that by (induction t) auto
  then show ?case using Nil by simp
qed simp

lemma JoinHostPort_colon: "CHR '':'' \<in> set h \<Longrightarrow> JoinHostPort h p = ''['' @ h @ '']:'' @ p"
  by (simp add: JoinHostPort_def IndexByte_None)

text \<open>Joining a host and a port and splitting them again.\<close>

lemma Split_JoinHostPort:
  assumes "CHR ''['' \<notin> set h" "CHR '']'' \<notin> set h"
    and "CHR '':'' \<notin> set p" "CHR ''['' \<notin> set p" "CHR '']'' \<notin> set p"
  shows "SplitHostPort (JoinHostPort h p) = Some (h, p)"
proof (cases "CHR '':'' \<in> set h")
  case True
  have last: "LastIndexByte (''['' @ h @ '']:'' @ p) CHR '':'' = Some (length h + 2)"
    using LastIndexByte_snoc [of "CHR '':''" p "''['' @ h @ '']''"] assms by simp
  have first: "IndexByte (''['' @ h @ '']:'' @ p) CHR '']'' = Some (Suc (length h))"
    using IndexByte_append [of "CHR '']''" "''['' @ h" "'':'' @ p"] assms by simp
  show ?thesis using True assms last first
    by (simp add: JoinHostPort_colon SplitHostPort_def Let_def) (simp add: IndexByte_None)
next
  case False
  then have "JoinHostPort h p = h @ CHR '':'' # p" by (simp add: JoinHostPort_def IndexByte_None)
  moreover have "hd (h @ CHR '':'' # p) \<noteq> CHR ''[''" using assms by (cases h) auto
  ultimately show ?thesis using False assms LastIndexByte_snoc [of "CHR '':''" p h]
    by (simp add: SplitHostPort_def Let_def) (simp add: IndexByte_None)
qed

end
