(* ===== verification/Health_Worker.thy ===== *)
theory Health_Worker
  imports Circuit_Breaker Health_Cache Messaging Go_Net
begin

text \<open>
  The probe worker of \<^verbatim>\<open>internal/healthmonitor/worker.go\<close> and its \<^verbatim>\<open>config.go\<close>. What the network
  and the clock answer during one probe is an argument, the record \<open>probe_env\<close>; the answers of
  the Consul registry are arguments of the cycle; and the publisher is the argument \<open>pub\<close>, what
  a publish call does to the state \<open>'p\<close> of the message bus (the worker drops its error).

  A probe is also given as a thread of atomic steps, because the worker runs the probes of a
  cycle concurrently; every interleaving of the threads is shown to have the effect of running
  the probes one after the other.
\<close>

section \<open>Configuration and state\<close>

record hm_Config =
  ProbeInterval :: duration
  HTTPTimeout :: duration
  TCPTimeout :: duration
  FailureThreshold :: go_int
  RecoveryThreshold :: go_int
  HTTPHeaders :: "(string, string) gomap"

definition hm_DefaultConfig :: hm_Config where
  "hm_DefaultConfig =
     \<lparr>ProbeInterval = 30 * Second, HTTPTimeout = 5 * Second, TCPTimeout = 3 * Second,
      FailureThreshold = 3, RecoveryThreshold = 2, HTTPHeaders = []\<rparr>"

record 'p Worker =
  w_config :: hm_Config
  w_cache :: Cache
  w_breakers :: "(string, CircuitBreaker) gomap"
  w_pub :: 'p

definition NewWorker :: "'p \<Rightarrow> Cache \<Rightarrow> hm_Config \<Rightarrow> 'p Worker" where
  "NewWorker publisher cache config =
     \<lparr>w_config = config, w_cache = cache, w_breakers = [], w_pub = publisher\<rparr>"

text \<open>
  One probe's view of the outside: the request constructor, the HTTP client, the dialer, and
  the clock readings in \<^verbatim>\<open>Allow\<close>, \<^verbatim>\<open>RecordFailure\<close>, \<^verbatim>\<open>Update\<close>, the event and \<^verbatim>\<open>Publish\<close>.
\<close>

record probe_env =
  pe_NewRequest :: "string \<Rightarrow> error option"
  pe_Do :: "string \<Rightarrow> header \<Rightarrow> duration \<Rightarrow> error + go_int"
  pe_Dial :: "string \<Rightarrow> duration \<Rightarrow> error option"
  allow_at :: time
  failure_at :: time
  update_at :: time
  event_at :: time
  stamp_at :: time
  publish_at :: "time \<times> time"

section \<open>Operations\<close>

definition getBreaker :: "string \<Rightarrow> 'p Worker \<Rightarrow> CircuitBreaker \<times> 'p Worker" where
  "getBreaker serviceID w =
     (case gm_get (w_breakers w) serviceID of
        Some cb \<Rightarrow> (cb, w)
      | None \<Rightarrow>
          (let breakDur = wrap64 (ProbeInterval (w_config w) * 2);
               cb = NewCircuitBreakerWithRecovery (FailureThreshold (w_config w))
                      (RecoveryThreshold (w_config w)) breakDur
           in (cb, w\<lparr>w_breakers := gm_set serviceID cb (w_breakers w)\<rparr>)))"

definition httpProbe :: "hm_Config \<Rightarrow> probe_env \<Rightarrow> Instance \<Rightarrow> string \<Rightarrow> HealthStatus \<times> string" where
  "httpProbe config env inst endpoint =
     (let scheme = (case meta_nonempty (Metadata inst) ''scheme'' of Some s \<Rightarrow> s | None \<Rightarrow> ''http'');
          url = scheme @ ''://'' @ Address inst @ '':'' @ Itoa (Port inst) @ endpoint
      in case pe_NewRequest env url of
           Some err \<Rightarrow> (HealthUnhealthy, ''request error: '' @ err)
         | None \<Rightarrow>
             (let hdr = fold (\<lambda>e h. Header_Set (fst e) (snd e) h) (HTTPHeaders config) []
              in case pe_Do env url hdr (HTTPTimeout config) of
                   Inl err \<Rightarrow> (HealthUnhealthy, ''probe failed: '' @ err)
                 | Inr code \<Rightarrow>
                     if 200 \<le> code \<and> code < 300 then (HealthHealthy, ''HTTP '' @ Itoa code)
                     else (HealthUnhealthy, ''HTTP '' @ Itoa code)))"

definition tcpProbe :: "hm_Config \<Rightarrow> probe_env \<Rightarrow> Instance \<Rightarrow> string \<Rightarrow> HealthStatus \<times> string" where
  "tcpProbe config env inst portStr =
     (let addr = JoinHostPort (Address inst) portStr
      in case pe_Dial env addr (TCPTimeout config) of
           Some err \<Rightarrow> (HealthUnhealthy, ''TCP connection failed: '' @ err)
         | None \<Rightarrow> (HealthHealthy, ''TCP connection successful''))"

definition runProbes :: "hm_Config \<Rightarrow> probe_env \<Rightarrow> Instance \<Rightarrow> HealthStatus \<times> string \<times> string" where
  "runProbes config env inst =
     (case meta_nonempty (Metadata inst) ''health_check_endpoint'' of
        Some endpoint \<Rightarrow>
          (let (status, msg) = httpProbe config env inst endpoint in (status, ''http'', msg))
      | None \<Rightarrow>
          (case meta_nonempty (Metadata inst) ''tcp_port'' of
             Some portStr \<Rightarrow>
               (let (status, msg) = tcpProbe config env inst portStr in (status, ''tcp'', msg))
           | None \<Rightarrow> (HealthUnknown, ''none'', ''No probe configuration available'')))"

definition updateCache ::
  "probe_env \<Rightarrow> Instance \<Rightarrow> HealthStatus \<Rightarrow> string \<Rightarrow> string \<Rightarrow> 'p Worker \<Rightarrow> 'p Worker" where
  "updateCache env inst status probeType message w =
     w\<lparr>w_cache := Update (update_at env) (ServiceID inst) (ServiceName inst) (Address inst)
         (Port inst) status probeType message (Metadata inst) (w_cache w)\<rparr>"

definition healthEvent ::
  "probe_env \<Rightarrow> Instance \<Rightarrow> HealthStatus \<Rightarrow> HealthStatus \<Rightarrow> string \<Rightarrow> event" where
  "healthEvent env inst prev status message =
     HealthChanged
       \<lparr>sh_EventID = Itoa (UnixNano (event_at env)), sh_Timestamp = stamp_at env,
        sh_CorrelationID = [], sh_ServiceID = ServiceID inst, sh_ServiceName = ServiceName inst,
        sh_PreviousStatus = HealthStatus_String prev, sh_CurrentStatus = HealthStatus_String status,
        sh_HealthCheckOutput = message\<rparr>"

definition publishChange ::
  "'p publish \<Rightarrow> probe_env \<Rightarrow> Instance \<Rightarrow> HealthStatus \<Rightarrow> HealthStatus \<Rightarrow> string \<Rightarrow> 'p Worker
     \<Rightarrow> 'p Worker" where
  "publishChange pub env inst prev status message w =
     (if prev \<noteq> status \<and> prev \<noteq> HealthUnknown
      then w\<lparr>w_pub := pub (publish_at env) (healthEvent env inst prev status message) (w_pub w)\<rparr>
      else w)"

definition updateStatus ::
  "'p publish \<Rightarrow> probe_env \<Rightarrow> Instance \<Rightarrow> HealthStatus \<Rightarrow> string \<Rightarrow> string \<Rightarrow> 'p Worker
     \<Rightarrow> 'p Worker" where
  "updateStatus pub env inst status probeType message w =
     (let previousStatus = PreviousStatus (ServiceID inst) (w_cache w)
      in publishChange pub env inst previousStatus status message
           (updateCache env inst status probeType message w))"

definition putBreaker :: "string \<Rightarrow> CircuitBreaker \<Rightarrow> 'p Worker \<Rightarrow> 'p Worker" where
  "putBreaker serviceID cb w = w\<lparr>w_breakers := gm_set serviceID cb (w_breakers w)\<rparr>"

definition probeInstance :: "'p publish \<Rightarrow> probe_env \<Rightarrow> Instance \<Rightarrow> 'p Worker \<Rightarrow> 'p Worker" where
  "probeInstance pub env inst w0 =
     (let (cb, w1) = getBreaker (ServiceID inst) w0;
          (ok, cb1) = Allow (allow_at env) cb;
          w2 = putBreaker (ServiceID inst) cb1 w1
      in if \<not> ok
         then updateStatus pub env inst HealthUnhealthy ''circuit-breaker''
                ''Circuit open due to repeated failures'' w2
         else (let (status, probeType, message) = runProbes (w_config w2) env inst;
                   cb2 = (if status = HealthHealthy then RecordSuccess cb1
                          else RecordFailure (failure_at env) cb1)
               in updateStatus pub env inst status probeType message
                    (putBreaker (ServiceID inst) cb2 w2)))"

definition evictStale :: "string list \<Rightarrow> Cache \<Rightarrow> Cache" where
  "evictStale liveIDs c =
     fold (\<lambda>m c. if mi_ServiceID m \<in> set liveIDs then c else Remove (mi_ServiceID m) c) (GetAll c) c"

text \<open>The instances that the service goroutines list; a failed listing contributes none.\<close>

definition listed :: "(string \<Rightarrow> error + Instance list) \<Rightarrow> string list \<Rightarrow> Instance list" where
  "listed getInstances services =
     concat (map (\<lambda>s. case getInstances s of Inl _ \<Rightarrow> [] | Inr xs \<Rightarrow> xs) services)"

text \<open>One cycle; probe \<open>k\<close> of the cycle runs in the environment \<open>envs k\<close>.\<close>

definition probeAll ::
  "'p publish \<Rightarrow> error + string list \<Rightarrow> (string \<Rightarrow> error + Instance list) \<Rightarrow> (nat \<Rightarrow> probe_env)
     \<Rightarrow> 'p Worker \<Rightarrow> 'p Worker" where
  "probeAll pub services getInstances envs w =
     (case services of
        Inl _ \<Rightarrow> w
      | Inr names \<Rightarrow>
          (let insts = listed getInstances names;
               w1 = fold (\<lambda>e. probeInstance pub (envs (fst e)) (snd e)) (enumerate 0 insts) w
           in w1\<lparr>w_cache := evictStale (map ServiceID insts) (w_cache w1)\<rparr>))"

text \<open>\<^verbatim>\<open>Run\<close>: a round is given by the answers of the registry and of the probes.\<close>

definition Worker_Run ::
  "'p publish \<Rightarrow> (error + string list) \<times> (string \<Rightarrow> error + Instance list) \<times> (nat \<Rightarrow> probe_env) \<Rightarrow>
   ((error + string list) \<times> (string \<Rightarrow> error + Instance list) \<times> (nat \<Rightarrow> probe_env)) select list \<Rightarrow>
   'p Worker \<Rightarrow> 'p Worker run_result" where
  "Worker_Run pub first events w =
     (let round = (\<lambda>(services, getInstances, envs). probeAll pub services getInstances envs)
      in if ProbeInterval (w_config w) \<le> 0 then Panicked w else select_loop round events (round first w))"

section \<open>Reading the worker\<close>

lemma evictStale_sweep: "evictStale live c = store.sweep (\<lambda>i. i \<in> set live) (GetAll c) c"
  by (simp add: evictStale_def store.sweep_def)

interpretation wb: get_or_create "\<lambda>w. gm_get (w_breakers w)" getBreaker
    "\<lambda>w. NewCircuitBreakerWithRecovery (FailureThreshold (w_config w))
       (RecoveryThreshold (w_config w)) (wrap64 (ProbeInterval (w_config w) * 2))"
  by unfold_locales (auto simp: getBreaker_def gm_simps Let_def split: option.splits)

lemma getBreaker_frame [simp]:
  "w_cache (snd (getBreaker i w)) = w_cache w" "w_config (snd (getBreaker i w)) = w_config w"
  "w_pub (snd (getBreaker i w)) = w_pub w"
  by (auto simp: getBreaker_def Let_def split: option.splits)

text \<open>What the probes report when they are run.\<close>

definition verdict :: "probe_env \<Rightarrow> Instance \<Rightarrow> 'p Worker \<Rightarrow> HealthStatus \<times> string \<times> string" where
  "verdict env inst w =
     (if refuses (allow_at env) (fst (getBreaker (ServiceID inst) w))
      then (HealthUnhealthy, ''circuit-breaker'', ''Circuit open due to repeated failures'')
      else runProbes (w_config w) env inst)"

definition report_of :: "probe_env \<Rightarrow> Instance \<Rightarrow> HealthStatus \<times> string \<times> string \<Rightarrow> MonitoredInstance" where
  "report_of env inst v =
     \<lparr>mi_ServiceID = ServiceID inst, mi_ServiceName = ServiceName inst, mi_Address = Address inst,
      mi_Port = Port inst, mi_Status = fst v, LastProbe = update_at env, ProbeType = fst (snd v),
      Message = snd (snd v), mi_Metadata = Metadata inst\<rparr>"

lemma updateStatus_simps [simp]:
  "w_breakers (updateStatus pub env inst st pt msg w) = w_breakers w"
  "w_config (updateStatus pub env inst st pt msg w) = w_config w"
  "w_cache (updateStatus pub env inst st pt msg w) =
     Update (update_at env) (ServiceID inst) (ServiceName inst) (Address inst) (Port inst) st pt msg
       (Metadata inst) (w_cache w)"
  "w_pub (updateStatus pub env inst st pt msg w) =
     (let prev = PreviousStatus (ServiceID inst) (w_cache w)
      in if prev \<noteq> st \<and> prev \<noteq> HealthUnknown
         then pub (publish_at env) (healthEvent env inst prev st msg) (w_pub w) else w_pub w)"
  by (simp_all add: updateStatus_def publishChange_def updateCache_def Let_def)

lemma putBreaker_simps [simp]:
  "w_breakers (putBreaker i cb w) = gm_set i cb (w_breakers w)"
  "w_config (putBreaker i cb w) = w_config w" "w_cache (putBreaker i cb w) = w_cache w"
  "w_pub (putBreaker i cb w) = w_pub w"
  by (simp_all add: putBreaker_def)

lemma getBreaker_put [simp]: "fst (getBreaker i (putBreaker i cb w)) = cb"
  by (simp add: wb.goc_val gm_simps)

text \<open>A probe, field by field: the guarded call on the breaker, then the report.\<close>

lemma probeInstance_config [simp]: "w_config (probeInstance pub env inst w) = w_config w"
  by (simp add: probeInstance_def Let_def split_beta)

lemma probeInstance_cache:
  "w_cache (probeInstance pub env inst w) =
     (let v = verdict env inst w
      in Update (update_at env) (ServiceID inst) (ServiceName inst) (Address inst) (Port inst)
           (fst v) (fst (snd v)) (snd (snd v)) (Metadata inst) (w_cache w))"
  by (simp add: probeInstance_def verdict_def Let_def split_beta Allow_iff)

lemma probeInstance_pub:
  "w_pub (probeInstance pub env inst w) =
     (let prev = PreviousStatus (ServiceID inst) (w_cache w); v = verdict env inst w
      in if prev \<noteq> fst v \<and> prev \<noteq> HealthUnknown
         then pub (publish_at env) (healthEvent env inst prev (fst v) (snd (snd v))) (w_pub w)
         else w_pub w)"
  by (simp add: probeInstance_def verdict_def Let_def split_beta Allow_iff)

lemma probeInstance_breakers:
  "gm_get (w_breakers (probeInstance pub env inst w)) =
     (gm_get (w_breakers w))(ServiceID inst \<mapsto>
        snd (cb.guarded (allow_at env) (failure_at env)
          (fst (runProbes (w_config w) env inst) = HealthHealthy)
          (fst (getBreaker (ServiceID inst) w))))"
  by (rule ext)
    (simp add: probeInstance_def cb.guarded_def Let_def split_beta gm_simps wb.goc_other)

lemma probeInstance_get:
  "Get j (w_cache (probeInstance pub env inst w)) =
     (if j = ServiceID inst then Some (report_of env inst (verdict env inst w))
      else Get j (w_cache w))"
  by (simp add: probeInstance_cache Get_def Update_def gm_simps report_of_def Let_def)

lemma PreviousStatus_Get:
  "PreviousStatus j c = (case Get j c of None \<Rightarrow> HealthUnknown | Some m \<Rightarrow> mi_Status m)"
  by (simp add: PreviousStatus_def Get_def)

section \<open>The invariant\<close>

text \<open>
  The cache is well-formed, and every breaker is, with the thresholds of the configuration.
\<close>

definition worker_wf :: "'p Worker \<Rightarrow> bool" where
  "worker_wf w \<longleftrightarrow> cache_wf (w_cache w) \<and> is_int64 (FailureThreshold (w_config w)) \<and>
     is_int64 (RecoveryThreshold (w_config w)) \<and>
     (\<forall>i cb. gm_get (w_breakers w) i = Some cb \<longrightarrow> breaker_wf cb)"

lemma worker_wf_New:
  "is_int64 (FailureThreshold c) \<Longrightarrow> is_int64 (RecoveryThreshold c) \<Longrightarrow>
     worker_wf (NewWorker p NewCache c)"
  by (simp add: worker_wf_def NewWorker_def)

lemma worker_wf_breaker: "worker_wf w \<Longrightarrow> breaker_wf (fst (getBreaker i w))"
  unfolding worker_wf_def wb.goc_val
  by (auto split: option.splits intro: breaker_wf_new_recovery)

lemma worker_wf_probe: "worker_wf w \<Longrightarrow> worker_wf (probeInstance pub env inst w)"
  using worker_wf_breaker [of w "ServiceID inst"]
  by (auto simp: worker_wf_def probeInstance_cache probeInstance_breakers Let_def cb.guarded_inv
      split: if_splits)

lemma worker_wf_fold:
  "worker_wf w \<Longrightarrow> worker_wf (fold (\<lambda>e. probeInstance pub (f e) (g e)) es w)"
  by (induction es arbitrary: w) (auto intro: worker_wf_probe)

lemma worker_wf_probeAll: "worker_wf w \<Longrightarrow> worker_wf (probeAll pub services getInstances envs w)"
proof (cases services)
  case (Inr names)
  assume "worker_wf w"
  then have "worker_wf (fold (\<lambda>e. probeInstance pub (envs (fst e)) (snd e))
      (enumerate 0 (listed getInstances names)) w)" by (rule worker_wf_fold)
  then show ?thesis using Inr
    by (simp add: probeAll_def worker_wf_def evictStale_sweep store.sweep_wf Let_def)
qed (simp add: probeAll_def)

section \<open>A cycle\<close>

lemma fold_probe_config [simp]:
  "w_config (fold (\<lambda>e. probeInstance pub (f e) (g e)) es w) = w_config w"
  by (induction es arbitrary: w) auto

lemma fold_probe_frame:
  "j \<notin> (ServiceID \<circ> g) ` set es \<Longrightarrow>
     Get j (w_cache (fold (\<lambda>e. probeInstance pub (f e) (g e)) es w)) = Get j (w_cache w)"
  by (induction es arbitrary: w) (auto simp: probeInstance_get)

lemma fold_probe_tracked:
  "j \<in> (ServiceID \<circ> g) ` set es \<or> Get j (w_cache w) \<noteq> None \<Longrightarrow>
     Get j (w_cache (fold (\<lambda>e. probeInstance pub (f e) (g e)) es w)) \<noteq> None"
  by (induction es arbitrary: w) (auto simp: probeInstance_get)

lemma snd_enumerate: "snd ` set (enumerate n xs) = set xs"
  by (metis list.set_map map_snd_enumerate)

lemma probeAll_get:
  assumes "worker_wf w"
  shows "Get j (w_cache (probeAll pub (Inr names) getInstances envs w)) =
    (if j \<in> ServiceID ` set (listed getInstances names)
     then Get j (w_cache (fold (\<lambda>e. probeInstance pub (envs (fst e)) (snd e))
       (enumerate 0 (listed getInstances names)) w)) else None)"
proof -
  let ?w = "fold (\<lambda>e. probeInstance pub (envs (fst e)) (snd e))
    (enumerate 0 (listed getInstances names)) w"
  have "worker_wf ?w" using assms by (rule worker_wf_fold)
  then have "cache_wf (w_cache ?w)" by (simp add: worker_wf_def)
  then show ?thesis
    by (simp add: probeAll_def evictStale_sweep Let_def store.sweep_all)
qed

text \<open>The IDs in the cache after a cycle are those of the instances that the registry listed.\<close>

lemma probeAll_live:
  assumes "worker_wf w"
  shows "Get j (w_cache (probeAll pub (Inr names) getInstances envs w)) \<noteq> None \<longleftrightarrow>
    j \<in> ServiceID ` set (listed getInstances names)"
proof -
  have "j \<in> (ServiceID \<circ> snd) ` set (enumerate 0 (listed getInstances names))"
    if "j \<in> ServiceID ` set (listed getInstances names)"
    using that snd_enumerate [of 0 "listed getInstances names"] by (metis image_comp)
  then show ?thesis
    using fold_probe_tracked [where g = snd and f = "\<lambda>e. envs (fst e)" and j = j and w = w
        and pub = pub and es = "enumerate 0 (listed getInstances names)"]
    by (auto simp: probeAll_get [OF assms])
qed

lemma probeAll_IDs:
  assumes "worker_wf w"
  shows "mi_ServiceID ` set (GetAll (w_cache (probeAll pub (Inr names) getInstances envs w))) =
    ServiceID ` set (listed getInstances names)"
proof -
  let ?c = "w_cache (probeAll pub (Inr names) getInstances envs w)"
  have wf: "cache_wf ?c" using worker_wf_probeAll [OF assms] by (simp add: worker_wf_def)
  have "mi_ServiceID ` set (GetAll ?c) = {j. Get j ?c \<noteq> None}"
    using cache_wf_key [OF wf] by (force simp: set_GetAll [OF wf] abs_cache_def ran_def Get_def)
  then show ?thesis by (simp only: probeAll_live [OF assms] Collect_mem_eq)
qed

interpretation worker_poll: polling "\<lambda>(services, gi, envs). probeAll pub services gi envs" worker_wf
    "\<lambda>names round w. \<forall>j. Get j (w_cache w) \<noteq> None \<longleftrightarrow> j \<in> ServiceID ` set (listed (fst round) names)" for pub
proof unfold_locales
  fix w :: "'a Worker" and names and round :: "(string \<Rightarrow> error + Instance list) \<times> (nat \<Rightarrow> probe_env)"
  assume "worker_wf w"
  then show "\<forall>j. Get j (w_cache ((\<lambda>(services, gi, envs). probeAll pub services gi envs) (Inr names, round) w)) \<noteq> None \<longleftrightarrow>
      j \<in> ServiceID ` set (listed (fst round) names)"
    using probeAll_live [of w _ pub names "fst round" "snd round"] by (simp add: split_beta)
qed (auto simp: probeAll_def intro: worker_wf_probeAll split: sum.splits)

section \<open>Probes as threads\<close>

text \<open>
  The atomic steps of a probe: taking the breaker from the map, asking it, running the probes
  (no shared state), reporting to the breaker, and the two cache calls and the publication of
  \<^verbatim>\<open>updateStatus\<close>.
\<close>

datatype probe_pc =
    AtStart
  | HasBreaker
  | Probing
  | Probed HealthStatus string string
  | Reporting HealthStatus string string
  | ReadPrevious HealthStatus HealthStatus string string
  | Updated HealthStatus HealthStatus string
  | Finished

fun probe_step :: "'p publish \<Rightarrow> probe_env \<Rightarrow> Instance \<Rightarrow> probe_pc \<times> 'p Worker \<Rightarrow> probe_pc \<times> 'p Worker" where
  "probe_step pub env inst (AtStart, w) = (HasBreaker, snd (getBreaker (ServiceID inst) w))"
| "probe_step pub env inst (HasBreaker, w) =
     (let (ok, cb) = Allow (allow_at env) (fst (getBreaker (ServiceID inst) w))
      in (if ok then Probing
          else Reporting HealthUnhealthy ''circuit-breaker'' ''Circuit open due to repeated failures'',
          putBreaker (ServiceID inst) cb w))"
| "probe_step pub env inst (Probing, w) =
     (let (st, pt, msg) = runProbes (w_config w) env inst in (Probed st pt msg, w))"
| "probe_step pub env inst (Probed st pt msg, w) =
     (let cb = fst (getBreaker (ServiceID inst) w)
      in (Reporting st pt msg,
          putBreaker (ServiceID inst) (if st = HealthHealthy then RecordSuccess cb
            else RecordFailure (failure_at env) cb) w))"
| "probe_step pub env inst (Reporting st pt msg, w) =
     (ReadPrevious (PreviousStatus (ServiceID inst) (w_cache w)) st pt msg, w)"
| "probe_step pub env inst (ReadPrevious prev st pt msg, w) =
     (Updated prev st msg, updateCache env inst st pt msg w)"
| "probe_step pub env inst (Updated prev st msg, w) =
     (Finished, publishChange pub env inst prev st msg w)"
| "probe_step pub env inst (Finished, w) = (Finished, w)"

text \<open>
  The interleavings of the probes of the instances \<open>ts\<close>: in every step one of the threads takes
  its next step.
\<close>

inductive interleaving ::
  "'p publish \<Rightarrow> (probe_env \<times> Instance) list \<Rightarrow> 'p Worker \<Rightarrow> probe_pc list \<Rightarrow> 'p Worker \<Rightarrow> bool"
  for pub ts w0 where
  start: "interleaving pub ts w0 (map (\<lambda>_. AtStart) ts) w0"
| step: "interleaving pub ts w0 pcs w \<Longrightarrow> k < length ts \<Longrightarrow>
    probe_step pub (fst (ts ! k)) (snd (ts ! k)) (pcs ! k, w) = (pc', w') \<Longrightarrow>
    interleaving pub ts w0 (pcs[k := pc']) w'"

text \<open>One after the other.\<close>

definition sequentially :: "'p publish \<Rightarrow> (probe_env \<times> Instance) list \<Rightarrow> 'p Worker \<Rightarrow> 'p Worker" where
  "sequentially pub ts w = fold (\<lambda>t. probeInstance pub (fst t) (snd t)) ts w"

definition event_for :: "string \<Rightarrow> event \<Rightarrow> bool" where
  "event_for i ev = (case ev of HealthChanged h \<Rightarrow> sh_ServiceID h = i | _ \<Rightarrow> False)"

text \<open>What there is to see of one service: its breaker, its report and its events.\<close>

definition view ::
  "string \<Rightarrow> event list Worker \<Rightarrow> hm_Config \<times> CircuitBreaker option \<times> MonitoredInstance option \<times> event list" where
  "view i w = (w_config w, gm_get (w_breakers w) i, Get i (w_cache w), filter (event_for i) (w_pub w))"

lemma updateCache_simps [simp]:
  "w_breakers (updateCache env inst st pt msg w) = w_breakers w"
  "w_config (updateCache env inst st pt msg w) = w_config w"
  "w_pub (updateCache env inst st pt msg w) = w_pub w"
  "Get j (w_cache (updateCache env inst st pt msg w)) =
     (if j = ServiceID inst then Some (report_of env inst (st, pt, msg)) else Get j (w_cache w))"
  by (simp_all add: updateCache_def Get_def Update_def gm_simps report_of_def)

lemma publishChange_simps [simp]:
  "w_breakers (publishChange pub env inst prev st msg w) = w_breakers w"
  "w_config (publishChange pub env inst prev st msg w) = w_config w"
  "w_cache (publishChange pub env inst prev st msg w) = w_cache w"
  by (simp_all add: publishChange_def)

lemma publishChange_events:
  "filter (event_for j) (w_pub (publishChange record_event env inst prev st msg w)) =
     filter (event_for j) (w_pub w) @
     (if j = ServiceID inst \<and> prev \<noteq> st \<and> prev \<noteq> HealthUnknown
      then [healthEvent env inst prev st msg] else [])"
  by (simp add: publishChange_def record_event_def event_for_def healthEvent_def)

lemma getBreaker_view: "view i w = view i w' \<Longrightarrow> fst (getBreaker i w) = fst (getBreaker i w')"
  by (auto simp: view_def wb.goc_val split: option.splits)

lemma step_frame:
  "j \<noteq> ServiceID inst \<Longrightarrow> view j (snd (probe_step record_event env inst (pc, w))) = view j w"
  by (cases pc) (simp_all add: view_def publishChange_events split_beta Let_def gm_simps wb.goc_other)

lemma step_local:
  assumes "view (ServiceID inst) w = view (ServiceID inst) w'"
  shows "fst (probe_step record_event env inst (pc, w)) = fst (probe_step record_event env inst (pc, w')) \<and>
    view (ServiceID inst) (snd (probe_step record_event env inst (pc, w))) =
    view (ServiceID inst) (snd (probe_step record_event env inst (pc, w')))"
  using assms getBreaker_view [OF assms]
  by (cases pc) (auto simp: view_def publishChange_events split_beta Let_def gm_simps wb.goc_same
      PreviousStatus_Get)

text \<open>A thread by itself: seven steps complete it, and their effect is \<^verbatim>\<open>probeInstance\<close>.\<close>

lemma probe_step_Finished: "(probe_step pub env inst ^^ n) (Finished, w) = (Finished, w)"
  by (induction n) auto

lemma view_probeInstance:
  "view j (probeInstance record_event env inst w) =
     (if j = ServiceID inst then
        (let v = verdict env inst w; prev = PreviousStatus j (w_cache w)
         in (w_config w,
             Some (snd (cb.guarded (allow_at env) (failure_at env)
               (fst (runProbes (w_config w) env inst) = HealthHealthy) (fst (getBreaker j w)))),
             Some (report_of env inst v),
             filter (event_for j) (w_pub w) @
               (if prev \<noteq> fst v \<and> prev \<noteq> HealthUnknown
                then [healthEvent env inst prev (fst v) (snd (snd v))] else [])))
      else view j w)"
  by (simp add: view_def probeInstance_breakers probeInstance_get probeInstance_pub record_event_def
      event_for_def healthEvent_def Let_def)

lemma probe_seven_steps:
  "fst ((probe_step record_event env inst ^^ 7) (AtStart, w)) = Finished \<and>
   view j (snd ((probe_step record_event env inst ^^ 7) (AtStart, w))) =
   view j (probeInstance record_event env inst w)"
proof (cases "refuses (allow_at env) (fst (getBreaker (ServiceID inst) w))")
  case True
  then show ?thesis unfolding view_probeInstance
    by (auto simp: numeral_nat split_beta Let_def wb.goc_idem Allow_refuses
        verdict_def cb.guarded_blocked view_def gm_simps publishChange_events wb.goc_other
        report_of_def)
next
  case False
  then have "fst (Allow (allow_at env) (fst (getBreaker (ServiceID inst) w)))" by (simp add: Allow_iff)
  with False show ?thesis unfolding view_probeInstance
    by (auto simp: numeral_nat split_beta Let_def wb.goc_idem
        verdict_def cb.guarded_def view_def gm_simps publishChange_events wb.goc_other
        report_of_def)
qed

text \<open>In an interleaving every thread does what it does by itself.\<close>

lemma interleaving_local:
  assumes "interleaving record_event ts w0 pcs w" and "distinct (map (ServiceID \<circ> snd) ts)"
  shows "length pcs = length ts \<and>
    (\<forall>j. j \<notin> (ServiceID \<circ> snd) ` set ts \<longrightarrow> view j w = view j w0) \<and>
    (\<forall>k < length ts. \<exists>n. let i = ServiceID (snd (ts ! k));
        s = (probe_step record_event (fst (ts ! k)) (snd (ts ! k)) ^^ n) (AtStart, w0)
      in fst s = pcs ! k \<and> view i (snd s) = view i w)"
  using assms(1)
proof (induction rule: interleaving.induct)
  case start
  have "\<exists>n. let i = ServiceID (snd (ts ! k));
      s = (probe_step record_event (fst (ts ! k)) (snd (ts ! k)) ^^ n) (AtStart, w0)
    in fst s = map (\<lambda>_. AtStart) ts ! k \<and> view i (snd s) = view i w0" if "k < length ts" for k
    using that by (intro exI [of _ 0]) (simp add: Let_def)
  then show ?case by auto
next
  case (step pcs w k pc' w')
  let ?f = "\<lambda>k. probe_step record_event (fst (ts ! k)) (snd (ts ! k))"
    and ?i = "\<lambda>k. ServiceID (snd (ts ! k))"
  have w': "w' = snd (?f k (pcs ! k, w))" and pc': "pc' = fst (?f k (pcs ! k, w))"
    using step.hyps by simp_all
  have other: "view j w' = view j w" if "j \<noteq> ?i k" for j
    using step_frame [OF that] w' by simp
  have "\<exists>n. let s = (?f m ^^ n) (AtStart, w0)
      in fst s = pcs[k := pc'] ! m \<and> view (?i m) (snd s) = view (?i m) w'" if m: "m < length ts" for m
  proof -
    obtain n where n: "fst ((?f m ^^ n) (AtStart, w0)) = pcs ! m"
        "view (?i m) (snd ((?f m ^^ n) (AtStart, w0))) = view (?i m) w"
      using step.IH m by (auto simp: Let_def)
    show ?thesis
    proof (cases "m = k")
      case True
      have "?f k ((?f k ^^ n) (AtStart, w0)) =
          ?f k (pcs ! k, snd ((?f k ^^ n) (AtStart, w0)))"
        using n(1) True by (metis prod.collapse)
      then have "(?f k ^^ Suc n) (AtStart, w0) = ?f k (pcs ! k, snd ((?f k ^^ n) (AtStart, w0)))"
        by simp
      moreover have "pcs[k := pc'] ! k = pc'" using step.IH step.hyps(2) by simp
      ultimately show ?thesis
        using step_local [OF n(2), of "fst (ts ! m)" "pcs ! m"] unfolding True w' pc' Let_def
        by (metis (no_types, lifting))
    next
      case False
      then have "?i m \<noteq> ?i k"
        using assms(2) m step.hyps(2) by (auto simp: distinct_conv_nth comp_def)
      then show ?thesis using n other False by (intro exI [of _ n]) (simp add: Let_def)
    qed
  qed
  moreover have "view j w' = view j w0" if "j \<notin> (ServiceID \<circ> snd) ` set ts" for j
  proof -
    have "?i k \<in> (ServiceID \<circ> snd) ` set ts" using step.hyps(2) by (auto intro!: imageI nth_mem)
    with that have "j \<noteq> ?i k" by blast
    with that other step.IH show ?thesis by simp
  qed
  ultimately show ?case using step.IH by (simp add: Let_def)
qed

lemma finished_after_seven:
  assumes "fst ((probe_step record_event env inst ^^ n) (AtStart, w)) = Finished"
  shows "(probe_step record_event env inst ^^ n) (AtStart, w) =
    (probe_step record_event env inst ^^ 7) (AtStart, w)"
proof -
  let ?s = "probe_step record_event env inst"
  have stable: "(?s ^^ (m + k)) (AtStart, w) = (?s ^^ m) (AtStart, w)"
    if "fst ((?s ^^ m) (AtStart, w)) = Finished" for m k
    using that probe_step_Finished [of k record_event env inst "snd ((?s ^^ m) (AtStart, w))"]
    by (metis add.commute comp_apply funpow_add prod.collapse)
  show ?thesis
  proof (cases "n \<le> 7")
    case True
    then show ?thesis using stable [OF assms, of "7 - n"] by simp
  next
    case False
    then show ?thesis using stable [of 7 "n - 7"] probe_seven_steps [of env inst w] by simp
  qed
qed

lemma view_local_probe:
  assumes "view (ServiceID inst) w = view (ServiceID inst) w'"
  shows "view (ServiceID inst) (probeInstance record_event env inst w) =
    view (ServiceID inst) (probeInstance record_event env inst w')"
  using assms getBreaker_view [OF assms] unfolding view_probeInstance
  by (auto simp: verdict_def PreviousStatus_Get view_def Let_def)

lemma sequentially_local:
  "distinct (map (ServiceID \<circ> snd) ts) \<Longrightarrow>
   view j (sequentially record_event ts w) =
     (case find (\<lambda>t. ServiceID (snd t) = j) ts of
        None \<Rightarrow> view j w
      | Some t \<Rightarrow> view j (probeInstance record_event (fst t) (snd t) w))"
proof (induction ts arbitrary: w)
  case (Cons t ts)
  let ?w = "probeInstance record_event (fst t) (snd t) w"
  have IH: "view j (sequentially record_event (t # ts) w) =
      (case find (\<lambda>t. ServiceID (snd t) = j) ts of
        None \<Rightarrow> view j ?w | Some t \<Rightarrow> view j (probeInstance record_event (fst t) (snd t) ?w))"
    using Cons by (simp add: sequentially_def)
  show ?case
  proof (cases "ServiceID (snd t) = j")
    case True
    then have "find (\<lambda>t. ServiceID (snd t) = j) ts = None"
      using Cons.prems by (auto simp: find_None_iff comp_def image_iff)
    then show ?thesis using IH True by simp
  next
    case False
    then have "view j ?w = view j w" by (simp add: view_probeInstance)
    moreover have "view j (probeInstance record_event (fst u) (snd u) ?w) =
        view j (probeInstance record_event (fst u) (snd u) w)"
      if "find (\<lambda>t. ServiceID (snd t) = j) ts = Some u" for u
    proof -
      have "ServiceID (snd u) = j" using that by (auto simp: find_Some_iff)
      then show ?thesis using view_local_probe [of "snd u" ?w w] \<open>view j ?w = view j w\<close> by blast
    qed
    ultimately show ?thesis using IH False by (simp split: option.split)
  qed
qed (simp add: sequentially_def)

text \<open>Every interleaving can be completed.\<close>

lemma interleaving_iterate:
  assumes "interleaving pub ts w0 pcs w" and "k < length ts" and "length pcs = length ts"
  shows "interleaving pub ts w0
    (pcs[k := fst ((probe_step pub (fst (ts ! k)) (snd (ts ! k)) ^^ n) (pcs ! k, w))])
    (snd ((probe_step pub (fst (ts ! k)) (snd (ts ! k)) ^^ n) (pcs ! k, w)))"
proof (induction n)
  case (Suc n)
  let ?f = "probe_step pub (fst (ts ! k)) (snd (ts ! k))"
  let ?s = "(?f ^^ n) (pcs ! k, w)"
  have "?f (pcs[k := fst ?s] ! k, snd ?s) = (fst (?f ?s), snd (?f ?s))" using assms by simp
  from interleaving.step [OF Suc assms(2) this] show ?case by simp
qed (use assms in simp)

lemma interleaving_length: "interleaving pub ts w0 pcs w \<Longrightarrow> length pcs = length ts"
  by (induction rule: interleaving.induct) auto

lemma probe_finishes: "fst ((probe_step pub env inst ^^ 7) (AtStart, w)) = Finished"
  by (cases "fst (Allow (allow_at env) (fst (getBreaker (ServiceID inst) w)))")
    (simp_all add: numeral_nat split_beta Let_def wb.goc_idem)

lemma interleaving_prefix_done:
  "n \<le> length ts \<Longrightarrow> \<exists>w. interleaving pub ts w0
     (replicate n Finished @ replicate (length ts - n) AtStart) w"
proof (induction n)
  case 0
  have "map (\<lambda>_. AtStart) ts = replicate (length ts) AtStart" by (simp add: map_replicate_const)
  then show ?case using interleaving.start [of pub ts w0] by auto
next
  case (Suc n)
  then obtain w where w: "interleaving pub ts w0
      (replicate n Finished @ replicate (length ts - n) AtStart) w" by auto
  let ?pcs = "replicate n Finished @ replicate (length ts - n) AtStart"
  have "?pcs ! n = AtStart" using Suc.prems by (simp add: nth_append)
  then have "interleaving pub ts w0 (?pcs[n := Finished])
      (snd ((probe_step pub (fst (ts ! n)) (snd (ts ! n)) ^^ 7) (AtStart, w)))"
    using interleaving_iterate [OF w, of n 7] Suc.prems by (simp add: probe_finishes)
  moreover have "?pcs[n := Finished] = replicate (Suc n) Finished @ replicate (length ts - Suc n) AtStart"
    using Suc.prems by (intro nth_equalityI) (auto simp: nth_append nth_list_update nth_Cons')
  ultimately show ?case by auto
qed

lemma interleaving_complete: "\<exists>w. interleaving pub ts w0 (replicate (length ts) Finished) w"
  using interleaving_prefix_done [of "length ts" ts pub w0] by simp

section \<open>Instances without a probe\<close>

definition no_probe :: "Instance \<Rightarrow> bool" where
  "no_probe inst \<longleftrightarrow> meta_nonempty (Metadata inst) ''health_check_endpoint'' = None \<and>
     meta_nonempty (Metadata inst) ''tcp_port'' = None"

lemma runProbes_none: "no_probe inst \<Longrightarrow>
    runProbes c env inst = (HealthUnknown, ''none'', ''No probe configuration available'')"
  by (simp add: no_probe_def runProbes_def)

definition probes_of :: "'p publish \<Rightarrow> Instance \<Rightarrow> probe_env list \<Rightarrow> 'p Worker \<Rightarrow> 'p Worker" where
  "probes_of pub inst envs w = fold (\<lambda>env. probeInstance pub env inst) envs w"

definition fresh_breaker :: "hm_Config \<Rightarrow> CircuitBreaker" where
  "fresh_breaker c = NewCircuitBreakerWithRecovery (FailureThreshold c) (RecoveryThreshold c)
     (wrap64 (ProbeInterval c * 2))"

lemma probes_of_config [simp]: "w_config (probes_of pub inst envs w) = w_config w"
  unfolding probes_of_def by (induction envs arbitrary: w) auto

lemma no_probe_breaker:
  assumes "no_probe inst" and "is_int64 (FailureThreshold c)" and "is_int64 (RecoveryThreshold c)"
  shows "int (length envs) \<le> max 1 (FailureThreshold c) \<Longrightarrow>
    fst (getBreaker (ServiceID inst) (probes_of pub inst envs (NewWorker p NewCache c))) =
      fail_at (map failure_at envs) (fresh_breaker c)"
proof (induction envs rule: rev_induct)
  case Nil
  then show ?case
    by (simp add: probes_of_def fail_at_def getBreaker_def NewWorker_def fresh_breaker_def Let_def)
next
  case (snoc env envs)
  let ?w = "probes_of pub inst envs (NewWorker p NewCache c)"
  let ?b = "fail_at (map failure_at envs) (fresh_breaker c)"
  have wf: "breaker_wf (fresh_breaker c)"
    using assms by (simp add: fresh_breaker_def breaker_wf_new_recovery)
  have "state ?b = BreakerClosed"
    using fail_at_closed [OF wf, of "map failure_at envs"] snoc.prems
    by (simp add: fresh_breaker_def NewCircuitBreakerWithRecovery_def)
  then have "Allow (allow_at env) ?b = (True, ?b)" by (simp add: Allow_def)
  then have "snd (cb.guarded (allow_at env) (failure_at env) False ?b) = RecordFailure (failure_at env) ?b"
    by (simp add: cb.guarded_def)
  then show ?case using snoc assms(1)
    by (simp add: wb.goc_val probes_of_def probeInstance_breakers runProbes_none fail_at_snoc)
qed

lemma probes_of_snoc: "probes_of pub inst (envs @ [env]) w = probeInstance pub env inst (probes_of pub inst envs w)"
  by (simp add: probes_of_def)

lemma no_probe_status:
  assumes "no_probe inst" and "is_int64 (FailureThreshold c)" and "is_int64 (RecoveryThreshold c)"
    and "int (length envs) < max 1 (FailureThreshold c)"
  shows "PreviousStatus (ServiceID inst)
    (w_cache (probes_of pub inst (envs @ [env]) (NewWorker p NewCache c))) = HealthUnknown"
proof -
  have wf: "breaker_wf (fresh_breaker c)"
    using assms by (simp add: fresh_breaker_def breaker_wf_new_recovery)
  have "state (fail_at (map failure_at envs) (fresh_breaker c)) = BreakerClosed"
    using fail_at_closed [OF wf, of "map failure_at envs"] assms(4)
    by (simp add: fresh_breaker_def NewCircuitBreakerWithRecovery_def)
  then have "\<not> refuses (allow_at env)
      (fst (getBreaker (ServiceID inst) (probes_of pub inst envs (NewWorker p NewCache c))))"
    using no_probe_breaker [OF assms(1-3), of envs pub p] assms(4) by (simp add: refuses_def)
  then show ?thesis using assms(1)
    by (simp add: probes_of_snoc PreviousStatus_Get probeInstance_get report_of_def verdict_def
        runProbes_none)
qed

section \<open>Properties\<close>

text \<open>C26: A probe records and publishes exactly the transitions. After a probe the cache holds a
  fresh report for the instance; a health-changed event with the old and the new status is
  published if and only if there was a known status before and the new one differs; and
  nothing about any other service changes.\<close>

theorem probe_publishes_transitions:
  "let i = ServiceID inst; w' = probeInstance pub env inst w;
       prev = PreviousStatus i (w_cache w); cur = PreviousStatus i (w_cache w')
   in (\<exists>m. Get i (w_cache w') = Some m \<and> mi_Status m = cur \<and> LastProbe m = update_at env \<and>
         w_pub w' = (if prev \<noteq> HealthUnknown \<and> cur \<noteq> prev
           then pub (publish_at env) (healthEvent env inst prev cur (Message m)) (w_pub w)
           else w_pub w)) \<and>
      (if j = i then True
       else Get j (w_cache w') = Get j (w_cache w) \<and>
         gm_get (w_breakers w') j = gm_get (w_breakers w) j)"
  by (auto simp: PreviousStatus_Get probeInstance_get probeInstance_breakers probeInstance_pub
      report_of_def Let_def)

text \<open>C25: After a cycle the cache holds exactly the instances that Consul listed in it: an ID is
  cached if and only if some service that was listed had its instances listed successfully
  and the ID among them. In particular an instance that left the registry is forgotten, and
  so is every instance of a service whose listing failed; a cycle that cannot list the
  services at all changes nothing.\<close>

theorem cycle_caches_listed:
  assumes "worker_wf w"
  shows "(Get j (w_cache (probeAll pub (Inr names) getInstances envs w)) \<noteq> None \<longleftrightarrow>
      (\<exists>s \<in> set names. \<exists>xs. getInstances s = Inr xs \<and> j \<in> ServiceID ` set xs)) \<and>
    probeAll pub (Inl err) getInstances envs w = w"
proof -
  have "set (listed getInstances names) = {i. \<exists>s \<in> set names. \<exists>xs. getInstances s = Inr xs \<and> i \<in> set xs}"
    by (auto simp: listed_def split: sum.splits) (metis (no_types))
  then have live: "j \<in> ServiceID ` set (listed getInstances names) \<longleftrightarrow>
      (\<exists>s \<in> set names. \<exists>xs. getInstances s = Inr xs \<and> j \<in> ServiceID ` set xs)"
    by auto
  then show ?thesis using probeAll_live [OF assms] by (simp add: probeAll_def)
qed

definition demo_probe_env :: probe_env where
  "demo_probe_env =
     \<lparr>pe_NewRequest = (\<lambda>_. None), pe_Do = (\<lambda>_ _ _. Inr 200), pe_Dial = (\<lambda>_ _. None),
      allow_at = 0, failure_at = 1, update_at = 2, event_at = 3, stamp_at = 4, publish_at = (5, 6)\<rparr>"

definition demo_target :: "string \<Rightarrow> metadata \<Rightarrow> Instance" where
  "demo_target i meta =
     \<lparr>ServiceName = ''api'', ServiceID = i, Address = ''10.0.0.1'', Port = 80,
      Status = HealthHealthy, Metadata = meta, RegisteredAt = 0, LastHealthCheck = 0\<rparr>"

abbreviation demo_worker :: "event list Worker" where
  "demo_worker \<equiv> NewWorker [] NewCache hm_DefaultConfig"

lemma demo_worker_wf: "worker_wf demo_worker"
  by (intro worker_wf_New) (simp_all add: hm_DefaultConfig_def int_range_defs)

theorem cycle_caches_listed_witness:
  "Get ''a'' (w_cache (probeAll record_event (Inr [''api'', ''web''])
     (\<lambda>s. if s = ''api'' then Inr [demo_target ''a'' []] else Inl ''timeout'')
     (\<lambda>_. demo_probe_env) demo_worker)) \<noteq> None"
  using cycle_caches_listed [OF demo_worker_wf, of "''a''" record_event "[''api'', ''web'']"
      "\<lambda>s. if s = ''api'' then Inr [demo_target ''a'' []] else Inl ''timeout''"]
  by (simp add: demo_target_def)

text \<open>C13: The concurrency of a cycle is harmless. However the steps of the probes of instances
  with different IDs are interleaved, when all of them have finished, every service has the
  breaker, the report and the published events that probing the instances one after the
  other gives it.\<close>

theorem probe_interleavings_agree:
  assumes "interleaving record_event ts w0 pcs w" and "\<forall>pc \<in> set pcs. pc = Finished"
    and "distinct (map (ServiceID \<circ> snd) ts)"
  shows "view j w = view j (sequentially record_event ts w0)"
proof (cases "find (\<lambda>t. ServiceID (snd t) = j) ts")
  case None
  then have "j \<notin> (ServiceID \<circ> snd) ` set ts" by (fastforce simp: find_None_iff)
  then show ?thesis using interleaving_local [OF assms(1,3)] None
    by (simp add: sequentially_local [OF assms(3)])
next
  case (Some t)
  then obtain k where k: "k < length ts" "t = ts ! k" "ServiceID (snd t) = j"
    by (auto simp: find_Some_iff)
  from interleaving_local [OF assms(1,3)] k obtain n where len: "length pcs = length ts"
    and n: "fst ((probe_step record_event (fst t) (snd t) ^^ n) (AtStart, w0)) = pcs ! k"
      "view j (snd ((probe_step record_event (fst t) (snd t) ^^ n) (AtStart, w0))) = view j w"
    by (auto simp: Let_def)
  have "pcs ! k = Finished" using assms(2) k(1) len by simp
  with n have "view j w = view j (snd ((probe_step record_event (fst t) (snd t) ^^ 7) (AtStart, w0)))"
    using finished_after_seven [of n "fst t" "snd t" w0] by simp
  then show ?thesis using probe_seven_steps [of "fst t" "snd t" w0 j] Some
    by (simp add: sequentially_local [OF assms(3)])
qed

theorem probe_interleavings_agree_witness:
  "\<exists>w. interleaving record_event
      [(demo_probe_env, demo_target ''a'' []), (demo_probe_env, demo_target ''b'' [])] demo_worker
      [Finished, Finished] w \<and>
    view ''a'' w = view ''a'' (sequentially record_event
      [(demo_probe_env, demo_target ''a'' []), (demo_probe_env, demo_target ''b'' [])] demo_worker)"
proof -
  let ?ts = "[(demo_probe_env, demo_target ''a'' []), (demo_probe_env, demo_target ''b'' [])]"
  obtain w where w: "interleaving record_event ?ts demo_worker [Finished, Finished] w"
    using interleaving_complete [of record_event ?ts demo_worker] by (auto simp: numeral_2_eq_2)
  moreover have "distinct (map (ServiceID \<circ> snd) ?ts)" by (simp add: demo_target_def)
  ultimately show ?thesis using probe_interleavings_agree [OF w, of "''a''"] by auto
qed

text \<open>An open breaker spares the instance. While the breaker of an instance refuses, a probe
  does not depend on anything the network would answer, leaves the breaker as it is, and
  reports the instance unhealthy on the breaker's account.\<close>

theorem open_breaker_skips_probe:
  assumes "gm_get (w_breakers w) (ServiceID inst) = Some cb" and "refuses (allow_at env) cb"
  shows "probeInstance pub (env\<lparr>pe_NewRequest := a, pe_Do := b, pe_Dial := c\<rparr>) inst w =
      probeInstance pub env inst w \<and>
    gm_get (w_breakers (probeInstance pub env inst w)) (ServiceID inst) = Some cb \<and>
    (\<exists>m. Get (ServiceID inst) (w_cache (probeInstance pub env inst w)) = Some m \<and>
       mi_Status m = HealthUnhealthy \<and> ProbeType m = ''circuit-breaker'')"
proof -
  have b: "fst (getBreaker (ServiceID inst) w) = cb" using assms(1) by (simp add: wb.goc_val)
  have "probeInstance pub (env\<lparr>pe_NewRequest := a, pe_Do := b, pe_Dial := c\<rparr>) inst w =
      probeInstance pub env inst w"
    using b assms(2)
    by (simp add: probeInstance_def Allow_refuses split_beta Let_def updateStatus_def
        updateCache_def publishChange_def healthEvent_def)
  then show ?thesis using b assms(2)
    by (simp add: probeInstance_breakers cb.guarded_blocked probeInstance_get verdict_def report_of_def)
qed

theorem open_breaker_skips_probe_witness:
  "\<exists>m. Get ''a'' (w_cache (probeInstance record_event demo_probe_env (demo_target ''a'' [])
     (putBreaker ''a'' (RecordFailure 0 (NewCircuitBreaker 1 Second)) demo_worker))) = Some m \<and>
     mi_Status m = HealthUnhealthy \<and> ProbeType m = ''circuit-breaker''"
  using open_breaker_skips_probe [of
      "putBreaker ''a'' (RecordFailure 0 (NewCircuitBreaker 1 Second)) demo_worker"
      "demo_target ''a'' []" "RecordFailure 0 (NewCircuitBreaker 1 Second)" demo_probe_env record_event]
  by (simp add: gm_simps refuses_def RecordFailure_def NewCircuitBreaker_def demo_probe_env_def
      demo_target_def time_Sub_def int_range_defs wrap64_def)

text \<open>An instance that declares no probe is first unknown and then unhealthy. Each cycle
  counts as a failure of its breaker, so after as many cycles as the failure threshold the
  breaker opens, and the next cycle within the break duration reports the instance unhealthy
  although nothing was ever probed.\<close>

theorem unprobed_instance_becomes_unhealthy:
  assumes "no_probe inst" and "is_int64 (FailureThreshold c)" and "is_int64 (RecoveryThreshold c)"
    and "1 \<le> FailureThreshold c" and "int (length envs) = FailureThreshold c"
    and "is_int64 (ProbeInterval c * 2)"
    and "time_Sub (allow_at env) (failure_at (last envs)) < ProbeInterval c * 2"
    and "w = probes_of pub inst envs (NewWorker p NewCache c)"
  shows "PreviousStatus (ServiceID inst) (w_cache w) = HealthUnknown \<and>
    PreviousStatus (ServiceID inst) (w_cache (probeInstance pub env inst w)) = HealthUnhealthy"
proof -
  have ne: "envs \<noteq> []" using assms(4,5) by auto
  have wf: "breaker_wf (fresh_breaker c)"
    using assms by (simp add: fresh_breaker_def breaker_wf_new_recovery)
  let ?b = "fail_at (map failure_at envs) (fresh_breaker c)"
  have b: "fst (getBreaker (ServiceID inst) w) = ?b"
    using no_probe_breaker [OF assms(1-3), of envs pub p] assms(5,8) by simp
  have "state ?b = BreakerOpen" "openedAt ?b = failure_at (last envs)"
    using fail_at_trips [OF wf, of "map failure_at envs"] assms(2,4,5) ne
    by (simp_all add: fresh_breaker_def NewCircuitBreakerWithRecovery_def last_map int_range_defs)
  moreover have "breakDuration ?b = ProbeInterval c * 2"
    using assms(6) by (simp add: fresh_breaker_def NewCircuitBreakerWithRecovery_def)
  ultimately have "refuses (allow_at env) ?b" using assms(7) by (simp add: refuses_def)
  then have "PreviousStatus (ServiceID inst) (w_cache (probeInstance pub env inst w)) = HealthUnhealthy"
    using b by (simp add: PreviousStatus_Get probeInstance_get report_of_def verdict_def)
  moreover have "PreviousStatus (ServiceID inst) (w_cache w) = HealthUnknown"
    using no_probe_status [OF assms(1-3), of "butlast envs" pub "last envs" p] ne assms(4,5,8)
    by simp
  ultimately show ?thesis by simp
qed

theorem unprobed_instance_becomes_unhealthy_witness:
  "PreviousStatus ''a'' (w_cache (probeInstance record_event demo_probe_env (demo_target ''a'' [])
     (probes_of record_event (demo_target ''a'' []) (replicate 3 demo_probe_env) demo_worker))) =
   HealthUnhealthy"
  using unprobed_instance_becomes_unhealthy [of "demo_target ''a'' []" hm_DefaultConfig
      "replicate 3 demo_probe_env" demo_probe_env
      "probes_of record_event (demo_target ''a'' []) (replicate 3 demo_probe_env) demo_worker"
      record_event "[]"]
  by (simp add: no_probe_def demo_target_def meta_nonempty_def hm_DefaultConfig_def
      int_range_defs demo_probe_env_def time_Sub_def)

text \<open>The worker's state stays well-formed. After any number of cycles of a new worker,
  whatever Consul, the network and the clock answer in them, every report is cached under its
  own ID and every breaker satisfies the breaker invariant.\<close>

theorem worker_invariant:
  assumes "is_int64 (FailureThreshold c)" and "is_int64 (RecoveryThreshold c)"
  shows "worker_wf (fold (\<lambda>(services, getInstances, envs). probeAll pub services getInstances envs)
    cycles (NewWorker p NewCache c))"
proof -
  have "worker_wf w \<Longrightarrow>
      worker_wf (fold (\<lambda>(services, getInstances, envs). probeAll pub services getInstances envs) cycles w)"
    for w by (induction cycles arbitrary: w) (auto intro: worker_wf_probeAll)
  then show ?thesis using worker_wf_New [OF assms] .
qed

theorem worker_invariant_witness:
  "worker_wf (fold (\<lambda>(services, getInstances, envs). probeAll record_event services getInstances envs)
     [(Inr [''api''], \<lambda>_. Inr [demo_target ''a'' []], \<lambda>_. demo_probe_env),
      (Inl ''no leader'', \<lambda>_. Inl ''no leader'', \<lambda>_. demo_probe_env)] demo_worker)"
  by (rule worker_invariant) (simp_all add: hm_DefaultConfig_def int_range_defs)

end
