(* ===== verification/Discovery_Server.thy ===== *)
theory Discovery_Server
  imports Consul_Registry Messaging Go_Net
begin

text \<open>
  The gRPC service of \<^verbatim>\<open>internal/discovery/server.go\<close>. A handler is a function of the request and
  the server's state: the registry, the tracking map, the Consul agent behind the registry
  and the message bus behind the publisher. The clock readings of a call are the record
  \<open>call_times\<close>; the address of the gRPC peer is an argument; \<^verbatim>\<open>timestamppb.New\<close> is a parameter.

  The generated messages of \<^verbatim>\<open>pkg/meshpb\<close> are records with the fields the handlers use. A protobuf
  enum is open, so the health status on the wire is an integer.
\<close>

section \<open>Messages and state\<close>

definition HEALTH_STATUS_UNKNOWN :: int where "HEALTH_STATUS_UNKNOWN = 0"
definition HEALTH_STATUS_HEALTHY :: int where "HEALTH_STATUS_HEALTHY = 1"
definition HEALTH_STATUS_UNHEALTHY :: int where "HEALTH_STATUS_UNHEALTHY = 2"
definition HEALTH_STATUS_DEGRADED :: int where "HEALTH_STATUS_DEGRADED = 3"

lemmas proto_enum = HEALTH_STATUS_UNKNOWN_def HEALTH_STATUS_HEALTHY_def HEALTH_STATUS_UNHEALTHY_def
  HEALTH_STATUS_DEGRADED_def

record RegisterServiceRequest =
  rq_ServiceName :: string
  rq_ServiceId :: string
  rq_Address :: string
  rq_Port :: int
  rq_Metadata :: metadata
  rq_HealthCheck :: "HealthCheckConfig option"

record RegisterServiceResponse =
  rs_Success :: bool
  rs_ServiceId :: string
  rs_ErrorMessage :: string

record 'ts ServiceInstance =
  si_ServiceName :: string
  si_ServiceId :: string
  si_Address :: string
  si_Port :: int
  si_Status :: int
  si_Metadata :: metadata
  si_RegisteredAt :: 'ts
  si_LastHealthCheck :: 'ts

record trackingInfo =
  ti_ServiceName :: string
  ti_RegisteredAt :: time
  DeregisteredAt :: "time option"
  LastUpdated :: time
  ti_Status :: HealthStatus
  ti_LastHealthCheck :: "time option"
  ti_Metadata :: metadata

record ('w, 'p) Server =
  sv_registry :: Registry
  tracking :: "(string, trackingInfo) gomap"
  sv_consul :: 'w
  sv_pub :: 'p

definition NewServer :: "Registry \<Rightarrow> 'w \<Rightarrow> 'p \<Rightarrow> ('w, 'p) Server" where
  "NewServer registry w p = \<lparr>sv_registry = registry, tracking = [], sv_consul = w, sv_pub = p\<rparr>"

record call_times =
  id_at :: time
  registry_at :: time
  now_at :: time
  eventid_at :: time
  pub_at :: "time \<times> time"

section \<open>Helpers\<close>

definition isRoutable :: "string \<Rightarrow> bool" where
  "isRoutable addr =
     (if addr = [] \<or> addr = ''0.0.0.0'' \<or> addr = ''::'' then False
      else (case ParseIP addr of
              None \<Rightarrow> True
            | Some ip \<Rightarrow> \<not> IsLoopback ip \<and> \<not> IsUnspecified ip))"

text \<open>\<open>peer\<close> is the printed address of the gRPC peer, if the context has one.\<close>

definition resolveAddress :: "string option \<Rightarrow> string \<Rightarrow> string" where
  "resolveAddress peer requested =
     (if isRoutable requested then requested
      else (let fallback = (if requested \<noteq> [] then requested else ''127.0.0.1'') in
        case peer of
          None \<Rightarrow> fallback
        | Some a \<Rightarrow>
            (case SplitHostPort a of
               Some (host, _) \<Rightarrow> if isRoutable host then host else fallback
             | None \<Rightarrow> fallback)))"

definition fillMissing :: "metadata \<Rightarrow> metadata \<Rightarrow> metadata" where
  "fillMissing m merged =
     fold (\<lambda>e acc. if gm_get acc (fst e) \<noteq> None then acc else gm_set (fst e) (snd e) acc) m merged"

definition mergeMetadata :: "string \<Rightarrow> metadata \<Rightarrow> ('w, 'p) Server \<Rightarrow> metadata" where
  "mergeMetadata serviceID consulMeta s =
     (let merged = copyMeta consulMeta
      in case gm_get (tracking s) serviceID of
           None \<Rightarrow> merged
         | Some info \<Rightarrow> fillMissing (ti_Metadata info) merged)"

definition getTimestamps :: "string \<Rightarrow> time \<Rightarrow> ('w, 'p) Server \<Rightarrow> time \<times> time" where
  "getTimestamps serviceID fallbackReg s =
     (case gm_get (tracking s) serviceID of
        Some info \<Rightarrow>
          (ti_RegisteredAt info,
           case ti_LastHealthCheck info of Some t \<Rightarrow> t | None \<Rightarrow> zero_time)
      | None \<Rightarrow> (fallbackReg, zero_time))"

definition toProtoHealth :: "HealthStatus \<Rightarrow> int" where
  "toProtoHealth s =
     (case s of
        HealthHealthy \<Rightarrow> HEALTH_STATUS_HEALTHY
      | HealthUnhealthy \<Rightarrow> HEALTH_STATUS_UNHEALTHY
      | HealthDegraded \<Rightarrow> HEALTH_STATUS_DEGRADED
      | HealthUnknown \<Rightarrow> HEALTH_STATUS_UNKNOWN)"

definition fromProtoHealth :: "int \<Rightarrow> HealthStatus" where
  "fromProtoHealth s =
     (if s = HEALTH_STATUS_HEALTHY then HealthHealthy
      else if s = HEALTH_STATUS_UNHEALTHY then HealthUnhealthy
      else if s = HEALTH_STATUS_DEGRADED then HealthDegraded
      else HealthUnknown)"

definition healthStatusName :: "HealthStatus \<Rightarrow> string" where
  "healthStatusName s = HealthStatus_String s"

section \<open>Handlers\<close>

definition requestID :: "call_times \<Rightarrow> RegisterServiceRequest \<Rightarrow> string" where
  "requestID ts req =
     (if rq_ServiceId req = [] then rq_ServiceName req @ ''-'' @ Itoa (UnixNano (id_at ts))
      else rq_ServiceId req)"

definition toRegistration :: "call_times \<Rightarrow> string option \<Rightarrow> RegisterServiceRequest \<Rightarrow> Registration" where
  "toRegistration ts peer req =
     \<lparr>reg_ServiceName = rq_ServiceName req, reg_ServiceID = requestID ts req,
      reg_Address = resolveAddress peer (rq_Address req), reg_Port = rq_Port req,
      reg_Metadata = copyMeta (rq_Metadata req), reg_HealthCheck = rq_HealthCheck req\<rparr>"

text \<open>The tracked entries and the events that the handlers make.\<close>

definition registeredInfo :: "call_times \<Rightarrow> Registration \<Rightarrow> trackingInfo" where
  "registeredInfo ts reg =
     \<lparr>ti_ServiceName = reg_ServiceName reg, ti_RegisteredAt = now_at ts, DeregisteredAt = None,
      LastUpdated = now_at ts, ti_Status = HealthHealthy, ti_LastHealthCheck = None,
      ti_Metadata = reg_Metadata reg\<rparr>"

definition markDeregistered :: "call_times \<Rightarrow> trackingInfo \<Rightarrow> trackingInfo" where
  "markDeregistered ts t = t\<lparr>DeregisteredAt := Some (now_at ts), LastUpdated := now_at ts\<rparr>"

definition markReported :: "call_times \<Rightarrow> HealthStatus \<Rightarrow> trackingInfo \<Rightarrow> trackingInfo" where
  "markReported ts newStatus t =
     t\<lparr>ti_Status := newStatus, ti_LastHealthCheck := Some (now_at ts), LastUpdated := now_at ts\<rparr>"

definition registeredEvent :: "call_times \<Rightarrow> Registration \<Rightarrow> event" where
  "registeredEvent ts reg =
     Registered \<lparr>sr_EventID = Itoa (UnixNano (eventid_at ts)), sr_Timestamp = now_at ts,
       sr_CorrelationID = [], sr_ServiceID = reg_ServiceID reg, sr_ServiceName = reg_ServiceName reg,
       sr_Address = reg_Address reg, sr_Port = reg_Port reg, sr_Metadata = reg_Metadata reg\<rparr>"

definition deregisteredEvent :: "call_times \<Rightarrow> string \<Rightarrow> string \<Rightarrow> event" where
  "deregisteredEvent ts serviceId serviceName =
     Deregistered \<lparr>sd_EventID = Itoa (UnixNano (eventid_at ts)), sd_Timestamp = now_at ts,
       sd_CorrelationID = [], sd_ServiceID = serviceId, sd_ServiceName = serviceName,
       sd_Reason = ''Manual deregistration''\<rparr>"

definition changedEvent ::
  "call_times \<Rightarrow> string \<Rightarrow> string \<Rightarrow> HealthStatus \<Rightarrow> HealthStatus \<Rightarrow> string \<Rightarrow> event" where
  "changedEvent ts serviceId serviceName previousStatus newStatus out =
     HealthChanged \<lparr>sh_EventID = Itoa (UnixNano (eventid_at ts)), sh_Timestamp = now_at ts,
       sh_CorrelationID = [], sh_ServiceID = serviceId, sh_ServiceName = serviceName,
       sh_PreviousStatus = healthStatusName previousStatus,
       sh_CurrentStatus = healthStatusName newStatus, sh_HealthCheckOutput = out\<rparr>"

lemmas entry_defs [simp] = registeredInfo_def markDeregistered_def markReported_def registeredEvent_def
  deregisteredEvent_def changedEvent_def

definition Server_Register ::
  "'w consul_api \<Rightarrow> 'p publish \<Rightarrow> call_times \<Rightarrow> string option \<Rightarrow> RegisterServiceRequest
     \<Rightarrow> ('w, 'p) Server \<Rightarrow> RegisterServiceResponse \<times> ('w, 'p) Server" where
  "Server_Register api pub ts peer req s =
     (let reg = toRegistration ts peer req; serviceID = reg_ServiceID reg in
      case Registry_Register api (registry_at ts) reg (sv_registry s) (sv_consul s) of
        (Some err, r', w') \<Rightarrow>
          (\<lparr>rs_Success = False, rs_ServiceId = serviceID, rs_ErrorMessage = err\<rparr>,
           s\<lparr>sv_registry := r', sv_consul := w'\<rparr>)
      | (None, r', w') \<Rightarrow>
          (\<lparr>rs_Success = True, rs_ServiceId = serviceID, rs_ErrorMessage = []\<rparr>,
           s\<lparr>sv_registry := r', sv_consul := w',
             tracking := gm_set serviceID (registeredInfo ts reg) (tracking s),
             sv_pub := pub (pub_at ts) (registeredEvent ts reg) (sv_pub s)\<rparr>))"

definition Server_Deregister ::
  "'w consul_api \<Rightarrow> 'p publish \<Rightarrow> call_times \<Rightarrow> string \<Rightarrow> ('w, 'p) Server
     \<Rightarrow> bool \<times> ('w, 'p) Server" where
  "Server_Deregister api pub ts serviceId s =
     (let serviceName = (case gm_get (tracking s) serviceId of Some info \<Rightarrow> ti_ServiceName info | None \<Rightarrow> [])
      in case Registry_Deregister api serviceId (sv_registry s) (sv_consul s) of
           (Some err, r', w') \<Rightarrow> (False, s\<lparr>sv_registry := r', sv_consul := w'\<rparr>)
         | (None, r', w') \<Rightarrow>
             (True,
              s\<lparr>sv_registry := r', sv_consul := w',
                tracking :=
                  (case gm_get (tracking s) serviceId of
                     Some t \<Rightarrow> gm_set serviceId (markDeregistered ts t) (tracking s)
                   | None \<Rightarrow> tracking s),
                sv_pub := pub (pub_at ts) (deregisteredEvent ts serviceId serviceName) (sv_pub s)\<rparr>))"

definition toServiceInstance ::
  "(time \<Rightarrow> 'ts) \<Rightarrow> ('w, 'p) Server \<Rightarrow> Instance \<Rightarrow> 'ts ServiceInstance" where
  "toServiceInstance newTimestamp s inst =
     (let meta = mergeMetadata (ServiceID inst) (Metadata inst) s;
          (regTime, lastCheck) = getTimestamps (ServiceID inst) (RegisteredAt inst) s
      in \<lparr>si_ServiceName = ServiceName inst, si_ServiceId = ServiceID inst, si_Address = Address inst,
          si_Port = wrap32 (Port inst), si_Status = toProtoHealth (Status inst), si_Metadata = meta,
          si_RegisteredAt = newTimestamp regTime, si_LastHealthCheck = newTimestamp lastCheck\<rparr>)"

definition Server_GetInstances ::
  "'w consul_api \<Rightarrow> (time \<Rightarrow> 'ts) \<Rightarrow> string \<Rightarrow> ('w, 'p) Server \<Rightarrow> error + 'ts ServiceInstance list" where
  "Server_GetInstances api newTimestamp serviceName s =
     (case Registry_GetInstances api serviceName (sv_registry s) (sv_consul s) of
        Inl err \<Rightarrow> Inl (''get instances: '' @ err)
      | Inr xs \<Rightarrow> Inr (map (toServiceInstance newTimestamp s) xs))"

definition Server_GetServices :: "'w consul_api \<Rightarrow> ('w, 'p) Server \<Rightarrow> error + string list" where
  "Server_GetServices api s =
     (case Registry_GetServices api (sv_consul s) of
        Inl err \<Rightarrow> Inl (''get services: '' @ err)
      | Inr names \<Rightarrow> Inr names)"

definition Server_ReportHealth ::
  "'w consul_api \<Rightarrow> 'p publish \<Rightarrow> call_times \<Rightarrow> string \<Rightarrow> int \<Rightarrow> string \<Rightarrow> ('w, 'p) Server
     \<Rightarrow> bool \<times> ('w, 'p) Server" where
  "Server_ReportHealth api pub ts serviceId status out s =
     (let newStatus = fromProtoHealth status; info = gm_get (tracking s) serviceId
      in case Registry_UpdateHealth api serviceId newStatus out (sv_consul s) of
           (Some err, w') \<Rightarrow> (False, s\<lparr>sv_consul := w'\<rparr>)
         | (None, w') \<Rightarrow>
             (True,
              (case info of
                 None \<Rightarrow> s\<lparr>sv_consul := w'\<rparr>
               | Some t \<Rightarrow>
                   s\<lparr>sv_consul := w',
                     tracking := gm_set serviceId (markReported ts newStatus t) (tracking s),
                     sv_pub :=
                       (if ti_Status t \<noteq> newStatus
                        then pub (pub_at ts)
                          (changedEvent ts serviceId (ti_ServiceName t) (ti_Status t) newStatus out) (sv_pub s)
                        else sv_pub s)\<rparr>)))"

section \<open>Metadata and addresses\<close>

lemma fill_missing_get:
  "gm_get (fillMissing m acc) k = (case gm_get acc k of Some v \<Rightarrow> Some v | None \<Rightarrow> gm_get m k)"
  unfolding fillMissing_def
proof (induction m arbitrary: acc)
  case (Cons e m)
  obtain a v where "e = (a, v)" by (cases e)
  then show ?case using Cons by (auto simp: gm_get_cons gm_simps split: option.splits)
qed (simp split: option.splits)

text \<open>Consul's value prevails; the tracked metadata fills the gaps.\<close>

lemma mergeMetadata_get:
  "gm_wf meta \<Longrightarrow> gm_get (mergeMetadata i meta s) k =
     (case gm_get meta k of
        Some v \<Rightarrow> Some v
      | None \<Rightarrow> (case gm_get (tracking s) i of None \<Rightarrow> None | Some info \<Rightarrow> gm_get (ti_Metadata info) k))"
  by (auto simp: mergeMetadata_def fill_missing_get Let_def split: option.splits)

lemma copyMeta_wf_acc:
  "gm_wf acc \<Longrightarrow> gm_wf (fold (\<lambda>e acc. gm_set (fst e) (snd e) acc) m acc)"
  by (induction m arbitrary: acc) auto

lemma copyMeta_wf [simp]: "gm_wf (copyMeta m)"
  by (simp add: copyMeta_def copyMeta_wf_acc)

text \<open>The host of the gRPC peer, when it is one that others can reach.\<close>

definition peer_host :: "string option \<Rightarrow> string option" where
  "peer_host peer =
     (case peer of
        None \<Rightarrow> None
      | Some a \<Rightarrow>
          (case SplitHostPort a of
             None \<Rightarrow> None
           | Some (host, _) \<Rightarrow> if isRoutable host then Some host else None))"

lemma resolveAddress_peer:
  "resolveAddress peer requested =
     (if isRoutable requested then requested
      else (case peer_host peer of
              Some host \<Rightarrow> host
            | None \<Rightarrow> if requested \<noteq> [] then requested else ''127.0.0.1''))"
  by (auto simp: resolveAddress_def peer_host_def split: option.splits)

lemma peer_host_routable: "peer_host peer = Some h \<Longrightarrow> isRoutable h"
  by (auto simp: peer_host_def split: option.splits if_splits)

text \<open>Dotted quads.\<close>

definition dotted :: "nat \<Rightarrow> nat \<Rightarrow> nat \<Rightarrow> nat \<Rightarrow> string" where
  "dotted a b c d =
     Join (map (digits_base 10) [a, b, c, d]) ''.''"

lemma digits_no_dot: "CHR ''.'' \<notin> set (digits_base 10 n)" "CHR ''%'' \<notin> set (digits_base 10 n)"
  "CHR '':'' \<notin> set (digits_base 10 n)"
  using digits_base_chars [of "CHR ''.''" n] digits_base_chars [of "CHR ''%''" n]
    digits_base_chars [of "CHR '':''" n] by (auto simp: byte_def)

lemma digits_no_leading_zero: "10 \<le> n \<Longrightarrow> hd (digits_base 10 n) \<noteq> CHR ''0''"
proof (induction n rule: less_induct)
  case (less n)
  have hd: "hd (digits_base 10 n) = hd (digits_base 10 (n div 10))"
    using less.prems by (subst digits_base.simps) (simp add: hd_append)
  show ?case
  proof (cases "10 \<le> n div 10")
    case True
    then show ?thesis using less.IH [of "n div 10"] hd by simp
  next
    case False
    then have "digits_base 10 (n div 10) = [digit_char (n div 10)]"
      by (subst digits_base.simps) simp
    moreover have "byte (digit_char (n div 10)) \<noteq> 48"
      using False less.prems by (simp add: digit_char_byte)
    ultimately show ?thesis using hd by (auto simp: byte_def)
  qed
qed

lemma octet_digits: "n \<le> 255 \<Longrightarrow> octet (digits_base 10 n) = Some n"
proof (cases "n < 10")
  case True
  then have "length (digits_base 10 n) = 1" by (subst digits_base.simps) simp
  then show ?thesis using True by (simp add: octet_def parse_digits_base)
next
  case False
  assume "n \<le> 255"
  then show ?thesis using False digits_no_leading_zero [of n]
    by (simp add: octet_def parse_digits_base)
qed

lemma parseIPv4_dotted:
  assumes "a \<le> 255" "b \<le> 255" "c \<le> 255" "d \<le> 255"
  shows "parseIPv4 (dotted a b c d) = Some [a, b, c, d]"
proof -
  have "Split (dotted a b c d) CHR ''.'' =
      [digits_base 10 a, digits_base 10 b, digits_base 10 c, digits_base 10 d]"
    by (simp add: dotted_def Split_append_sep Split_no_sep digits_no_dot)
  then show ?thesis using assms by (simp add: parseIPv4_def octet_digits)
qed

lemma ParseIP_dotted:
  assumes "a \<le> 255" "b \<le> 255" "c \<le> 255" "d \<le> 255"
  shows "ParseIP (dotted a b c d) = Some (v4prefix @ [a, b, c, d])"
proof -
  have "CHR ''%'' \<notin> set (dotted a b c d)" by (simp add: dotted_def digits_no_dot)
  moreover have "dropWhile (\<lambda>c. c \<noteq> CHR ''.'' \<and> c \<noteq> CHR '':'') (dotted a b c d) =
      CHR ''.'' # Join (map (digits_base 10) [b, c, d]) ''.''"
    using digits_no_dot [of a]
    by (auto simp: dotted_def dropWhile_append dropWhile_eq_Nil_conv)
  ultimately show ?thesis using parseIPv4_dotted [OF assms] by (simp add: ParseIP_def)
qed

lemma v4_classes [simp]:
  "IsLoopback (v4prefix @ [a, b, c, d]) \<longleftrightarrow> a = 127"
  "IsUnspecified (v4prefix @ [a, b, c, d]) \<longleftrightarrow> [a, b, c, d] = [0, 0, 0, 0]"
  by (simp_all add: IsLoopback_def IsUnspecified_def v4prefix_def nth_append numeral_nat)

lemma dotted_not_empty: "dotted a b c d \<noteq> []" "dotted a b c d \<noteq> ''::''"
proof -
  have "CHR ''.'' \<in> set (dotted a b c d)" by (simp add: dotted_def)
  then show "dotted a b c d \<noteq> []" "dotted a b c d \<noteq> ''::''" by auto
qed

section \<open>The event log\<close>

datatype server_call =
    CallRegister call_times "string option" RegisterServiceRequest
  | CallDeregister call_times string
  | CallReport call_times string int string

fun server_exec ::
  "'w consul_api \<Rightarrow> server_call \<Rightarrow> ('w, event list) Server \<Rightarrow> ('w, event list) Server" where
  "server_exec api (CallRegister ts peer req) s = snd (Server_Register api record_event ts peer req s)"
| "server_exec api (CallDeregister ts i) s = snd (Server_Deregister api record_event ts i s)"
| "server_exec api (CallReport ts i st out) s = snd (Server_ReportHealth api record_event ts i st out s)"

text \<open>The status of a service that a consumer computes from the events.\<close>

fun replay_event :: "string \<Rightarrow> event \<Rightarrow> string option \<Rightarrow> string option" where
  "replay_event i (Registered e) st = (if sr_ServiceID e = i then Some ''Healthy'' else st)"
| "replay_event i (HealthChanged e) st = (if sh_ServiceID e = i then Some (sh_CurrentStatus e) else st)"
| "replay_event i _ st = st"

definition replay :: "string \<Rightarrow> event list \<Rightarrow> string option" where
  "replay i log = fold (replay_event i) log None"

text \<open>Every change starts from the status that the earlier events gave, and is a change.\<close>

fun event_fits :: "event list \<Rightarrow> event \<Rightarrow> bool" where
  "event_fits before (HealthChanged e) =
     (replay (sh_ServiceID e) before = Some (sh_PreviousStatus e) \<and>
      sh_CurrentStatus e \<noteq> sh_PreviousStatus e)"
| "event_fits before _ = True"

definition log_consistent :: "event list \<Rightarrow> bool" where
  "log_consistent log \<longleftrightarrow> list_all (\<lambda>k. event_fits (take k log) (log ! k)) [0..<length log]"

lemma replay_snoc: "replay i (log @ [ev]) = replay_event i ev (replay i log)"
  by (simp add: replay_def)

lemma log_consistent_snoc: "log_consistent (log @ [ev]) \<longleftrightarrow> log_consistent log \<and> event_fits log ev"
  by (auto simp: log_consistent_def list_all_iff nth_append)

definition log_faithful :: "('w, event list) Server \<Rightarrow> bool" where
  "log_faithful s \<longleftrightarrow> log_consistent (sv_pub s) \<and>
     (\<forall>i. replay i (sv_pub s) = map_option (\<lambda>t. HealthStatus_String (ti_Status t)) (gm_get (tracking s) i))"

lemma log_faithful_register:
  "log_faithful s \<Longrightarrow> log_faithful (snd (Server_Register api record_event ts peer req s))"
  by (auto simp: Server_Register_def log_faithful_def record_event_def log_consistent_snoc replay_snoc
      gm_simps Let_def split: prod.splits option.splits)

lemma log_faithful_deregister:
  "log_faithful s \<Longrightarrow> log_faithful (snd (Server_Deregister api record_event ts i s))"
  by (auto simp: Server_Deregister_def log_faithful_def record_event_def log_consistent_snoc replay_snoc
      gm_simps Let_def split: prod.splits option.splits)

lemma log_faithful_report:
  "log_faithful s \<Longrightarrow> log_faithful (snd (Server_ReportHealth api record_event ts i st out s))"
  by (auto simp: Server_ReportHealth_def log_faithful_def record_event_def log_consistent_snoc replay_snoc
      gm_simps healthStatusName_def Let_def dest: HealthStatus_String_inj split: prod.splits option.splits)

lemma log_faithful_exec: "log_faithful s \<Longrightarrow> log_faithful (server_exec api x s)"
  by (cases x) (simp_all add: log_faithful_register log_faithful_deregister log_faithful_report)

section \<open>Properties\<close>

text \<open>The published events tell the whole story. After any sequence of calls of a new server,
  whatever Consul answers, replaying the event log gives for every service exactly the status
  that the server tracks (a registration makes it healthy, a change replaces it), every
  health-changed event starts from the status that the events before it had established, and
  no event reports a change that is none.\<close>

theorem event_log_faithful:
  "let s = fold (server_exec api) calls (NewServer r w []) in
     log_consistent (sv_pub s) \<and>
     (\<forall>i. replay i (sv_pub s) =
        map_option (\<lambda>t. HealthStatus_String (ti_Status t)) (gm_get (tracking s) i))"
proof -
  have "log_faithful (NewServer r w [])"
    by (simp add: log_faithful_def NewServer_def log_consistent_def replay_def)
  moreover have "log_faithful s \<Longrightarrow> log_faithful (fold (server_exec api) calls s)" for s
    by (induction calls arbitrary: s) (auto simp: log_faithful_exec)
  ultimately show ?thesis by (simp add: log_faithful_def Let_def)
qed

text \<open>A registered service is found again. When Consul accepts the registration and the first
  TTL report, the call succeeds, and the instances listed for the service afterwards include
  one with the ID of the response, the resolved address, the port, the metadata of the request
  and the time of the call; it is healthy unless another check of Consul fails.\<close>

theorem registered_service_is_listed:
  assumes "consul_lists_registered api" and "consul_ttl_passes api"
    and "ServiceRegister api (consulReg (toRegistration ts peer req)) (sv_consul s) = (None, w1)"
    and "PassTTL api (checkID (requestID ts req)) ''Service registered'' w1 = (None, w2)"
    and "gm_wf (rq_Metadata req)" and "is_int32 (rq_Port req)"
  shows "\<exists>resp s' xs si. Server_Register api pub ts peer req s = (resp, s') \<and> rs_Success resp \<and>
    Server_GetInstances api newTimestamp (rq_ServiceName req) s' = Inr xs \<and> si \<in> set xs \<and>
    si_ServiceId si = rs_ServiceId resp \<and> si_ServiceName si = rq_ServiceName req \<and>
    si_Address si = resolveAddress peer (rq_Address req) \<and> si_Port si = rq_Port req \<and>
    gm_get (si_Metadata si) = gm_get (rq_Metadata req) \<and>
    si_RegisteredAt si = newTimestamp (now_at ts) \<and>
    (\<exists>es e. Health_Service api (rq_ServiceName req) w2 = Inr es \<and> e \<in> set es \<and>
       (list_all (\<lambda>c. hc_Status c = ''passing'') (other_checks (requestID ts req) e) \<longrightarrow>
          si_Status si = HEALTH_STATUS_HEALTHY))"
proof -
  let ?reg = "toRegistration ts peer req"
  have fields: "reg_ServiceID ?reg = requestID ts req" "reg_ServiceName ?reg = rq_ServiceName req"
    "reg_Address ?reg = resolveAddress peer (rq_Address req)" "reg_Port ?reg = rq_Port req"
    "reg_Metadata ?reg = copyMeta (rq_Metadata req)"
    by (simp_all add: toRegistration_def)
  obtain r' es e where
    reg: "Registry_Register api (registry_at ts) ?reg (sv_registry s) (sv_consul s) = (None, r', w2)"
    and es: "Health_Service api (rq_ServiceName req) w2 = Inr es" "e \<in> set es"
    and get: "Registry_GetInstances api (rq_ServiceName req) r' w2 = Inr (map (toInstance r') es)"
    and i: "ServiceID (toInstance r' e) = requestID ts req"
      "ServiceName (toInstance r' e) = rq_ServiceName req"
      "Address (toInstance r' e) = resolveAddress peer (rq_Address req)"
      "Port (toInstance r' e) = rq_Port req"
      "gm_get (Metadata (toInstance r' e)) = gm_get (rq_Metadata req)"
      "list_all (\<lambda>c. hc_Status c = ''passing'') (other_checks (requestID ts req) e) \<longrightarrow>
         Status (toInstance r' e) = HealthHealthy"
    using Register_lists [OF assms(1-3), of w2 "registry_at ts" "sv_registry s"] assms(4,5)
    by (auto simp: fields)
  let ?s = "snd (Server_Register api pub ts peer req s)"
    and ?resp = "fst (Server_Register api pub ts peer req s)"
  let ?si = "toServiceInstance newTimestamp ?s (toInstance r' e)"
  have s: "sv_registry ?s = r'" "sv_consul ?s = w2" "rs_Success ?resp" "rs_ServiceId ?resp = requestID ts req"
    "gm_get (tracking ?s) (requestID ts req) = Some
       \<lparr>ti_ServiceName = rq_ServiceName req, ti_RegisteredAt = now_at ts, DeregisteredAt = None,
        LastUpdated = now_at ts, ti_Status = HealthHealthy, ti_LastHealthCheck = None,
        ti_Metadata = copyMeta (rq_Metadata req)\<rparr>"
    using reg by (simp_all add: Server_Register_def fields gm_simps Let_def)
  have xs: "Server_GetInstances api newTimestamp (rq_ServiceName req) ?s =
      Inr (map (toServiceInstance newTimestamp ?s) (map (toInstance r') es))"
    using get s by (simp add: Server_GetInstances_def)
  have mem: "?si \<in> set (map (toServiceInstance newTimestamp ?s) (map (toInstance r') es))"
    using es(2) by simp
  have wf: "gm_wf (Metadata (toInstance r' e))" by (simp add: toInstance_def Let_def)
  have "gm_get (si_Metadata ?si) = gm_get (rq_Metadata req)"
    using i s(5) assms(5) wf
    by (intro ext) (simp add: toServiceInstance_def split_beta mergeMetadata_get Let_def split: option.splits)
  moreover have "si_ServiceId ?si = rs_ServiceId ?resp" "si_ServiceName ?si = rq_ServiceName req"
    "si_Address ?si = resolveAddress peer (rq_Address req)" "si_Port ?si = rq_Port req"
    "si_RegisteredAt ?si = newTimestamp (now_at ts)"
    "list_all (\<lambda>c. hc_Status c = ''passing'') (other_checks (requestID ts req) e) \<longrightarrow>
       si_Status ?si = HEALTH_STATUS_HEALTHY"
    using i s assms(6)
    by (simp_all add: toServiceInstance_def split_beta getTimestamps_def toProtoHealth_def Let_def)
  ultimately show ?thesis using xs mem s es by (metis prod.collapse)
qed

definition demo_times :: call_times where
  "demo_times = \<lparr>id_at = 0, registry_at = 1, now_at = 2, eventid_at = 3, pub_at = (4, 5)\<rparr>"

definition demo_request :: RegisterServiceRequest where
  "demo_request =
     \<lparr>rq_ServiceName = ''api'', rq_ServiceId = ''api-1'', rq_Address = ''localhost'', rq_Port = 8080,
      rq_Metadata = [(''scheme'', ''http'')], rq_HealthCheck = None\<rparr>"

theorem registered_service_is_listed_witness:
  "\<exists>resp s' xs si. Server_Register mem_consul record_event demo_times None demo_request
       (NewServer NewRegistry [] []) = (resp, s') \<and> rs_Success resp \<and>
     Server_GetInstances mem_consul id ''api'' s' = Inr xs \<and> si \<in> set xs \<and>
     si_ServiceId si = ''api-1'' \<and> si_Port si = 8080 \<and> si_RegisteredAt si = 2"
proof -
  let ?s = "NewServer NewRegistry [] [] :: (ServiceEntry list, event list) Server"
  let ?w1 = "snd (ServiceRegister mem_consul (consulReg (toRegistration demo_times None demo_request)) [])"
  let ?w2 = "snd (PassTTL mem_consul (checkID (requestID demo_times demo_request)) ''Service registered'' ?w1)"
  have "ServiceRegister mem_consul (consulReg (toRegistration demo_times None demo_request)) (sv_consul ?s) = (None, ?w1)"
    "PassTTL mem_consul (checkID (requestID demo_times demo_request)) ''Service registered'' ?w1 = (None, ?w2)"
    "gm_wf (rq_Metadata demo_request)" "is_int32 (rq_Port demo_request)"
    by (simp_all add: mem_consul_def demo_request_def gm_wf_def int_range_defs NewServer_def)
  from registered_service_is_listed [OF mem_consul_laws this, of record_event id] show ?thesis
    by (auto simp: demo_request_def demo_times_def Server_Register_def toRegistration_def requestID_def
        Let_def split: prod.splits option.splits)
qed

text \<open>A service is registered under an address that others can reach whenever one is known.
  The resolved address is never empty; it is reachable if and only if the requested address
  or the host of the caller is; a reachable requested address is kept. For a dotted IPv4
  address, not reachable means loopback (127.x.x.x) or 0.0.0.0.\<close>

theorem address_resolution:
  "resolveAddress peer requested \<noteq> [] \<and>
   (isRoutable (resolveAddress peer requested) \<longleftrightarrow> isRoutable requested \<or> (\<exists>h. peer_host peer = Some h)) \<and>
   (if isRoutable requested then resolveAddress peer requested = requested else True) \<and>
   (if a \<le> 255 \<and> b \<le> 255 \<and> c \<le> 255 \<and> d \<le> 255
    then isRoutable (dotted a b c d) \<longleftrightarrow> a \<noteq> 127 \<and> [a, b, c, d] \<noteq> [0, 0, 0, 0] else True)"
proof -
  have ne: "isRoutable x \<Longrightarrow> x \<noteq> []" for x by (auto simp: isRoutable_def)
  have loop: "\<not> isRoutable ''127.0.0.1''"
    using ParseIP_dotted [of 127 0 0 1]
    by (simp add: isRoutable_def dotted_def digits_base.simps digit_char_def char_of_def bit_Suc_0_iff)
  have "resolveAddress peer requested \<noteq> []"
    using ne by (auto simp: resolveAddress_peer dest: peer_host_routable split: option.splits)
  moreover have "isRoutable (resolveAddress peer requested) \<longleftrightarrow> isRoutable requested \<or> (\<exists>h. peer_host peer = Some h)"
    using loop by (auto simp: resolveAddress_peer dest: peer_host_routable split: option.splits)
  moreover have "isRoutable (dotted a b c d) \<longleftrightarrow> a \<noteq> 127 \<and> [a, b, c, d] \<noteq> [0, 0, 0, 0]"
    if o: "a \<le> 255" "b \<le> 255" "c \<le> 255" "d \<le> 255"
  proof -
    have "ParseIP ''0.0.0.0'' = Some (v4prefix @ [0, 0, 0, 0])"
      using ParseIP_dotted [of 0 0 0 0]
      by (simp add: dotted_def digits_base.simps digit_char_def char_of_def bit_Suc_0_iff)
    then have "dotted a b c d = ''0.0.0.0'' \<Longrightarrow> [a, b, c, d] = [0, 0, 0, 0]"
      using ParseIP_dotted [OF o] by simp
    then show ?thesis using ParseIP_dotted [OF o] dotted_not_empty [of a b c d]
      by (auto simp: isRoutable_def)
  qed
  ultimately show ?thesis by (simp add: resolveAddress_peer)
qed

text \<open>The health status survives the wire. Converting a status to the protocol and back gives
  it back, and converting a protocol value and back gives it back too, except that a value
  this version does not know becomes unknown.\<close>

theorem health_wire_roundtrip:
  "fromProtoHealth (toProtoHealth s) = s \<and>
   toProtoHealth (fromProtoHealth p) = (if p \<in> {1, 2, 3} then p else 0)"
  by (cases s) (auto simp: fromProtoHealth_def toProtoHealth_def proto_enum)

end
