(* ===== verification/Discovery_Threads.thy ===== *)
theory Discovery_Threads
  imports Discovery_Server
begin

text \<open>
  The handlers of \<^verbatim>\<open>internal/discovery/server.go\<close> as concurrent threads. The tracking map holds pointers to
  entries that the handlers share, so here it is a map to addresses of a store of entries. A call
  takes its steps at the points where it leaves a lock, reads through a pointer, calls the registry
  or publishes; between its steps others take theirs. The answer of the registry to a call is an
  argument of it, so the theorems hold whatever the registry does in the meantime.
\<close>

section \<open>Steps of a call\<close>

record 'p shared =
  objects :: "trackingInfo list"
  pointers :: "(string, nat) gomap"
  bus :: 'p

definition newShared :: "'p \<Rightarrow> 'p shared" where
  "newShared p = \<lparr>objects = [], pointers = [], bus = p\<rparr>"

fun call_id :: "server_call \<Rightarrow> string" where
  "call_id (CallRegister ts peer req) = requestID ts req"
| "call_id (CallDeregister ts i) = i"
| "call_id (CallReport ts i st out) = i"

text \<open>Where a call is: just arrived; holding the pointer that it found; knowing the name and the
  status that it read through it; accepted by the registry; with the entry updated; answered.\<close>

datatype call_pc =
    Arrived
  | Holds "nat option"
  | Knows "(string \<times> HealthStatus) option"
  | Accepted "(string \<times> HealthStatus) option"
  | Tracked "(string \<times> HealthStatus) option"
  | Replied bool

text \<open>What a call reads of the entry: a deregistration only the name.\<close>

fun readInfo :: "server_call \<Rightarrow> trackingInfo \<Rightarrow> string \<times> HealthStatus" where
  "readInfo (CallReport ts i st out) t = (ti_ServiceName t, ti_Status t)"
| "readInfo _ t = (ti_ServiceName t, HealthUnknown)"

text \<open>The update under the lock: a registration stores a new entry, the others change the entry that
  the map points to now.\<close>

definition modify :: "string \<Rightarrow> (trackingInfo \<Rightarrow> trackingInfo) \<Rightarrow> 'p shared \<Rightarrow> 'p shared" where
  "modify i f s =
     (case gm_get (pointers s) i of
        None \<Rightarrow> s
      | Some a \<Rightarrow> s\<lparr>objects := (objects s)[a := f (objects s ! a)]\<rparr>)"

fun track :: "server_call \<Rightarrow> 'p shared \<Rightarrow> 'p shared" where
  "track (CallRegister ts peer req) s =
     (let reg = toRegistration ts peer req
      in s\<lparr>objects := objects s @ [registeredInfo ts reg],
           pointers := gm_set (reg_ServiceID reg) (length (objects s)) (pointers s)\<rparr>)"
| "track (CallDeregister ts i) s = modify i (markDeregistered ts) s"
| "track (CallReport ts i st out) s = modify i (markReported ts (fromProtoHealth st)) s"

fun announce :: "'p publish \<Rightarrow> server_call \<Rightarrow> (string \<times> HealthStatus) option \<Rightarrow> 'p \<Rightarrow> 'p" where
  "announce pub (CallRegister ts peer req) info p =
     pub (pub_at ts) (registeredEvent ts (toRegistration ts peer req)) p"
| "announce pub (CallDeregister ts i) info p =
     pub (pub_at ts) (deregisteredEvent ts i (case info of Some (name, _) \<Rightarrow> name | None \<Rightarrow> [])) p"
| "announce pub (CallReport ts i st out) info p =
     (case info of
        None \<Rightarrow> p
      | Some (name, previousStatus) \<Rightarrow>
          if previousStatus \<noteq> fromProtoHealth st
          then pub (pub_at ts) (changedEvent ts i name previousStatus (fromProtoHealth st) out) p else p)"

fun is_register :: "server_call \<Rightarrow> bool" where
  "is_register (CallRegister ts peer req) = True"
| "is_register _ = False"

fun call_step ::
  "'p publish \<Rightarrow> server_call \<Rightarrow> error option \<Rightarrow> call_pc \<times> 'p shared \<Rightarrow> call_pc \<times> 'p shared" where
  "call_step pub c answer (Arrived, s) =
     (if is_register c then (case answer of Some err \<Rightarrow> Replied False | None \<Rightarrow> Accepted None)
      else Holds (gm_get (pointers s) (call_id c)), s)"
| "call_step pub c answer (Holds p, s) =
     (Knows (map_option (\<lambda>a. readInfo c (objects s ! a)) p), s)"
| "call_step pub c answer (Knows info, s) =
     (case answer of Some err \<Rightarrow> Replied False | None \<Rightarrow> Accepted info, s)"
| "call_step pub c answer (Accepted info, s) = (Tracked info, track c s)"
| "call_step pub c answer (Tracked info, s) = (Replied True, s\<lparr>bus := announce pub c info (bus s)\<rparr>)"
| "call_step pub c answer (Replied ok, s) = (Replied ok, s)"

section \<open>The store\<close>

definition tracks :: "'p shared \<Rightarrow> string \<Rightarrow> trackingInfo option" where
  "tracks s i = map_option ((!) (objects s)) (gm_get (pointers s) i)"

text \<open>Pointers are valid, and two services never share an entry.\<close>

definition shared_wf :: "'p shared \<Rightarrow> bool" where
  "shared_wf s \<longleftrightarrow>
     (\<forall>i a. gm_get (pointers s) i = Some a \<longrightarrow> a < length (objects s)) \<and>
     (\<forall>i j a. gm_get (pointers s) i = Some a \<longrightarrow> gm_get (pointers s) j = Some a \<longrightarrow> i = j)"

lemma shared_wf_bus [simp]: "shared_wf (s\<lparr>bus := p\<rparr>) = shared_wf s" "tracks (s\<lparr>bus := p\<rparr>) = tracks s"
  by (simp_all add: shared_wf_def tracks_def fun_eq_iff)

lemma modify_wf: "shared_wf s \<Longrightarrow> shared_wf (modify i f s)"
  by (auto simp: modify_def shared_wf_def split: option.splits)

lemma modify_simps [simp]: "pointers (modify i f s) = pointers s" "bus (modify i f s) = bus s"
  by (simp_all add: modify_def split: option.splits)

lemma modify_tracks:
  assumes "shared_wf s"
  shows "tracks (modify i f s) j = (if j = i then map_option f (tracks s i) else tracks s j)"
proof (cases "gm_get (pointers s) i")
  case None
  then show ?thesis by (simp add: modify_def tracks_def)
next
  case (Some a)
  have "a < length (objects s)" using assms Some by (simp add: shared_wf_def)
  moreover have "gm_get (pointers s) j = Some b \<Longrightarrow> j \<noteq> i \<Longrightarrow> b \<noteq> a" for b
    using assms Some by (auto simp: shared_wf_def)
  ultimately show ?thesis using Some
    by (cases "gm_get (pointers s) j") (auto simp: modify_def tracks_def nth_list_update)
qed

text \<open>What the update makes of the entry of its service.\<close>

fun updated :: "server_call \<Rightarrow> trackingInfo option \<Rightarrow> trackingInfo option" where
  "updated (CallRegister ts peer req) old = Some (registeredInfo ts (toRegistration ts peer req))"
| "updated (CallDeregister ts i) old = map_option (markDeregistered ts) old"
| "updated (CallReport ts i st out) old = map_option (markReported ts (fromProtoHealth st)) old"

lemma registered_ID [simp]: "reg_ServiceID (toRegistration ts peer req) = requestID ts req"
  by (simp add: toRegistration_def)

lemma track_wf: "shared_wf s \<Longrightarrow> shared_wf (track c s)"
proof (cases c)
  case (CallRegister ts peer req)
  assume wf: "shared_wf s"
  then have "a < length (objects s)" if "gm_get (pointers s) i = Some a" for i a
    using that by (simp add: shared_wf_def)
  then show ?thesis using wf CallRegister
    by (fastforce simp: shared_wf_def Let_def gm_simps less_Suc_eq split: if_splits)
qed (simp_all add: modify_wf)

lemma track_tracks:
  assumes "shared_wf s"
  shows "tracks (track c s) j = (if j = call_id c then updated c (tracks s j) else tracks s j)"
proof (cases c)
  case (CallRegister ts peer req)
  have "gm_get (pointers s) j = Some a \<Longrightarrow> a < length (objects s)" for a
    using assms by (simp add: shared_wf_def)
  then show ?thesis using CallRegister
    by (cases "gm_get (pointers s) j") (auto simp: tracks_def Let_def gm_simps nth_append)
qed (simp_all add: modify_tracks [OF assms])

lemma track_bus [simp]: "bus (track c s) = bus s"
  by (cases c) (simp_all add: Let_def)

lemma track_pointers: "j \<noteq> call_id c \<Longrightarrow> gm_get (pointers (track c s)) j = gm_get (pointers s) j"
  by (cases c) (simp_all add: Let_def gm_simps)

section \<open>A call that is not interrupted\<close>

text \<open>What the registry answers to a call of the atomic server.\<close>

fun registry_answer :: "'w consul_api \<Rightarrow> server_call \<Rightarrow> ('w, 'p) Server \<Rightarrow> error option" where
  "registry_answer api (CallRegister ts peer req) S =
     fst (Registry_Register api (registry_at ts) (toRegistration ts peer req) (sv_registry S) (sv_consul S))"
| "registry_answer api (CallDeregister ts i) S = fst (Registry_Deregister api i (sv_registry S) (sv_consul S))"
| "registry_answer api (CallReport ts i st out) S =
     fst (Registry_UpdateHealth api i (fromProtoHealth st) out (sv_consul S))"

text \<open>The atomic server and the threads see the same entries and the same bus.\<close>

definition agrees :: "event list shared \<Rightarrow> ('w, event list) Server \<Rightarrow> bool" where
  "agrees s S \<longleftrightarrow> shared_wf s \<and> tracks s = gm_get (tracking S) \<and> bus s = sv_pub S"

lemma five_steps: "(f ^^ 5) x = f (f (f (f (f x))))"
  by (simp add: eval_nat_numeral)

lemma steps_alone:
  "(call_step pub c answer ^^ 5) (Arrived, s) =
     (if answer \<noteq> None then (Replied False, s)
      else (Replied True,
        (track c s)\<lparr>bus := announce pub c
           (if is_register c then None else map_option (readInfo c) (tracks s (call_id c))) (bus s)\<rparr>))"
  by (cases "is_register c"; cases answer)
    (simp_all add: five_steps tracks_def option.map_comp comp_def)

lemma server_exec_updates:
  "gm_get (tracking (server_exec api c S)) j =
     (if registry_answer api c S = None \<and> j = call_id c then updated c (gm_get (tracking S) j)
      else gm_get (tracking S) j)"
  by (cases c) (auto simp: Server_Register_def Server_Deregister_def Server_ReportHealth_def gm_simps Let_def
      toRegistration_def split: prod.splits option.splits)

lemma server_exec_publishes:
  "sv_pub (server_exec api c S) =
     (if registry_answer api c S = None
      then announce record_event c
        (if is_register c then None else map_option (readInfo c) (gm_get (tracking S) (call_id c))) (sv_pub S)
      else sv_pub S)"
  by (cases c) (auto simp: Server_Register_def Server_Deregister_def Server_ReportHealth_def Let_def
      split: prod.splits option.splits)

text \<open>C21: The threads refine the handlers. A call that nobody interrupts is over after five steps, and
  then entries and events are what the atomic handler makes of them, on every branch; the reply
  is success if and only if the registry accepted.\<close>

theorem call_refines_handler:
  assumes "agrees s S"
  shows "let (pc, s') = (call_step record_event c (registry_answer api c S) ^^ 5) (Arrived, s)
    in agrees s' (server_exec api c S) \<and> pc = Replied (registry_answer api c S = None)"
  using assms
  by (auto simp: steps_alone agrees_def track_wf track_tracks server_exec_updates server_exec_publishes fun_eq_iff)

theorem call_refines_handler_witness:
  "let c = CallRegister demo_times None demo_request;
       (pc, s') = (call_step record_event c None ^^ 5) (Arrived, newShared [])
   in agrees s' (server_exec mem_consul c (NewServer NewRegistry [] [])) \<and> pc = Replied True"
proof -
  let ?S = "NewServer NewRegistry [] [] :: (ServiceEntry list, event list) Server"
  let ?c = "CallRegister demo_times None demo_request"
  have "agrees (newShared []) ?S"
    by (simp add: agrees_def newShared_def NewServer_def shared_wf_def tracks_def fun_eq_iff)
  moreover have "registry_answer mem_consul ?c ?S = None"
    by (simp add: Registry_Register_def mem_consul_def NewServer_def demo_request_def Let_def)
  ultimately show ?thesis
    using call_refines_handler [of "newShared []" ?S ?c mem_consul] by (simp add: Let_def)
qed

section \<open>Many calls\<close>

type_synonym thread = "server_call \<times> error option \<times> call_pc"

fun replied :: "thread \<Rightarrow> bool" where
  "replied (c, answer, Replied ok) = True"
| "replied _ = False"

abbreviation thread_id :: "thread \<Rightarrow> string" where
  "thread_id t \<equiv> call_id (fst t)"

text \<open>
  The executions of a new server: at any time a call arrives or some call takes its next step.
  With \<open>one\<close>, a call only arrives when no other call for the same service is in progress.
\<close>

inductive serving :: "bool \<Rightarrow> thread list \<Rightarrow> event list shared \<Rightarrow> bool" for one where
  start: "serving one [] (newShared [])"
| arrive: "serving one ts s \<Longrightarrow> one \<longrightarrow> list_all (\<lambda>t. replied t \<or> thread_id t \<noteq> call_id c) ts \<Longrightarrow>
    serving one (ts @ [(c, answer, Arrived)]) s"
| step: "serving one ts s \<Longrightarrow> k < length ts \<Longrightarrow> ts ! k = (c, answer, pc) \<Longrightarrow>
    call_step record_event c answer (pc, s) = (pc', s') \<Longrightarrow>
    serving one (ts[k := (c, answer, pc')]) s'"

text \<open>The status that is tracked, and the calls that have updated it and not yet published.\<close>

definition tracked_status :: "event list shared \<Rightarrow> string \<Rightarrow> string option" where
  "tracked_status s i = map_option (\<lambda>t. HealthStatus_String (ti_Status t)) (tracks s i)"

fun announcing :: "thread \<Rightarrow> bool" where
  "announcing (c, answer, Tracked info) = True"
| "announcing _ = False"

text \<open>What a call may rely on at each of its points, as long as nobody else works on its service.\<close>

fun thread_ok :: "event list shared \<Rightarrow> thread \<Rightarrow> bool" where
  "thread_ok s (c, answer, Holds p) \<longleftrightarrow> \<not> is_register c \<and> p = gm_get (pointers s) (call_id c)"
| "thread_ok s (c, answer, Knows info) \<longleftrightarrow>
     \<not> is_register c \<and> info = map_option (readInfo c) (tracks s (call_id c))"
| "thread_ok s (c, answer, Accepted info) \<longleftrightarrow>
     is_register c \<or> info = map_option (readInfo c) (tracks s (call_id c))"
| "thread_ok s (c, answer, Tracked info) \<longleftrightarrow>
     tracked_status s (call_id c) = replay (call_id c) (announce record_event c info (bus s)) \<and>
     list_all (event_fits (bus s)) (announce record_event c info [])"
| "thread_ok s _ \<longleftrightarrow> True"

lemma announce_snoc: "announce record_event c info log = log @ announce record_event c info []"
  by (cases c) (auto simp: record_event_def split: option.splits)

lemma announce_fits:
  "log_consistent log \<Longrightarrow> list_all (event_fits log) (announce record_event c info []) \<Longrightarrow>
     log_consistent (announce record_event c info log)"
  by (cases c) (auto simp: record_event_def log_consistent_snoc split: option.splits)

lemma announce_other: "j \<noteq> call_id c \<Longrightarrow> replay j (announce record_event c info log) = replay j log"
  by (cases c) (auto simp: record_event_def replay_snoc split: option.splits)

lemma tracked_status_bus [simp]: "tracked_status (s\<lparr>bus := p\<rparr>) = tracked_status s"
  by (simp add: tracked_status_def fun_eq_iff)

text \<open>The update of a call that knows the entry as it is.\<close>

lemma tracked_ok:
  assumes "shared_wf s" "replay (call_id c) (bus s) = tracked_status s (call_id c)"
    and "is_register c \<or> info = map_option (readInfo c) (tracks s (call_id c))"
  shows "thread_ok (track c s) (c, answer, Tracked info)"
proof -
  have "tracks (track c s) (call_id c) = updated c (tracks s (call_id c))" by (simp add: track_tracks [OF assms(1)])
  then show ?thesis using assms(2,3)
    by (cases c) (auto simp: tracked_status_def record_event_def replay_snoc healthStatusName_def
        option.map_comp comp_def dest: HealthStatus_String_inj split: option.splits simp del: track.simps)
qed

text \<open>One step: what it does to its own service, and that it leaves the others alone.\<close>

lemma step_own:
  assumes "shared_wf s" "log_consistent (bus s)" "thread_ok s (c, answer, pc)"
    and "\<not> announcing (c, answer, pc) \<Longrightarrow> replay (call_id c) (bus s) = tracked_status s (call_id c)"
    and "call_step record_event c answer (pc, s) = (pc', s')"
  shows "shared_wf s' \<and> log_consistent (bus s') \<and> thread_ok s' (c, answer, pc') \<and>
    (announcing (c, answer, pc') \<or> replay (call_id c) (bus s') = tracked_status s' (call_id c))"
proof (cases pc)
  case (Holds p)
  then show ?thesis using assms by (auto simp: tracks_def option.map_comp comp_def)
next
  case (Accepted info)
  then show ?thesis using assms tracked_ok [of s c info answer] track_wf [OF assms(1), of c] by auto
next
  case (Tracked info)
  then show ?thesis using assms announce_fits [of "bus s" c info] by auto
qed (use assms in \<open>auto split: if_splits option.splits\<close>)

lemma step_others:
  assumes "shared_wf s" "call_step record_event c answer (pc, s) = (pc', s')" "j \<noteq> call_id c"
  shows "gm_get (pointers s') j = gm_get (pointers s) j \<and> tracks s' j = tracks s j \<and>
    replay j (bus s') = replay j (bus s)"
  using assms by (cases pc) (auto simp: track_tracks track_pointers announce_other split: if_splits option.splits)

lemma thread_ok_local:
  assumes "thread_ok s t" "gm_get (pointers s') (thread_id t) = gm_get (pointers s) (thread_id t)"
    "tracks s' (thread_id t) = tracks s (thread_id t)" "replay (thread_id t) (bus s') = replay (thread_id t) (bus s)"
  shows "thread_ok s' t"
proof -
  obtain c answer pc where t: "t = (c, answer, pc)" by (cases t)
  show ?thesis
  proof (cases pc)
    case (Tracked info)
    have "replay (call_id c) (announce record_event c info (bus s')) =
        replay (call_id c) (announce record_event c info (bus s))"
      "list_all (event_fits (bus s')) (announce record_event c info []) =
        list_all (event_fits (bus s)) (announce record_event c info [])"
      using assms(4) t by (cases c; auto simp: record_event_def replay_snoc split: option.splits)+
    then show ?thesis using assms t Tracked by (simp add: tracked_status_def)
  qed (use assms t in auto)
qed

section \<open>One call at a time for each service\<close>

definition exclusive :: "thread list \<Rightarrow> bool" where
  "exclusive ts \<longleftrightarrow> (\<forall>k < length ts. \<forall>l < length ts.
     k \<noteq> l \<longrightarrow> \<not> replied (ts ! k) \<longrightarrow> \<not> replied (ts ! l) \<longrightarrow> thread_id (ts ! k) \<noteq> thread_id (ts ! l))"

definition idle :: "string \<Rightarrow> thread list \<Rightarrow> bool" where
  "idle i ts \<longleftrightarrow> list_all (\<lambda>t. thread_id t = i \<longrightarrow> \<not> announcing t) ts"

definition serving_inv :: "thread list \<Rightarrow> event list shared \<Rightarrow> bool" where
  "serving_inv ts s \<longleftrightarrow> shared_wf s \<and> log_consistent (bus s) \<and> exclusive ts \<and> list_all (thread_ok s) ts \<and>
     (\<forall>i. idle i ts \<longrightarrow> replay i (bus s) = tracked_status s i)"

lemma announcing_not_replied: "announcing t \<Longrightarrow> \<not> replied t"
  by (cases t rule: announcing.cases) auto

lemma replied_ok: "replied t \<Longrightarrow> thread_ok s t"
  by (cases t rule: replied.cases) auto

lemma inv_start: "serving_inv [] (newShared [])"
  by (simp add: serving_inv_def newShared_def shared_wf_def exclusive_def idle_def log_consistent_def replay_def
      tracked_status_def tracks_def)

lemma inv_arrive:
  assumes "serving_inv ts s" "list_all (\<lambda>t. replied t \<or> thread_id t \<noteq> call_id c) ts"
  shows "serving_inv (ts @ [(c, answer, Arrived)]) s"
proof -
  have "replied (ts ! k) \<or> thread_id (ts ! k) \<noteq> call_id c" if "k < length ts" for k
    using assms(2) that by (simp add: list_all_length)
  then have "exclusive (ts @ [(c, answer, Arrived)])"
    using assms(1) by (fastforce simp: serving_inv_def exclusive_def nth_append less_Suc_eq)
  then show ?thesis using assms(1) by (simp add: serving_inv_def idle_def)
qed

lemma idle_others:
  assumes "\<And>l. l < length ts \<Longrightarrow> l \<noteq> k \<Longrightarrow> replied (ts ! l) \<or> thread_id (ts ! l) \<noteq> i"
    and "\<not> announcing (ts ! k)"
  shows "idle i ts"
  unfolding idle_def list_all_length
proof (intro allI impI)
  fix l assume "l < length ts" "thread_id (ts ! l) = i"
  then show "\<not> announcing (ts ! l)"
    using assms announcing_not_replied [of "ts ! l"] by (cases "l = k") auto
qed

lemma exclusive_update:
  assumes "exclusive ts" "k < length ts"
    and "\<And>l. l < length ts \<Longrightarrow> l \<noteq> k \<Longrightarrow> replied (ts ! l) \<or> thread_id (ts ! l) \<noteq> thread_id t"
  shows "exclusive (ts[k := t])"
  using assms by (auto simp: exclusive_def nth_list_update) (metis fst_conv)+

lemma inv_step:
  assumes inv: "serving_inv ts s" and k: "k < length ts" "ts ! k = (c, answer, pc)"
    and step: "call_step record_event c answer (pc, s) = (pc', s')"
  shows "serving_inv (ts[k := (c, answer, pc')]) s'"
proof (cases "replied (c, answer, pc)")
  case True
  then have "pc' = pc" "s' = s" using step by (cases pc; simp)+
  moreover have "ts[k := (c, answer, pc)] = ts" using k by (metis list_update_id)
  ultimately show ?thesis using inv by simp
next
  case False
  let ?ts = "ts[k := (c, answer, pc')]"
  have wf: "shared_wf s" "log_consistent (bus s)" "exclusive ts" and ok: "\<And>l. l < length ts \<Longrightarrow> thread_ok s (ts ! l)"
    and log: "\<And>i. idle i ts \<Longrightarrow> replay i (bus s) = tracked_status s i"
    using inv by (auto simp: serving_inv_def list_all_length)
  have others: "replied (ts ! l) \<or> thread_id (ts ! l) \<noteq> call_id c" if "l < length ts" "l \<noteq> k" for l
    using wf(3) that k False by (force simp: exclusive_def)
  have quiet: "idle (call_id c) ts" if "\<not> announcing (c, answer, pc)"
    using that others k(2) by (intro idle_others [of ts k]) auto
  have own: "shared_wf s'" "log_consistent (bus s')" "thread_ok s' (c, answer, pc')"
    "announcing (c, answer, pc') \<or> replay (call_id c) (bus s') = tracked_status s' (call_id c)"
    using step_own [OF wf(1,2) _ _ step] ok [OF k(1)] k(2) log quiet by auto
  note frame = step_others [OF wf(1) step]
  have "thread_ok s' (?ts ! l)" if "l < length ts" for l
  proof (cases "l = k")
    case False
    then show ?thesis using others [OF that] ok [OF that] replied_ok [of "ts ! l" s'] thread_ok_local [of s "ts ! l" s'] frame by auto
  qed (use own k in simp)
  then have "list_all (thread_ok s') ?ts" by (simp add: list_all_length)
  moreover have "exclusive ?ts" using exclusive_update [OF wf(3), of k] others k(1) by simp
  moreover have "replay i (bus s') = tracked_status s' i" if "idle i ?ts" for i
  proof (cases "i = call_id c")
    case True
    have "\<not> announcing (c, answer, pc')" using that k(1) True by (auto simp: idle_def list_all_length)
    then show ?thesis using own(4) True by simp
  next
    case other: False
    have "idle i ts" using that k other by (auto simp: idle_def list_all_length nth_list_update split: if_splits)
    then show ?thesis using log frame [OF other] by (simp add: tracked_status_def)
  qed
  ultimately show ?thesis using own by (simp add: serving_inv_def)
qed

lemma serving_invariant: "serving True ts s \<Longrightarrow> serving_inv ts s"
  by (induction rule: serving.induct) (auto intro: inv_start inv_arrive inv_step)

text \<open>C8: The event log under concurrency. Let the calls of any number of clients overlap in every
  possible way, as long as no two calls in progress are about the same service, and let the
  registry answer whatever it likes. Then at every moment each published change starts from the
  status that the events before it had established and is a change, and for every service
  without a call between its update and its publication the events replay to exactly the status
  that the server tracks.\<close>

theorem concurrent_log_faithful:
  assumes "serving True ts s"
  shows "log_consistent (bus s) \<and> (\<forall>i. idle i ts \<longrightarrow> replay i (bus s) = tracked_status s i)"
  using serving_invariant [OF assms] by (simp add: serving_inv_def)

text \<open>An execution that is given by whose turn it is.\<close>

definition turn :: "nat \<Rightarrow> thread list \<times> event list shared \<Rightarrow> thread list \<times> event list shared" where
  "turn k x =
     (case x of (ts, s) \<Rightarrow>
        if k < length ts then
          (case ts ! k of (c, answer, pc) \<Rightarrow>
             (case call_step record_event c answer (pc, s) of (pc', s') \<Rightarrow> (ts[k := (c, answer, pc')], s')))
        else (ts, s))"

lemma serving_turn: "serving one ts s \<Longrightarrow> turn k (ts, s) = (ts', s') \<Longrightarrow> serving one ts' s'"
  by (auto simp: turn_def intro: serving.step split: if_splits prod.splits)

lemma serving_turns: "serving one ts s \<Longrightarrow> fold turn ks (ts, s) = (ts', s') \<Longrightarrow> serving one ts' s'"
proof (induction ks arbitrary: ts s)
  case (Cons k ks)
  obtain ts1 s1 where one_turn: "turn k (ts, s) = (ts1, s1)" by (cases "turn k (ts, s)")
  then show ?case using Cons.IH [OF serving_turn [OF Cons.prems(1) one_turn]] Cons.prems(2) by simp
qed simp

lemma serving_arrived:
  assumes "one \<longrightarrow> distinct (map (call_id \<circ> fst) cs)"
  shows "serving one (map (\<lambda>(c, answer). (c, answer, Arrived)) cs) (newShared [])"
  using assms
proof (induction cs rule: rev_induct)
  case (snoc x cs)
  obtain c answer where x: "x = (c, answer)" by (cases x)
  have "list_all (\<lambda>t. replied t \<or> thread_id t \<noteq> call_id c) (map (\<lambda>(c, answer). (c, answer, Arrived)) cs)" if one
    using snoc.prems that x by (force simp: list_all_iff)
  then show ?case using snoc serving.arrive [of one _ "newShared []" c answer] x by auto
qed (simp add: serving.start)

theorem concurrent_log_faithful_witness:
  "\<exists>ts s. serving True ts s \<and> length (bus s) = 2 \<and> replay ''api-1'' (bus s) = Some ''Healthy''"
proof -
  let ?c = "CallRegister demo_times None demo_request"
    and ?d = "CallRegister demo_times None (demo_request\<lparr>rq_ServiceId := ''api-2''\<rparr>)"
  let ?ts = "[(?c, None, Arrived), (?d, None, Arrived)]"
  obtain ts s where run: "fold turn [0, 1, 1, 0, 1, 0] (?ts, newShared []) = (ts, s)"
    by (cases "fold turn [0, 1, 1, 0, 1, 0] (?ts, newShared [])")
  have "serving True ?ts (newShared [])"
    using serving_arrived [of True "[(?c, None), (?d, None)]"] by (simp add: requestID_def demo_request_def)
  then have serving: "serving True ts s" using run by (rule serving_turns)
  have "ts = [(?c, None, Replied True), (?d, None, Replied True)]" "length (bus s) = 2"
    "tracked_status s ''api-1'' = Some ''Healthy''"
    using run by (auto simp: turn_def newShared_def record_event_def tracked_status_def tracks_def gm_simps
        requestID_def demo_request_def Let_def)
  then show ?thesis using serving concurrent_log_faithful [OF serving] by (intro exI [of _ ts] exI [of _ s]) (simp add: idle_def)
qed

text \<open>C24: Two reports at once. Without that discipline the log goes wrong: for every service there is an
  execution in which it is registered, one client reports it unhealthy and another one degraded,
  all three calls succeed, and in the end the events say that it is unhealthy while the server
  tracks it as degraded, for the handlers publish after they have released the lock.\<close>

theorem concurrent_reports_diverge:
  "\<exists>ts s. serving False ts s \<and> list_all (\<lambda>t. snd (snd t) = Replied True) ts \<and> length ts = 3 \<and>
     replay (requestID t req) (bus s) = Some ''Unhealthy'' \<and>
     tracked_status s (requestID t req) = Some ''Degraded''"
proof -
  let ?i = "requestID t req"
  let ?ts = "[(CallRegister t None req, None, Arrived), (CallReport t ?i HEALTH_STATUS_UNHEALTHY [], None, Arrived),
    (CallReport t ?i HEALTH_STATUS_DEGRADED [], None, Arrived)]"
  let ?ks = "[0, 0, 0, 1, 1, 2, 2, 1, 1, 2, 2, 2, 1] :: nat list"
  obtain ts s where run: "fold turn ?ks (?ts, newShared []) = (ts, s)"
    by (cases "fold turn ?ks (?ts, newShared [])")
  have "serving False ?ts (newShared [])"
    using serving_arrived [of False "map (\<lambda>t. (fst t, None)) ?ts"] by simp
  then have "serving False ts s" using run by (rule serving_turns)
  moreover have "list_all (\<lambda>t. snd (snd t) = Replied True) ts \<and> length ts = 3 \<and>
      replay ?i (bus s) = Some ''Unhealthy'' \<and> tracked_status s ?i = Some ''Degraded''"
    using run by (auto simp: turn_def newShared_def record_event_def tracked_status_def tracks_def gm_simps replay_def
        modify_def fromProtoHealth_def proto_enum healthStatusName_def Let_def)
  ultimately show ?thesis by blast
qed

end
