(* ===== verification/Gateway_Config.thy ===== *)
theory Gateway_Config
  imports Complex_Main Mesh_Types
begin

text \<open>
  The configuration records of \<^verbatim>\<open>internal/gateway/config.go\<close> and how \<^verbatim>\<open>cmd/gateway/main.go\<close> fills
  them from the environment. The environment is the argument \<open>getenv\<close>, which returns the empty
  string for a variable that is not set, as \<^verbatim>\<open>os.Getenv\<close> does.
\<close>

section \<open>Configuration\<close>

record RoutingConfig =
  RoutePrefix :: string
  RefreshInterval :: duration

record RateLimitConfig =
  Enabled :: bool
  PermitLimit :: go_int
  WindowSeconds :: go_int

record CORSConfig =
  AllowAnyOrigin :: bool
  AllowedOrigins :: "string list"
  AllowedHeaders :: "string list"
  AllowedMethods :: "string list"

record JWTConfig =
  SecretKey :: string
  Issuer :: string
  Audience :: string
  ValidateIssuer :: bool
  ValidateAudience :: bool

record ResilienceConfig =
  RetryCount :: go_int
  RetryBaseDelay :: duration
  RetryBackoffExponent :: real
  RetryJitterMax :: duration
  BreakerFailureThreshold :: go_int
  BreakerBreakDuration :: duration

record DashboardConfig =
  PrometheusBaseURL :: string
  TracingBaseURL :: string
  DiscoveryBaseURL :: string
  HealthMonitorBaseURL :: string
  ServiceAuthSecret :: string

record gw_Config =
  cfg_Port :: string
  ConsulAddr :: string
  RabbitURL :: string
  Routing :: RoutingConfig
  RateLimit :: RateLimitConfig
  cfg_CORS :: CORSConfig
  JWT :: JWTConfig
  Resilience :: ResilienceConfig
  Dashboard :: DashboardConfig

definition gw_DefaultConfig :: gw_Config where
  "gw_DefaultConfig =
     \<lparr>cfg_Port = ''5000'', ConsulAddr = ''http://localhost:8500'', RabbitURL = [],
      Routing = \<lparr>RoutePrefix = ''/api/'', RefreshInterval = 30 * Second\<rparr>,
      RateLimit = \<lparr>Enabled = True, PermitLimit = 100, WindowSeconds = 60\<rparr>,
      cfg_CORS =
        \<lparr>AllowAnyOrigin = True, AllowedOrigins = [],
         AllowedHeaders = [''Authorization'', ''Content-Type''],
         AllowedMethods = [''GET'', ''POST'', ''PUT'', ''PATCH'', ''DELETE'', ''OPTIONS'']\<rparr>,
      JWT =
        \<lparr>SecretKey = [], Issuer = [], Audience = [], ValidateIssuer = True, ValidateAudience = True\<rparr>,
      Resilience =
        \<lparr>RetryCount = 3, RetryBaseDelay = 200 * Millisecond, RetryBackoffExponent = 2,
         RetryJitterMax = 200 * Millisecond, BreakerFailureThreshold = 3,
         BreakerBreakDuration = 20 * Second\<rparr>,
      Dashboard =
        \<lparr>PrometheusBaseURL = ''http://localhost:9090'', TracingBaseURL = ''http://localhost:5004'',
         DiscoveryBaseURL = ''http://localhost:5010'', HealthMonitorBaseURL = ''http://localhost:5005'',
         ServiceAuthSecret = []\<rparr>\<rparr>"

section \<open>The environment\<close>

type_synonym getenv = "string \<Rightarrow> string"

definition envOr :: "getenv \<Rightarrow> string \<Rightarrow> string \<Rightarrow> string" where
  "envOr getenv key fallback = (if getenv key \<noteq> [] then getenv key else fallback)"

definition splitComma :: "string \<Rightarrow> string list" where
  "splitComma s = filter (\<lambda>p. p \<noteq> []) (map TrimSpace (Split s CHR '',''))"

text \<open>\<^verbatim>\<open>if v, err := strconv.Atoi(os.Getenv(key)); err == nil && v > 0\<close>, with the bound as an argument.\<close>

definition envInt :: "getenv \<Rightarrow> string \<Rightarrow> int \<Rightarrow> int option" where
  "envInt getenv key lo =
     (case Atoi (getenv key) of Some v \<Rightarrow> if lo \<le> v then Some v else None | None \<Rightarrow> None)"

definition loadConfig :: "getenv \<Rightarrow> gw_Config" where
  "loadConfig getenv =
     (let d = gw_DefaultConfig; routing = Routing d; rate = RateLimit d; cors = cfg_CORS d;
          jwt = JWT d; res = Resilience d; dash = Dashboard d
      in d\<lparr>cfg_Port := envOr getenv ''GATEWAY_PORT'' (cfg_Port d),
           ConsulAddr := envOr getenv ''CONSUL_ADDRESS'' (ConsulAddr d),
           Routing :=
             \<lparr>RoutePrefix = envOr getenv ''GATEWAY_ROUTE_PREFIX'' (RoutePrefix routing),
              RefreshInterval =
                (case envInt getenv ''GATEWAY_ROUTE_REFRESH_SECONDS'' 1 of
                   Some v \<Rightarrow> wrap64 (v * Second) | None \<Rightarrow> RefreshInterval routing)\<rparr>,
           RateLimit :=
             \<lparr>Enabled = (if getenv ''GATEWAY_RATE_LIMIT_ENABLED'' = ''false'' then False else Enabled rate),
              PermitLimit =
                (case envInt getenv ''GATEWAY_RATE_LIMIT_PERMITS'' 1 of
                   Some v \<Rightarrow> v | None \<Rightarrow> PermitLimit rate),
              WindowSeconds =
                (case envInt getenv ''GATEWAY_RATE_LIMIT_WINDOW_SECONDS'' 1 of
                   Some v \<Rightarrow> v | None \<Rightarrow> WindowSeconds rate)\<rparr>,
           cfg_CORS := cors\<lparr>
             AllowAnyOrigin :=
               (if getenv ''GATEWAY_CORS_ALLOW_ANY_ORIGIN'' = ''false'' then False else AllowAnyOrigin cors),
             AllowedOrigins :=
               (if getenv ''GATEWAY_CORS_ALLOWED_ORIGINS'' \<noteq> []
                then splitComma (getenv ''GATEWAY_CORS_ALLOWED_ORIGINS'') else AllowedOrigins cors)\<rparr>,
           JWT := jwt\<lparr>
             SecretKey := getenv ''JWT_SECRET_KEY'',
             Issuer := envOr getenv ''JWT_ISSUER'' ''ToskaMesh.Gateway'',
             Audience := envOr getenv ''JWT_AUDIENCE'' ''ToskaMesh.Services''\<rparr>,
           Resilience := res\<lparr>
             RetryCount :=
               (case envInt getenv ''GATEWAY_RETRY_COUNT'' 0 of Some v \<Rightarrow> v | None \<Rightarrow> RetryCount res)\<rparr>,
           Dashboard :=
             \<lparr>PrometheusBaseURL = envOr getenv ''DASHBOARD_PROMETHEUS_URL'' (PrometheusBaseURL dash),
              TracingBaseURL = envOr getenv ''DASHBOARD_TRACING_URL'' (TracingBaseURL dash),
              DiscoveryBaseURL = envOr getenv ''DASHBOARD_DISCOVERY_URL'' (DiscoveryBaseURL dash),
              HealthMonitorBaseURL = envOr getenv ''DASHBOARD_HEALTHMONITOR_URL'' (HealthMonitorBaseURL dash),
              ServiceAuthSecret = envOr getenv ''MESH_SERVICE_AUTH_SECRET'' (ServiceAuthSecret dash)\<rparr>\<rparr>)"

section \<open>Lemmas\<close>

lemma envInt_range: "envInt getenv k lo = Some v \<Longrightarrow> is_int64 v \<and> lo \<le> v"
  by (auto simp: envInt_def Atoi_def Let_def split: option.splits if_splits)

lemma splitComma_parts: "p \<in> set (splitComma s) \<Longrightarrow> p \<noteq> []"
  by (auto simp: splitComma_def)

lemma load_RateLimit:
  "1 \<le> PermitLimit (RateLimit (loadConfig getenv))"
  "is_int64 (PermitLimit (RateLimit (loadConfig getenv)))"
  "1 \<le> WindowSeconds (RateLimit (loadConfig getenv))"
  by (auto simp: loadConfig_def gw_DefaultConfig_def Let_def int_range_defs dest: envInt_range
      split: option.splits)

lemma load_Resilience:
  "0 \<le> RetryCount (Resilience (loadConfig getenv))"
  "is_int64 (RetryCount (Resilience (loadConfig getenv)))"
  "BreakerFailureThreshold (Resilience (loadConfig getenv)) = 3"
  by (auto simp: loadConfig_def gw_DefaultConfig_def Let_def int_range_defs dest: envInt_range
      split: option.splits)

lemma load_strings:
  "cfg_Port (loadConfig getenv) \<noteq> []" "RoutePrefix (Routing (loadConfig getenv)) \<noteq> []"
  "Issuer (JWT (loadConfig getenv)) \<noteq> []" "Audience (JWT (loadConfig getenv)) \<noteq> []"
  "ValidateIssuer (JWT (loadConfig getenv))" "ValidateAudience (JWT (loadConfig getenv))"
  by (simp_all add: loadConfig_def gw_DefaultConfig_def envOr_def Let_def)

lemma load_origins: "\<forall>origin \<in> set (AllowedOrigins (cfg_CORS (loadConfig getenv))). origin \<noteq> []"
  by (auto simp: loadConfig_def gw_DefaultConfig_def Let_def dest: splitComma_parts)

text \<open>What the components need of a configuration that the environment produced.\<close>

definition config_ok :: "gw_Config \<Rightarrow> bool" where
  "config_ok cfg \<longleftrightarrow>
     1 \<le> PermitLimit (RateLimit cfg) \<and> is_int64 (PermitLimit (RateLimit cfg)) \<and>
     1 \<le> WindowSeconds (RateLimit cfg) \<and>
     0 \<le> RetryCount (Resilience cfg) \<and> is_int64 (RetryCount (Resilience cfg)) \<and>
     1 \<le> BreakerFailureThreshold (Resilience cfg) \<and>
     cfg_Port cfg \<noteq> [] \<and> RoutePrefix (Routing cfg) \<noteq> [] \<and>
     Issuer (JWT cfg) \<noteq> [] \<and> Audience (JWT cfg) \<noteq> [] \<and>
     ValidateIssuer (JWT cfg) \<and> ValidateAudience (JWT cfg) \<and>
     list_all (\<lambda>origin. origin \<noteq> []) (AllowedOrigins (cfg_CORS cfg))"

text \<open>Whatever the environment holds, the loaded configuration is usable, and an empty environment
  leaves the defaults.\<close>

lemma loadConfig_ok: "config_ok (loadConfig getenv)"
  using load_RateLimit [of getenv] load_Resilience [of getenv] load_strings [of getenv]
    load_origins [of getenv]
  by (simp add: config_ok_def list_all_iff)

lemma loadConfig_default:
  "loadConfig (\<lambda>_. []) = gw_DefaultConfig\<lparr>JWT := JWT gw_DefaultConfig
     \<lparr>Issuer := ''ToskaMesh.Gateway'', Audience := ''ToskaMesh.Services''\<rparr>\<rparr>"
  by (simp add: loadConfig_def gw_DefaultConfig_def envOr_def envInt_def Atoi_def Let_def)

end
