(* ===== verification/Gateway_Routes.thy ===== *)
theory Gateway_Routes
  imports Gateway_Config
begin

text \<open>
  The route table of \<^verbatim>\<open>internal/gateway/routes.go\<close>: the refresh from Consul, the lookup, and the
  path functions. The answers of the registry are arguments of \<open>refresh\<close>, the random number of
  \<^verbatim>\<open>Lookup\<close> is an argument, and the URL type of \<^verbatim>\<open>net/url\<close> is a parameter of \<open>BuildBackendURL\<close>.
\<close>

section \<open>State and operations\<close>

record Backend =
  be_ServiceID :: string
  be_Address :: string

record ServiceRoute =
  route_ServiceName :: string
  Backends :: "Backend list"

record RouteTable =
  rt_config :: RoutingConfig
  routes :: "(string, ServiceRoute) gomap"

definition NewRouteTable :: "RoutingConfig \<Rightarrow> RouteTable" where
  "NewRouteTable config = \<lparr>rt_config = config, routes = []\<rparr>"

definition Lookup :: "unicode_tables \<Rightarrow> string \<Rightarrow> nat \<Rightarrow> RouteTable \<Rightarrow> Backend option" where
  "Lookup u serviceName r rt =
     (case gm_get (routes rt) (ToLower u serviceName) of
        None \<Rightarrow> None
      | Some route \<Rightarrow>
          if length (Backends route) = 0 then None
          else Some (Backends route ! (r mod length (Backends route))))"

definition Services :: "RouteTable \<Rightarrow> string list" where
  "Services rt = map route_ServiceName (gm_values (routes rt))"

definition toBackend :: "Instance \<Rightarrow> Backend" where
  "toBackend inst =
     (let scheme = (case meta_nonempty (Metadata inst) ''scheme'' of Some s \<Rightarrow> s | None \<Rightarrow> ''http'')
      in \<lparr>be_ServiceID = ServiceID inst,
          be_Address = scheme @ ''://'' @ Address inst @ '':'' @ Itoa (Port inst)\<rparr>)"

definition healthyBackends :: "Instance list \<Rightarrow> Backend list" where
  "healthyBackends instances =
     map toBackend (filter (\<lambda>inst. Status inst = HealthHealthy) instances)"

text \<open>One round of the loop over the services.\<close>

definition addRoute ::
  "unicode_tables \<Rightarrow> (string \<Rightarrow> error + Instance list) \<Rightarrow> string \<Rightarrow> (string, ServiceRoute) gomap
     \<Rightarrow> (string, ServiceRoute) gomap" where
  "addRoute u getInstances serviceName newRoutes =
     (if EqualFold u serviceName ''consul'' then newRoutes
      else (case getInstances serviceName of
              Inl err \<Rightarrow> newRoutes
            | Inr instances \<Rightarrow>
                (let backends = healthyBackends instances
                 in if length backends = 0 then newRoutes
                    else gm_set (ToLower u serviceName)
                           \<lparr>route_ServiceName = serviceName, Backends = backends\<rparr> newRoutes)))"

definition refresh ::
  "unicode_tables \<Rightarrow> error + string list \<Rightarrow> (string \<Rightarrow> error + Instance list) \<Rightarrow> RouteTable \<Rightarrow> RouteTable" where
  "refresh u services getInstances rt =
     (case services of
        Inl err \<Rightarrow> rt
      | Inr names \<Rightarrow> rt\<lparr>routes := fold (addRoute u getInstances) names []\<rparr>)"

text \<open>\<^verbatim>\<open>Run\<close>: a round is given by the answers of the registry.\<close>

definition RouteTable_Run ::
  "unicode_tables \<Rightarrow> (error + string list) \<times> (string \<Rightarrow> error + Instance list) \<Rightarrow>
   ((error + string list) \<times> (string \<Rightarrow> error + Instance list)) select list \<Rightarrow> RouteTable \<Rightarrow>
   RouteTable run_result" where
  "RouteTable_Run u first events rt =
     (let round = (\<lambda>(services, getInstances). refresh u services getInstances);
          rt1 = round first rt
      in if RefreshInterval (rt_config rt1) \<le> 0 then Panicked rt1 else select_loop round events rt1)"

definition normalizePrefix :: "string \<Rightarrow> string" where
  "normalizePrefix prefix0 =
     (if prefix0 = [] then ''/''
      else (let p1 = (if HasPrefix prefix0 ''/'' then prefix0 else ''/'' @ prefix0)
            in if HasSuffix p1 ''/'' then p1 else p1 @ ''/''))"

definition Prefix :: "RouteTable \<Rightarrow> string" where
  "Prefix rt = normalizePrefix (RoutePrefix (rt_config rt))"

definition ParseServiceFromPath :: "string \<Rightarrow> string \<Rightarrow> (string \<times> string) option" where
  "ParseServiceFromPath pre path =
     (if \<not> HasPrefix path pre then None
      else (let rest = drop (length pre) path
            in if rest = [] then None
               else (case IndexByte rest CHR ''/'' of
                       None \<Rightarrow> Some (rest, ''/'')
                     | Some idx \<Rightarrow> Some (take idx rest, drop idx rest))))"

definition BuildBackendURL ::
  "(string \<Rightarrow> error + 'url) \<Rightarrow> (string \<Rightarrow> string \<Rightarrow> 'url \<Rightarrow> 'url) \<Rightarrow> ('url \<Rightarrow> string)
     \<Rightarrow> string \<Rightarrow> string \<Rightarrow> string \<Rightarrow> string" where
  "BuildBackendURL url_Parse setPathQuery url_String backendAddr remainder rawQuery =
     (case url_Parse backendAddr of
        Inl err \<Rightarrow> backendAddr @ remainder
      | Inr x \<Rightarrow> url_String (setPathQuery remainder rawQuery x))"

section \<open>Paths\<close>

lemma HasPrefix_slash: "HasPrefix s ''/'' \<longleftrightarrow> s \<noteq> [] \<and> hd s = CHR ''/''"
  by (cases s) (auto simp: HasPrefix_def)

lemma HasSuffix_slash: "HasSuffix s ''/'' \<longleftrightarrow> s \<noteq> [] \<and> last s = CHR ''/''"
  by (cases s rule: rev_cases) (auto simp: HasSuffix_def)

lemma normalizePrefix_shape:
  "normalizePrefix p \<noteq> [] \<and> hd (normalizePrefix p) = CHR ''/'' \<and> last (normalizePrefix p) = CHR ''/''"
  by (auto simp: normalizePrefix_def HasPrefix_slash HasSuffix_slash Let_def hd_append)

lemma normalizePrefix_fix:
  "p \<noteq> [] \<Longrightarrow> hd p = CHR ''/'' \<Longrightarrow> last p = CHR ''/'' \<Longrightarrow> normalizePrefix p = p"
  by (simp add: normalizePrefix_def HasPrefix_slash HasSuffix_slash)

lemma normalizePrefix_idem [simp]: "normalizePrefix (normalizePrefix p) = normalizePrefix p"
  using normalizePrefix_shape [of p] by (intro normalizePrefix_fix) auto

lemma ParseServiceFromPath_Some:
  "ParseServiceFromPath pre path = Some (s, rest) \<longleftrightarrow>
     CHR ''/'' \<notin> set s \<and> (path = pre @ s \<and> s \<noteq> [] \<and> rest = ''/'' \<or>
       (\<exists>t. rest = CHR ''/'' # t \<and> path = pre @ s @ rest))"
  (is "?L \<longleftrightarrow> ?R")
proof
  assume ?L
  then obtain t where path: "path = pre @ t" and t: "t \<noteq> []"
    by (auto simp: ParseServiceFromPath_def HasPrefix_iff split: if_splits)
  show ?R
  proof (cases "IndexByte t CHR ''/''")
    case None
    then have "CHR ''/'' \<notin> set t" by (simp add: IndexByte_None)
    then show ?thesis using \<open>?L\<close> path t None by (auto simp: ParseServiceFromPath_def)
  next
    case (Some i)
    then have i: "i < length t" "t ! i = CHR ''/''" "CHR ''/'' \<notin> set (take i t)"
      using IndexByte_Some by blast+
    then have "drop i t = CHR ''/'' # drop (Suc i) t" by (metis Cons_nth_drop_Suc)
    moreover have "s = take i t" "rest = drop i t"
      using \<open>?L\<close> path t Some by (simp_all add: ParseServiceFromPath_def)
    moreover have "t = take i t @ drop i t" by simp
    ultimately show ?thesis using path i(3) by metis
  qed
next
  assume ?R
  then show ?L
  proof (elim conjE disjE exE)
    assume "CHR ''/'' \<notin> set s" "path = pre @ s" "s \<noteq> []" "rest = ''/''"
    then show ?L using IndexByte_None [of s "CHR ''/''"] by (simp add: ParseServiceFromPath_def)
  next
    fix t assume "CHR ''/'' \<notin> set s" "rest = CHR ''/'' # t" "path = pre @ s @ rest"
    then show ?L by (simp add: ParseServiceFromPath_def IndexByte_append Let_def)
  qed
qed

section \<open>The table after a refresh\<close>

text \<open>What one service contributes.\<close>

definition service_backends ::
  "unicode_tables \<Rightarrow> (string \<Rightarrow> error + Instance list) \<Rightarrow> string \<Rightarrow> Backend list" where
  "service_backends u getInstances s =
     (if EqualFold u s ''consul'' then []
      else (case getInstances s of Inl _ \<Rightarrow> [] | Inr xs \<Rightarrow> healthyBackends xs))"

lemma addRoute_get:
  "gm_get (addRoute u gi s m) k =
     (if service_backends u gi s \<noteq> [] \<and> k = ToLower u s
      then Some \<lparr>route_ServiceName = s, Backends = service_backends u gi s\<rparr> else gm_get m k)"
  by (auto simp: addRoute_def service_backends_def gm_simps Let_def split: sum.splits)

lemma fold_addRoute_get:
  "gm_get (fold (addRoute u gi) names m) k =
     (case find (\<lambda>s. service_backends u gi s \<noteq> [] \<and> ToLower u s = k) (rev names) of
        Some s \<Rightarrow> Some \<lparr>route_ServiceName = s, Backends = service_backends u gi s\<rparr>
      | None \<Rightarrow> gm_get m k)"
proof (induction names rule: rev_induct)
  case (snoc s names)
  then show ?case by (simp add: addRoute_get)
qed simp

lemma addRoute_wf: "gm_wf m \<Longrightarrow> gm_wf (addRoute u gi s m)"
  by (auto simp: addRoute_def Let_def split: sum.splits)

lemma fold_addRoute_wf: "gm_wf m \<Longrightarrow> gm_wf (fold (addRoute u gi) names m)"
  by (induction names arbitrary: m) (auto simp: addRoute_wf)

lemma Lookup_refresh:
  "Lookup u n r (refresh u (Inr names) gi rt) =
     (case find (\<lambda>s. service_backends u gi s \<noteq> [] \<and> ToLower u s = ToLower u n) (rev names) of
        None \<Rightarrow> None
      | Some s \<Rightarrow> Some (service_backends u gi s ! (r mod length (service_backends u gi s))))"
proof (cases "find (\<lambda>s. service_backends u gi s \<noteq> [] \<and> ToLower u s = ToLower u n) (rev names)")
  case (Some s)
  then have "service_backends u gi s \<noteq> []" by (auto dest: find_SomeD)
  then show ?thesis using Some by (simp add: Lookup_def refresh_def fold_addRoute_get)
qed (simp add: Lookup_def refresh_def fold_addRoute_get)

lemma Lookup_complete:
  assumes "distinct (map (ToLower u) names)" and "n \<in> set names" and "\<not> EqualFold u n ''consul''"
    and "gi n = Inr xs" and "inst \<in> set xs" and "Status inst = HealthHealthy"
  shows "\<exists>r. Lookup u n r (refresh u (Inr names) gi rt) = Some (toBackend inst)"
proof -
  have mem: "toBackend inst \<in> set (service_backends u gi n)"
    using assms by (simp add: service_backends_def healthyBackends_def)
  then have "find (\<lambda>s. service_backends u gi s \<noteq> [] \<and> ToLower u s = ToLower u n) (rev names) = Some n"
    using assms(1,2) by (intro find_unique) (auto simp: distinct_map inj_on_def)
  moreover obtain k where "k < length (service_backends u gi n)"
    "service_backends u gi n ! k = toBackend inst" using mem by (auto simp: in_set_conv_nth)
  ultimately show ?thesis by (intro exI [of _ k]) (simp add: Lookup_refresh)
qed

section \<open>Tables over time\<close>

interpretation table_poll: polling "\<lambda>(services, gi). refresh u services gi" "\<lambda>_. True"
    "\<lambda>names gi rt. refresh u (Inr names) gi rt = rt" for u
  by unfold_locales (simp_all add: refresh_def)


text \<open>
  The tables that the refresh loop can produce when the registry gives the answers \<open>A\<close>: the names
  it lists and the instances of each of them. A refresh may also fail to list the services.
\<close>

type_synonym answer = "string list \<times> (string \<Rightarrow> error + Instance list)"

inductive table_from :: "unicode_tables \<Rightarrow> answer set \<Rightarrow> RouteTable \<Rightarrow> bool" for u A where
  initial: "table_from u A (NewRouteTable config)"
| refreshed: "table_from u A rt \<Longrightarrow> (names, gi) \<in> A \<Longrightarrow> table_from u A (refresh u (Inr names) gi rt)"
| failed: "table_from u A rt \<Longrightarrow> table_from u A (refresh u (Inl err) gi rt)"

text \<open>A healthy instance of a service of that name (up to case), in one of the answers.\<close>

definition healthy_in :: "unicode_tables \<Rightarrow> answer set \<Rightarrow> string \<Rightarrow> Backend \<Rightarrow> bool" where
  "healthy_in u A n b \<longleftrightarrow>
     (\<exists>names gi s xs inst. (names, gi) \<in> A \<and> s \<in> set names \<and> ToLower u s = ToLower u n \<and>
        gi s = Inr xs \<and> inst \<in> set xs \<and> Status inst = HealthHealthy \<and> b = toBackend inst)"

lemma service_backends_healthy:
  "b \<in> set (service_backends u gi s) \<Longrightarrow>
     \<exists>xs inst. gi s = Inr xs \<and> inst \<in> set xs \<and> Status inst = HealthHealthy \<and> b = toBackend inst"
  by (auto simp: service_backends_def healthyBackends_def split: sum.splits if_splits)

lemma table_from_healthy:
  "table_from u A rt \<Longrightarrow> Lookup u n r rt = Some b \<Longrightarrow> healthy_in u A n b"
proof (induction rule: table_from.induct)
  case (initial config)
  then show ?case by (simp add: Lookup_def NewRouteTable_def)
next
  case (refreshed rt names gi)
  then obtain s where s: "s \<in> set names" "service_backends u gi s \<noteq> []" "ToLower u s = ToLower u n"
    and b: "b = service_backends u gi s ! (r mod length (service_backends u gi s))"
    by (auto simp: Lookup_refresh split: option.splits dest!: find_SomeD)
  then have "b \<in> set (service_backends u gi s)" by simp
  from service_backends_healthy [OF this] show ?case
    using s refreshed.hyps(2) unfolding healthy_in_def by metis
next
  case (failed rt err gi)
  then show ?case by (simp add: refresh_def)
qed

section \<open>Properties\<close>

text \<open>Traffic goes to healthy instances only, and to each of them. After a refresh a lookup
  returns a backend only for a listed service, other than Consul itself, whose name agrees up
  to case, and then one of its healthy instances; and if no two listed services agree up to
  case, every healthy instance of a service is what some random draw looks up. A refresh that
  cannot list the services keeps the table.\<close>

theorem routes_are_healthy_instances:
  "(case Lookup u n r (refresh u (Inr names) gi rt) of
      None \<Rightarrow> True
    | Some b \<Rightarrow> \<exists>s xs inst. s \<in> set names \<and> ToLower u s = ToLower u n \<and> \<not> EqualFold u s ''consul'' \<and>
        gi s = Inr xs \<and> inst \<in> set xs \<and> Status inst = HealthHealthy \<and> b = toBackend inst) \<and>
   (if distinct (map (ToLower u) names) \<and> n \<in> set names \<and> \<not> EqualFold u n ''consul'' \<and> gi n = Inr xs \<and>
       inst \<in> set xs \<and> Status inst = HealthHealthy
    then \<exists>r. Lookup u n r (refresh u (Inr names) gi rt) = Some (toBackend inst) else True) \<and>
   refresh u (Inl err) gi rt = rt"
proof -
  have sound: "\<exists>s xs inst. s \<in> set names \<and> ToLower u s = ToLower u n \<and> \<not> EqualFold u s ''consul'' \<and>
      gi s = Inr xs \<and> inst \<in> set xs \<and> Status inst = HealthHealthy \<and> b = toBackend inst"
    if b: "Lookup u n r (refresh u (Inr names) gi rt) = Some b" for b
  proof -
    obtain s where s: "s \<in> set names" "service_backends u gi s \<noteq> []" "ToLower u s = ToLower u n"
      "b = service_backends u gi s ! (r mod length (service_backends u gi s))"
      using b by (auto simp: Lookup_refresh dest!: find_SomeD split: option.splits)
    then have "b \<in> set (service_backends u gi s)" by simp
    then obtain xs inst where "\<not> EqualFold u s ''consul''" "gi s = Inr xs" "inst \<in> set xs"
        "Status inst = HealthHealthy" "b = toBackend inst"
      by (cases "gi s") (auto simp: service_backends_def healthyBackends_def split: if_splits)
    then show ?thesis using s(1,3) by blast
  qed
  show ?thesis using sound Lookup_complete [of u names n gi xs inst rt] by (auto simp: refresh_def split: option.splits)
qed

text \<open>The route prefix is normalised to start and end with a slash, once and for all; and the
  path of a request splits in exactly one way: it parses into a service and a remainder if and
  only if it is the prefix, a service name without a slash, and a remainder that starts with
  one (or is missing, when the name is not empty, and is then a single slash).\<close>

theorem path_parsing:
  "hd (normalizePrefix p) = CHR ''/'' \<and> last (normalizePrefix p) = CHR ''/'' \<and>
   normalizePrefix (normalizePrefix p) = normalizePrefix p \<and>
   (ParseServiceFromPath pre path = Some (s, rest) \<longleftrightarrow>
     CHR ''/'' \<notin> set s \<and> (path = pre @ s \<and> s \<noteq> [] \<and> rest = ''/'' \<or>
       (\<exists>t. rest = CHR ''/'' # t \<and> path = pre @ s @ rest)))"
  using normalizePrefix_shape ParseServiceFromPath_Some by auto

end
