(* ===== verification/Gateway_Proxy.thy ===== *)
theory Gateway_Proxy
  imports Gateway_Routes Circuit_Breaker Go_Net
begin

text \<open>
  The reverse proxy of \<^verbatim>\<open>internal/gateway/proxy.go\<close>. A request is handled in attempts, and what
  the outside does in an attempt is the record \<open>attempt_env\<close>: the route table at that moment (the
  refresh loop may replace it between attempts), the random draw of the lookup, the clock
  readings of the breaker, what other requests do to the breakers meanwhile, and how the
  transport answers. \<^verbatim>\<open>url.Parse\<close> is a parameter. The delays of \<^verbatim>\<open>retryDelay\<close> are floating-point
  numbers that only decide how long the clock advances between two attempts.

  The loop keeps a log of its attempts; the theorems speak about the log.
\<close>

section \<open>The breaker map\<close>

record breakerMap =
  bm_threshold :: go_int
  bm_duration :: duration
  bm_breakers :: "(string, CircuitBreaker) gomap"

definition newBreakerMap :: "go_int \<Rightarrow> duration \<Rightarrow> breakerMap" where
  "newBreakerMap threshold dur = \<lparr>bm_threshold = threshold, bm_duration = dur, bm_breakers = []\<rparr>"

definition breakerMap_get :: "string \<Rightarrow> breakerMap \<Rightarrow> CircuitBreaker \<times> breakerMap" where
  "breakerMap_get serviceID bm =
     (case gm_get (bm_breakers bm) serviceID of
        Some cb \<Rightarrow> (cb, bm)
      | None \<Rightarrow>
          (let cb = NewCircuitBreaker (bm_threshold bm) (bm_duration bm)
           in (cb, bm\<lparr>bm_breakers := gm_set serviceID cb (bm_breakers bm)\<rparr>)))"

interpretation pb: get_or_create "\<lambda>bm. gm_get (bm_breakers bm)" breakerMap_get
    "\<lambda>bm. NewCircuitBreaker (bm_threshold bm) (bm_duration bm)"
  by unfold_locales (auto simp: breakerMap_get_def gm_simps Let_def split: option.splits)

text \<open>A method call on the breaker that the map holds for a service.\<close>

definition onBreaker :: "string \<Rightarrow> (CircuitBreaker \<Rightarrow> CircuitBreaker) \<Rightarrow> breakerMap \<Rightarrow> breakerMap" where
  "onBreaker serviceID f bm =
     (let (cb, bm1) = breakerMap_get serviceID bm
      in bm1\<lparr>bm_breakers := gm_set serviceID (f cb) (bm_breakers bm1)\<rparr>)"

section \<open>Requests and responses\<close>

record bufferedResponse =
  statusCode :: go_int
  header :: header
  body :: string

definition writeTo :: "bufferedResponse \<Rightarrow> writer \<Rightarrow> writer" where
  "writeTo br w =
     Write (body br) (WriteHeader (statusCode br) (on_header (Header_AddAll (header br)) w))"

definition maxRequestBody :: nat where "maxRequestBody = 10485760"
definition maxResponseBody :: nat where "maxResponseBody = 10485760"

record outRequest =
  out_Method :: string
  out_Scheme :: string
  out_Host :: string
  out_Path :: string
  out_RawQuery :: string
  out_Header :: header
  out_Body :: body

text \<open>An upstream response: the bytes of the body that can be read, and the error that the read
  after them meets, if any.\<close>

record upstream =
  up_StatusCode :: go_int
  up_Header :: header
  up_Body :: string
  up_ReadError :: "error option"

text \<open>\<^verbatim>\<open>io.ReadAll(io.LimitReader(body, n))\<close>\<close>

definition readLimited :: "nat \<Rightarrow> upstream \<Rightarrow> error + string" where
  "readLimited n up =
     (if n \<le> length (up_Body up) then Inr (take n (up_Body up))
      else (case up_ReadError up of Some err \<Rightarrow> Inl err | None \<Rightarrow> Inr (up_Body up)))"

record proxy_api =
  url_Parse :: "string \<Rightarrow> error + (string \<times> string)"

record attempt_env =
  ae_routes :: RouteTable
  ae_pick :: nat
  ae_allow_at :: time
  ae_failure_at :: time
  ae_before :: "breakerMap \<Rightarrow> breakerMap"
  ae_during :: "breakerMap \<Rightarrow> breakerMap"
  RoundTrip :: "outRequest \<Rightarrow> error + upstream"

text \<open>How an attempt went: the breaker refused it, the backend address did not parse, or a
  request was sent.\<close>

datatype attempt =
    CircuitOpen Backend
  | BadAddress Backend error
  | Sent Backend outRequest "error + bufferedResponse"

definition forward ::
  "proxy_api \<Rightarrow> attempt_env \<Rightarrow> request \<Rightarrow> body \<Rightarrow> Backend \<Rightarrow> string \<Rightarrow> attempt" where
  "forward api env r bdy backend remainder =
     (case url_Parse api (be_Address backend) of
        Inl err \<Rightarrow> BadAddress backend err
      | Inr (scheme, host) \<Rightarrow>
          (let outReq = \<lparr>out_Method = Method r, out_Scheme = scheme, out_Host = host,
                         out_Path = remainder, out_RawQuery = RawQuery r,
                         out_Header = Header_Del ''Connection'' (req_Header r), out_Body = bdy\<rparr>
           in Sent backend outReq
                (case RoundTrip env outReq of
                   Inl err \<Rightarrow> Inl err
                 | Inr resp \<Rightarrow>
                     (case readLimited maxResponseBody resp of
                        Inl err \<Rightarrow> Inl err
                      | Inr bytes \<Rightarrow>
                          Inr \<lparr>statusCode = up_StatusCode resp, header = up_Header resp,
                               body = bytes\<rparr>))))"

text \<open>The transport always closes the request body, even when the round trip fails.\<close>

definition bodyAfter :: "attempt \<Rightarrow> body \<Rightarrow> body" where
  "bodyAfter a bdy = (case a of Sent _ _ _ \<Rightarrow> ClosedBody | _ \<Rightarrow> bdy)"

section \<open>The handler\<close>

record Proxy =
  resilience :: ResilienceConfig
  p_prefix :: string

record loop_state =
  ls_backend :: Backend
  ls_status :: go_int
  ls_resp :: "bufferedResponse option"
  ls_body :: body
  ls_breakers :: breakerMap
  ls_log :: "attempt list"

fun attempt_response :: "attempt \<Rightarrow> bufferedResponse option" where
  "attempt_response (Sent _ _ (Inr br)) = Some br"
| "attempt_response _ = None"

definition attempt_ok :: "attempt \<Rightarrow> bool" where
  "attempt_ok a = (case attempt_response a of Some br \<Rightarrow> statusCode br < 500 | None \<Rightarrow> False)"

text \<open>The body of the retry loop up to the recording of the outcome: the lookup of a retry, the
  breaker's answer, and the request.\<close>

definition pickBackend :: "unicode_tables \<Rightarrow> string \<Rightarrow> nat \<Rightarrow> attempt_env \<Rightarrow> Backend \<Rightarrow> Backend" where
  "pickBackend u serviceName k env backend =
     (if 0 < k then (case Lookup u serviceName (ae_pick env) (ae_routes env) of
                       Some b \<Rightarrow> b
                     | None \<Rightarrow> backend)
      else backend)"

definition tryOnce ::
  "proxy_api \<Rightarrow> attempt_env \<Rightarrow> request \<Rightarrow> string \<Rightarrow> loop_state \<Rightarrow> loop_state" where
  "tryOnce api env r remainder st =
     (let backend = ls_backend st; i = be_ServiceID backend;
          bm = ae_before env (ls_breakers st);
          (ok, cb) = Allow (ae_allow_at env) (fst (breakerMap_get i bm));
          bm1 = onBreaker i (\<lambda>_. cb) bm
      in if \<not> ok
         then st\<lparr>ls_status := 503, ls_breakers := bm1, ls_log := ls_log st @ [CircuitOpen backend]\<rparr>
         else (let a = forward api env r (ls_body st) backend remainder;
                   bm2 = ae_during env bm1;
                   st1 = st\<lparr>ls_body := bodyAfter a (ls_body st), ls_log := ls_log st @ [a]\<rparr>
               in if attempt_ok a
                  then st1\<lparr>ls_breakers := onBreaker i RecordSuccess bm2\<rparr>
                  else (let st2 = st1\<lparr>ls_breakers := onBreaker i (RecordFailure (ae_failure_at env)) bm2\<rparr>
                        in case attempt_response a of
                             Some br \<Rightarrow> st2\<lparr>ls_status := statusCode br, ls_resp := Some br\<rparr>
                           | None \<Rightarrow> st2)))"

text \<open>\<open>retryLoop n k\<close> makes at most \<open>n\<close> more attempts, the next of which is number \<open>k\<close>; the first
  component is the response that ends the loop early.\<close>

fun retryLoop ::
  "unicode_tables \<Rightarrow> proxy_api \<Rightarrow> (nat \<Rightarrow> attempt_env) \<Rightarrow> request \<Rightarrow> string \<Rightarrow> string \<Rightarrow> nat \<Rightarrow> nat
     \<Rightarrow> loop_state \<Rightarrow> bufferedResponse option \<times> loop_state" where
  "retryLoop u api envs r serviceName remainder 0 k st = (None, st)"
| "retryLoop u api envs r serviceName remainder (Suc n) k st =
     (let st1 = tryOnce api (envs k) r remainder
                  (st\<lparr>ls_backend := pickBackend u serviceName k (envs k) (ls_backend st)\<rparr>);
          a = last (ls_log st1)
      in if attempt_ok a then (attempt_response a, st1)
         else retryLoop u api envs r serviceName remainder n (Suc k) st1)"

text \<open>The first lookup uses the route table and the draw of \<open>envs 0\<close>.\<close>

definition Proxy_ServeHTTP ::
  "unicode_tables \<Rightarrow> proxy_api \<Rightarrow> (nat \<Rightarrow> attempt_env) \<Rightarrow> Proxy \<Rightarrow> request \<Rightarrow> writer \<Rightarrow> breakerMap
     \<Rightarrow> writer \<times> breakerMap \<times> attempt list" where
  "Proxy_ServeHTTP u api envs p r w bm =
     (case ParseServiceFromPath (normalizePrefix (p_prefix p)) (URL_Path r) of
        None \<Rightarrow> (NotFound w, bm, [])
      | Some (serviceName, remainder) \<Rightarrow>
          (case Lookup u serviceName (ae_pick (envs 0)) (ae_routes (envs 0)) of
             None \<Rightarrow> (http_Error (''service not found: '' @ serviceName) 502 w, bm, [])
           | Some backend \<Rightarrow>
               (let st0 = \<lparr>ls_backend = backend, ls_status = 0, ls_resp = None,
                           ls_body = MaxBytesReader (req_Body r) maxRequestBody,
                           ls_breakers = bm, ls_log = []\<rparr>;
                    n = nat (wrap64 (RetryCount (resilience p) + 1));
                    (early, st) = retryLoop u api envs r serviceName remainder n 0 st0;
                    w' = (case early of
                            Some br \<Rightarrow> writeTo br w
                          | None \<Rightarrow>
                              (case ls_resp st of
                                 Some br \<Rightarrow> writeTo br w
                               | None \<Rightarrow>
                                   http_Error ''upstream request failed''
                                     (if ls_status st = 0 then 502 else ls_status st) w))
                in (w', ls_breakers st, ls_log st))))"

section \<open>The log\<close>

fun is_open :: "attempt \<Rightarrow> bool" where
  "is_open (CircuitOpen _) = True"
| "is_open _ = False"

fun sent_request :: "attempt \<Rightarrow> outRequest option" where
  "sent_request (Sent _ q _) = Some q"
| "sent_request _ = None"

definition responses :: "attempt list \<Rightarrow> bufferedResponse list" where
  "responses lg = List.map_filter attempt_response lg"

definition sent :: "attempt list \<Rightarrow> outRequest list" where
  "sent lg = List.map_filter sent_request lg"

lemma responses_snoc [simp]:
  "responses [] = []"
  "responses (lg @ [a]) = responses lg @ (case attempt_response a of None \<Rightarrow> [] | Some br \<Rightarrow> [br])"
  by (simp_all add: responses_def List.map_filter_def split: option.splits)

lemma sent_snoc [simp]:
  "sent [] = []"
  "sent (lg @ [a]) = sent lg @ (case sent_request a of None \<Rightarrow> [] | Some q \<Rightarrow> [q])"
  by (simp_all add: sent_def List.map_filter_def split: option.splits)

lemma attempt_ok_response: "attempt_ok a \<Longrightarrow> \<exists>br. attempt_response a = Some br \<and> statusCode br < 500"
  by (auto simp: attempt_ok_def split: option.splits)

lemma forward_simps [simp]:
  "\<not> is_open (forward api env r bdy b rem)"
  by (auto simp: forward_def Let_def split: sum.splits)

text \<open>The breaker of a service, as a request finds it.\<close>

definition breaker_of :: "string \<Rightarrow> breakerMap \<Rightarrow> CircuitBreaker" where
  "breaker_of i bm = fst (breakerMap_get i bm)"

lemma breaker_of_eq:
  "breaker_of i bm = (case gm_get (bm_breakers bm) i of
     Some cb \<Rightarrow> cb | None \<Rightarrow> NewCircuitBreaker (bm_threshold bm) (bm_duration bm))"
  unfolding breaker_of_def pb.goc_val by (auto split: option.splits)

lemma onBreaker_frame [simp]:
  "bm_threshold (onBreaker i f bm) = bm_threshold bm" "bm_duration (onBreaker i f bm) = bm_duration bm"
  by (auto simp: onBreaker_def breakerMap_get_def Let_def split: option.splits)

lemma onBreaker_get:
  "gm_get (bm_breakers (onBreaker i f bm)) j =
     (if j = i then Some (f (breaker_of i bm)) else gm_get (bm_breakers bm) j)"
  by (simp add: onBreaker_def breaker_of_def split_beta Let_def gm_simps pb.goc_other)

lemma breaker_of_onBreaker:
  "breaker_of j (onBreaker i f bm) = (if j = i then f (breaker_of i bm) else breaker_of j bm)"
  by (simp add: breaker_of_eq [of j] onBreaker_get split: option.split)

text \<open>What an attempt is, given the state it starts in.\<close>

definition attempt_of :: "proxy_api \<Rightarrow> attempt_env \<Rightarrow> request \<Rightarrow> string \<Rightarrow> loop_state \<Rightarrow> attempt" where
  "attempt_of api env r remainder st =
     (if refuses (ae_allow_at env) (breaker_of (be_ServiceID (ls_backend st)) (ae_before env (ls_breakers st)))
      then CircuitOpen (ls_backend st)
      else forward api env r (ls_body st) (ls_backend st) remainder)"

lemma tryOnce_log: "ls_log (tryOnce api env r remainder st) = ls_log st @ [attempt_of api env r remainder st]"
  by (simp add: tryOnce_def attempt_of_def breaker_of_def split_beta Let_def Allow_iff split: option.splits)

lemma tryOnce_backend [simp]: "ls_backend (tryOnce api env r remainder st) = ls_backend st"
  by (simp add: tryOnce_def split_beta Let_def split: option.splits)

lemma tryOnce_body:
  "ls_body (tryOnce api env r remainder st) = bodyAfter (attempt_of api env r remainder st) (ls_body st)"
  by (simp add: tryOnce_def attempt_of_def breaker_of_def bodyAfter_def split_beta Let_def Allow_iff
      split: option.splits)

lemma tryOnce_result:
  assumes "\<not> attempt_ok (attempt_of api env r remainder st)"
  shows "ls_resp (tryOnce api env r remainder st) =
      (case attempt_response (attempt_of api env r remainder st) of Some br \<Rightarrow> Some br | None \<Rightarrow> ls_resp st) \<and>
    ls_status (tryOnce api env r remainder st) =
      (if is_open (attempt_of api env r remainder st) then 503
       else case attempt_response (attempt_of api env r remainder st) of
         Some br \<Rightarrow> statusCode br | None \<Rightarrow> ls_status st)"
  using assms
  by (auto simp: tryOnce_def attempt_of_def breaker_of_def split_beta Let_def Allow_iff split: option.splits)

section \<open>The loop\<close>

text \<open>After failed attempts the state remembers the last response, or else whether a breaker
  refused.\<close>

definition loop_inv :: "loop_state \<Rightarrow> bool" where
  "loop_inv st \<longleftrightarrow>
     ls_resp st = (if responses (ls_log st) = [] then None else Some (last (responses (ls_log st)))) \<and>
     (responses (ls_log st) = [] \<longrightarrow> ls_status st = (if list_ex is_open (ls_log st) then 503 else 0))"

lemma loop_inv_tryOnce:
  assumes "loop_inv st" and "\<not> attempt_ok (attempt_of api env r remainder st)"
  shows "loop_inv (tryOnce api env r remainder st)"
  using assms(1) tryOnce_result [OF assms(2)]
  by (auto simp: loop_inv_def tryOnce_log split: option.splits)

lemma loop_inv_backend [simp]: "loop_inv (st\<lparr>ls_backend := b\<rparr>) = loop_inv st"
  by (simp add: loop_inv_def)

lemma retryLoop_spec:
  assumes "loop_inv st" and "retryLoop u api envs r name remainder n k st = (early, st')"
  shows "\<exists>as. ls_log st' = ls_log st @ as \<and>
    (case early of
       Some br \<Rightarrow> as \<noteq> [] \<and> length as \<le> n \<and> attempt_ok (last as) \<and> attempt_response (last as) = Some br \<and>
         list_all (\<lambda>a. \<not> attempt_ok a) (butlast as)
     | None \<Rightarrow> length as = n \<and> list_all (\<lambda>a. \<not> attempt_ok a) as \<and> loop_inv st')"
  using assms
proof (induction n arbitrary: k st)
  case 0
  then show ?case by auto
next
  case (Suc n)
  let ?b = "st\<lparr>ls_backend := pickBackend u name k (envs k) (ls_backend st)\<rparr>"
  let ?a = "attempt_of api (envs k) r remainder ?b" and ?st = "tryOnce api (envs k) r remainder ?b"
  have log: "ls_log ?st = ls_log st @ [?a]" by (simp add: tryOnce_log)
  show ?case
  proof (cases "attempt_ok ?a")
    case True
    then have "early = attempt_response ?a" "st' = ?st"
      using Suc.prems(2) log by (auto simp: Let_def)
    then show ?thesis using log True attempt_ok_response [OF True] by (intro exI [of _ "[?a]"]) auto
  next
    case False
    then have "retryLoop u api envs r name remainder n (Suc k) ?st = (early, st')"
      using Suc.prems(2) log by (simp add: Let_def)
    moreover have "loop_inv ?st" using Suc.prems(1) False by (intro loop_inv_tryOnce) auto
    ultimately obtain as where as: "ls_log st' = ls_log ?st @ as"
      "case early of
         Some br \<Rightarrow> as \<noteq> [] \<and> length as \<le> n \<and> attempt_ok (last as) \<and> attempt_response (last as) = Some br \<and>
           list_all (\<lambda>a. \<not> attempt_ok a) (butlast as)
       | None \<Rightarrow> length as = n \<and> list_all (\<lambda>a. \<not> attempt_ok a) as \<and> loop_inv st'"
      using Suc.IH by blast
    then show ?thesis using log False by (intro exI [of _ "?a # as"]) (auto split: option.splits)
  qed
qed

text \<open>What every attempt and every change of the backend preserves, the loop preserves.\<close>

lemma retryLoop_preserves:
  assumes "\<And>st env. I st \<Longrightarrow> I (tryOnce api env r remainder st)"
    and "\<And>st b. I st \<Longrightarrow> I (st\<lparr>ls_backend := b\<rparr>)"
  shows "I st \<Longrightarrow> I (snd (retryLoop u api envs r name remainder n k st))"
  by (induction n arbitrary: k st) (simp_all add: assms Let_def)

text \<open>A sent request is the client's, addressed to the backend.\<close>

definition faithful_attempt :: "proxy_api \<Rightarrow> request \<Rightarrow> string \<Rightarrow> attempt \<Rightarrow> bool" where
  "faithful_attempt api r remainder a =
     (case a of
        Sent b q _ \<Rightarrow>
          out_Method q = Method r \<and> out_Path q = remainder \<and> out_RawQuery q = RawQuery r \<and>
          out_Header q = Header_Del ''Connection'' (req_Header r) \<and>
          url_Parse api (be_Address b) = Inr (out_Scheme q, out_Host q)
      | _ \<Rightarrow> True)"

lemma faithful_attempt_of: "faithful_attempt api r remainder (attempt_of api env r remainder st)"
  by (auto simp: attempt_of_def forward_def faithful_attempt_def Let_def split: sum.splits prod.splits)

lemma faithful_loop:
  "list_all (faithful_attempt api r remainder) (ls_log st) \<Longrightarrow>
   list_all (faithful_attempt api r remainder)
     (ls_log (snd (retryLoop u api envs r name remainder n k st)))"
  by (rule retryLoop_preserves [where I = "\<lambda>st. list_all (faithful_attempt api r remainder) (ls_log st)"])
    (auto simp: tryOnce_log faithful_attempt_of)

text \<open>The first request that is sent has the client's body, and the later ones a closed one.\<close>

definition body_inv :: "body \<Rightarrow> loop_state \<Rightarrow> bool" where
  "body_inv b0 st \<longleftrightarrow>
     ls_body st = (if sent (ls_log st) = [] then b0 else ClosedBody) \<and>
     (case sent (ls_log st) of
        [] \<Rightarrow> True
      | q # qs \<Rightarrow> out_Body q = b0 \<and> list_all (\<lambda>q. out_Body q = ClosedBody) qs)"

lemma forward_body: "sent_request (forward api env r bdy b rem) = Some q \<Longrightarrow> out_Body q = bdy"
  by (auto simp: forward_def Let_def split: sum.splits prod.splits)

lemma bodyAfter_sent: "bodyAfter a bdy = (case sent_request a of Some _ \<Rightarrow> ClosedBody | None \<Rightarrow> bdy)"
  by (cases a) (simp_all add: bodyAfter_def)

lemma attempt_of_body:
  "sent_request (attempt_of api env r remainder st) = Some q \<Longrightarrow> out_Body q = ls_body st"
  by (auto simp: attempt_of_def dest: forward_body split: if_splits)

lemma body_inv_tryOnce: "body_inv b0 st \<Longrightarrow> body_inv b0 (tryOnce api env r remainder st)"
  using attempt_of_body [of api env r remainder st]
  by (auto simp: body_inv_def tryOnce_log tryOnce_body bodyAfter_sent split: option.splits list.splits)

lemma body_inv_backend: "body_inv b0 (st\<lparr>ls_backend := b\<rparr>) = body_inv b0 st"
  by (simp add: body_inv_def)

lemma body_inv_loop:
  "body_inv b0 st \<Longrightarrow> body_inv b0 (snd (retryLoop u api envs r name remainder n k st))"
  by (rule retryLoop_preserves [where I = "body_inv b0"])
    (auto simp: body_inv_tryOnce body_inv_backend)

section \<open>Breakers during a request\<close>

text \<open>An environment in which no other request touches the breakers.\<close>

definition undisturbed :: "attempt_env \<Rightarrow> bool" where
  "undisturbed env \<longleftrightarrow> ae_before env = id \<and> ae_during env = id"

lemma tryOnce_breaker:
  assumes "undisturbed env"
  shows "breaker_of j (ls_breakers (tryOnce api env r remainder st)) =
    (if j = be_ServiceID (ls_backend st)
     then snd (cb.guarded (ae_allow_at env) (ae_failure_at env)
       (attempt_ok (forward api env r (ls_body st) (ls_backend st) remainder))
       (breaker_of j (ls_breakers st)))
     else breaker_of j (ls_breakers st))"
  using assms
  by (auto simp: tryOnce_def undisturbed_def cb.guarded_def breaker_of_def [symmetric] split_beta Let_def
      breaker_of_onBreaker split: option.splits)

text \<open>All attempts go to one service and nobody interferes; and every request that is sent fails.\<close>

definition one_service :: "unicode_tables \<Rightarrow> (nat \<Rightarrow> attempt_env) \<Rightarrow> string \<Rightarrow> string \<Rightarrow> bool" where
  "one_service u envs name i \<longleftrightarrow>
     (\<forall>k. undisturbed (envs k) \<and>
        (\<forall>b. Lookup u name (ae_pick (envs k)) (ae_routes (envs k)) = Some b \<longrightarrow> be_ServiceID b = i))"

definition failing_service ::
  "unicode_tables \<Rightarrow> proxy_api \<Rightarrow> (nat \<Rightarrow> attempt_env) \<Rightarrow> request \<Rightarrow> string \<Rightarrow> string \<Rightarrow> string \<Rightarrow> bool" where
  "failing_service u api envs r name remainder i \<longleftrightarrow>
     one_service u envs name i \<and>
     (\<forall>k b bdy. \<not> attempt_ok (forward api (envs k) r bdy b remainder))"

definition break_outlasts :: "(nat \<Rightarrow> attempt_env) \<Rightarrow> duration \<Rightarrow> bool" where
  "break_outlasts envs d \<longleftrightarrow> (\<forall>j k. time_Sub (ae_allow_at (envs k)) (ae_failure_at (envs j)) < d)"

definition calls :: "attempt list \<Rightarrow> attempt list" where
  "calls lg = filter (\<lambda>a. \<not> is_open a) lg"

lemma pickBackend_id:
  "one_service u envs name i \<Longrightarrow> be_ServiceID b = i \<Longrightarrow>
     be_ServiceID (pickBackend u name k (envs k) b) = i"
  by (auto simp: pickBackend_def one_service_def split: option.splits)

lemma retryLoop_refused:
  assumes "one_service u envs name i"
    and "\<forall>k. refuses (ae_allow_at (envs k)) cb"
  shows "be_ServiceID (ls_backend st) = i \<Longrightarrow> breaker_of i (ls_breakers st) = cb \<Longrightarrow>
    \<exists>as st'. retryLoop u api envs r name remainder n k st = (None, st') \<and> ls_log st' = ls_log st @ as \<and>
      calls as = [] \<and> breaker_of i (ls_breakers st') = cb"
proof (induction n arbitrary: k st)
  case (Suc n)
  let ?b = "st\<lparr>ls_backend := pickBackend u name k (envs k) (ls_backend st)\<rparr>"
  let ?st = "tryOnce api (envs k) r remainder ?b"
  have i: "be_ServiceID (ls_backend ?b) = i" using pickBackend_id [OF assms(1) Suc.prems(1)] by simp
  have u: "undisturbed (envs k)" using assms(1) by (simp add: one_service_def)
  then have a: "attempt_of api (envs k) r remainder ?b = CircuitOpen (ls_backend ?b)"
    using assms(2) i Suc.prems(2) by (simp add: attempt_of_def undisturbed_def)
  have "breaker_of i (ls_breakers ?st) = cb"
    using tryOnce_breaker [OF u] i Suc.prems(2) assms(2) by (simp add: cb.guarded_blocked)
  with Suc.IH [of ?st "Suc k"] i obtain as st' where
    "retryLoop u api envs r name remainder n (Suc k) ?st = (None, st')"
    "ls_log st' = ls_log ?st @ as" "calls as = []" "breaker_of i (ls_breakers st') = cb" by auto
  then show ?case using a
    by (intro exI [of _ "CircuitOpen (ls_backend ?b) # as"] exI [of _ st'])
      (simp add: tryOnce_log Let_def attempt_ok_def calls_def)
qed (auto simp: calls_def)

lemma retryLoop_until_trip:
  assumes "failing_service u api envs r name remainder i" and "break_outlasts envs d"
    and "breaker_wf cb0" and "state cb0 = BreakerClosed" and "failureCount cb0 = 0" and "breakDuration cb0 = d"
  shows "be_ServiceID (ls_backend st) = i \<Longrightarrow>
    breaker_of i (ls_breakers st) = fail_at (map (\<lambda>j. ae_failure_at (envs j)) js) cb0 \<Longrightarrow>
    int (length js) \<le> max 1 (failureThreshold cb0) \<Longrightarrow>
    \<exists>as st'. retryLoop u api envs r name remainder n k st = (None, st') \<and> ls_log st' = ls_log st @ as \<and>
      length (calls as) = min n (nat (max 1 (failureThreshold cb0)) - length js)"
proof (induction n arbitrary: k st js)
  case 0
  then show ?case by (auto simp: calls_def)
next
  case (Suc n)
  have one: "one_service u envs name i" using assms(1) by (simp add: failing_service_def)
  let ?ts = "map (\<lambda>j. ae_failure_at (envs j)) js"
  show ?case
  proof (cases "int (length js) = max 1 (failureThreshold cb0)")
    case True
    have "is_int64 (failureThreshold cb0)" using assms(3) by (simp add: breaker_wf_def)
    then have "state (fail_at ?ts cb0) = BreakerOpen" "openedAt (fail_at ?ts cb0) = last ?ts"
      using fail_at_trips [OF assms(3-5), of ?ts] True by (auto simp: int_range_defs)
    moreover have "js \<noteq> []" using True by auto
    ultimately have "\<forall>k. refuses (ae_allow_at (envs k)) (fail_at ?ts cb0)"
      using assms(2,6) by (simp add: refuses_def break_outlasts_def last_map)
    then obtain as st' where "retryLoop u api envs r name remainder (Suc n) k st = (None, st')"
        "ls_log st' = ls_log st @ as" "calls as = []"
      using retryLoop_refused [OF one _ Suc.prems(1,2)] by blast
    moreover have "nat (max 1 (failureThreshold cb0)) - length js = 0" using True by simp
    ultimately show ?thesis by (metis list.size(3) min_0R)
  next
    case False
    let ?b = "st\<lparr>ls_backend := pickBackend u name k (envs k) (ls_backend st)\<rparr>"
    let ?st = "tryOnce api (envs k) r remainder ?b"
    have i: "be_ServiceID (ls_backend ?b) = i" using pickBackend_id [OF one Suc.prems(1)] by simp
    have u: "undisturbed (envs k)" and nok: "\<not> attempt_ok (forward api (envs k) r bdy b remainder)" for b bdy
      using assms(1) by (simp_all add: failing_service_def one_service_def)
    have closed: "state (fail_at ?ts cb0) = BreakerClosed"
      using fail_at_closed [OF assms(3-5), of ?ts] False Suc.prems(3) assms(4) by simp
    then have "Allow t (fail_at ?ts cb0) = (True, fail_at ?ts cb0)" for t by (simp add: Allow_def)
    then have br: "breaker_of i (ls_breakers ?st) =
        fail_at (map (\<lambda>j. ae_failure_at (envs j)) (js @ [k])) cb0"
      using tryOnce_breaker [OF u] i Suc.prems(2) nok by (simp add: cb.guarded_def fail_at_snoc)
    have a: "attempt_of api (envs k) r remainder ?b =
        forward api (envs k) r (ls_body st) (ls_backend ?b) remainder"
      using u i Suc.prems(2) closed by (simp add: attempt_of_def undisturbed_def refuses_def)
    obtain as st' where loop: "retryLoop u api envs r name remainder n (Suc k) ?st = (None, st')"
      "ls_log st' = ls_log ?st @ as"
      "length (calls as) = min n (nat (max 1 (failureThreshold cb0)) - length (js @ [k]))"
      using Suc.IH [OF _ br, of "Suc k"] i False Suc.prems(3) by auto
    have "min (Suc n) (nat (max 1 (failureThreshold cb0)) - length js) =
        Suc (min n (nat (max 1 (failureThreshold cb0)) - length (js @ [k])))"
    proof -
      have "length js < nat (max 1 (failureThreshold cb0))" using False Suc.prems(3) by linarith
      then have "nat (max 1 (failureThreshold cb0)) - length js =
          Suc (nat (max 1 (failureThreshold cb0)) - length (js @ [k]))"
        by (simp add: Suc_diff_Suc)
      then show ?thesis by simp
    qed
    then show ?thesis using loop a nok
      by (intro exI [of _ "forward api (envs k) r (ls_body st) (ls_backend ?b) remainder # as"] exI [of _ st'])
        (simp add: tryOnce_log Let_def calls_def)
  qed
qed

section \<open>Properties\<close>

text \<open>The number of attempts a configuration allows.\<close>

definition max_attempts :: "Proxy \<Rightarrow> nat" where
  "max_attempts p = nat (RetryCount (resilience p) + 1)"

lemma max_attempts_wrap:
  "0 \<le> RetryCount (resilience p) \<Longrightarrow> RetryCount (resilience p) < maxInt64 \<Longrightarrow>
     nat (wrap64 (RetryCount (resilience p) + 1)) = max_attempts p"
  by (simp add: max_attempts_def wrap64_nonneg)

text \<open>The state in which the loop starts.\<close>

definition start_state :: "request \<Rightarrow> Backend \<Rightarrow> breakerMap \<Rightarrow> loop_state" where
  "start_state r b bm =
     \<lparr>ls_backend = b, ls_status = 0, ls_resp = None,
      ls_body = MaxBytesReader (req_Body r) maxRequestBody, ls_breakers = bm, ls_log = []\<rparr>"

lemma start_state_simps [simp]:
  "ls_log (start_state r b bm) = []" "ls_backend (start_state r b bm) = b"
  "ls_breakers (start_state r b bm) = bm"
  "ls_body (start_state r b bm) = MaxBytesReader (req_Body r) maxRequestBody"
  "loop_inv (start_state r b bm)"
  by (simp_all add: start_state_def loop_inv_def)

text \<open>A request that is routed.\<close>

definition routed ::
  "unicode_tables \<Rightarrow> (nat \<Rightarrow> attempt_env) \<Rightarrow> Proxy \<Rightarrow> request \<Rightarrow> string \<Rightarrow> string \<Rightarrow> Backend \<Rightarrow> bool" where
  "routed u envs p r name remainder b \<longleftrightarrow>
     ParseServiceFromPath (normalizePrefix (p_prefix p)) (URL_Path r) = Some (name, remainder) \<and>
     Lookup u name (ae_pick (envs 0)) (ae_routes (envs 0)) = Some b"

lemma ServeHTTP_log:
  "routed u envs p r name remainder b \<Longrightarrow>
     snd (snd (Proxy_ServeHTTP u api envs p r w bm)) =
     ls_log (snd (retryLoop u api envs r name remainder (nat (wrap64 (RetryCount (resilience p) + 1))) 0
       (start_state r b bm)))"
  by (simp add: Proxy_ServeHTTP_def routed_def start_state_def split_beta Let_def)

lemma retryLoop_attempts:
  assumes "0 < n"
  shows "ls_log (snd (retryLoop u api envs r name remainder n k st)) \<noteq> []"
proof -
  obtain m where n: "n = Suc m" using assms by (cases n) auto
  have "ls_log (snd (retryLoop u api envs r name remainder m (Suc k) st')) \<noteq> []" if "ls_log st' \<noteq> []" for st'
    by (rule retryLoop_preserves [where I = "\<lambda>st. ls_log st \<noteq> []"]) (auto simp: tryOnce_log that)
  then show ?thesis by (simp add: n tryOnce_log Let_def)
qed

text \<open>Every attempt goes to a backend that a lookup for the service has returned.\<close>

fun attempt_backend :: "attempt \<Rightarrow> Backend" where
  "attempt_backend (CircuitOpen b) = b"
| "attempt_backend (BadAddress b _) = b"
| "attempt_backend (Sent b _ _) = b"

definition looked_up :: "unicode_tables \<Rightarrow> (nat \<Rightarrow> attempt_env) \<Rightarrow> string \<Rightarrow> Backend \<Rightarrow> bool" where
  "looked_up u envs name b \<longleftrightarrow> (\<exists>k. Lookup u name (ae_pick (envs k)) (ae_routes (envs k)) = Some b)"

lemma attempt_of_backend: "attempt_backend (attempt_of api env r remainder st) = ls_backend st"
  by (auto simp: attempt_of_def forward_def Let_def split: sum.splits prod.splits)

lemma looked_up_loop:
  "looked_up u envs name (ls_backend st) \<Longrightarrow> list_all (looked_up u envs name \<circ> attempt_backend) (ls_log st) \<Longrightarrow>
   list_all (looked_up u envs name \<circ> attempt_backend)
     (ls_log (snd (retryLoop u api envs r name remainder n k st)))"
proof (induction n arbitrary: k st)
  case (Suc n)
  let ?b = "pickBackend u name k (envs k) (ls_backend st)"
  have "looked_up u envs name ?b"
    using Suc.prems(1) by (auto simp: pickBackend_def looked_up_def split: option.splits)
  then show ?case using Suc by (simp add: tryOnce_log attempt_of_backend Let_def)
qed simp

lemma ServeHTTP_backends:
  assumes "ParseServiceFromPath (normalizePrefix (p_prefix p)) (URL_Path r) = Some (name, remainder)"
  shows "list_all (looked_up u envs name \<circ> attempt_backend) (snd (snd (Proxy_ServeHTTP u api envs p r w bm)))"
proof (cases "Lookup u name (ae_pick (envs 0)) (ae_routes (envs 0))")
  case None
  then show ?thesis using assms by (simp add: Proxy_ServeHTTP_def)
next
  case (Some b)
  then have "routed u envs p r name remainder b" using assms by (simp add: routed_def)
  moreover have "looked_up u envs name b" using Some by (auto simp: looked_up_def)
  ultimately show ?thesis by (simp add: ServeHTTP_log looked_up_loop)
qed

text \<open>C3: What the client gets. A request that is not under the prefix is answered 404 and one for an
  unknown service 502, and neither touches a breaker or a backend. For a routed request the
  attempts stop at the first response below 500, there are at most as many as the retry count
  plus one, and exactly that many if none succeeds. The client receives the last response
  that any attempt obtained; if there was none, 503 when some breaker refused and 502
  otherwise.\<close>

theorem proxy_answer:
  assumes "0 \<le> RetryCount (resilience p)" and "RetryCount (resilience p) < maxInt64"
    and "Proxy_ServeHTTP u api envs p r w bm = (w', bm', lg)"
  shows "case ParseServiceFromPath (normalizePrefix (p_prefix p)) (URL_Path r) of
      None \<Rightarrow> w' = http_Error ''404 page not found'' 404 w \<and> bm' = bm \<and> lg = []
    | Some (name, remainder) \<Rightarrow>
        if Lookup u name (ae_pick (envs 0)) (ae_routes (envs 0)) = None
        then w' = http_Error (''service not found: '' @ name) 502 w \<and> bm' = bm \<and> lg = []
        else length lg \<le> max_attempts p \<and> list_all (\<lambda>a. \<not> attempt_ok a) (butlast lg) \<and>
          (length lg = max_attempts p \<or> attempt_ok (last lg)) \<and>
          w' = (if responses lg = []
                then http_Error ''upstream request failed'' (if list_ex is_open lg then 503 else 502) w
                else writeTo (last (responses lg)) w)"
proof (cases "ParseServiceFromPath (normalizePrefix (p_prefix p)) (URL_Path r)")
  case None
  then show ?thesis using assms(3) by (auto simp: Proxy_ServeHTTP_def NotFound_def)
next
  case (Some sr)
  obtain name remainder where sr: "sr = (name, remainder)" by (cases sr)
  show ?thesis
  proof (cases "Lookup u name (ae_pick (envs 0)) (ae_routes (envs 0))")
    case None
    then show ?thesis using assms(3) Some sr by (auto simp: Proxy_ServeHTTP_def)
  next
    case lk: (Some b)
    obtain early st where loop: "retryLoop u api envs r name remainder (max_attempts p) 0
        (start_state r b bm) = (early, st)" by (cases "retryLoop u api envs r name remainder
          (max_attempts p) 0 (start_state r b bm)")
    have out: "lg = ls_log st" "w' = (case early of Some br \<Rightarrow> writeTo br w | None \<Rightarrow>
        (case ls_resp st of Some br \<Rightarrow> writeTo br w | None \<Rightarrow>
          http_Error ''upstream request failed'' (if ls_status st = 0 then 502 else ls_status st) w))"
      using assms(3) Some sr lk loop max_attempts_wrap [OF assms(1,2)]
      by (auto simp: Proxy_ServeHTTP_def start_state_def Let_def)
    have m: "0 < max_attempts p" using assms(1) by (simp add: max_attempts_def)
    have spec: "case early of
       Some br \<Rightarrow> lg \<noteq> [] \<and> length lg \<le> max_attempts p \<and> attempt_ok (last lg) \<and>
         attempt_response (last lg) = Some br \<and> list_all (\<lambda>a. \<not> attempt_ok a) (butlast lg)
     | None \<Rightarrow> length lg = max_attempts p \<and> list_all (\<lambda>a. \<not> attempt_ok a) lg \<and> loop_inv st"
      using retryLoop_spec [OF _ loop] out(1) by auto
    show ?thesis
    proof (cases early)
      case None
      then show ?thesis using spec out Some sr lk
        by (auto simp: loop_inv_def list_all_iff dest: in_set_butlastD)
    next
      case (Some br)
      then have "responses lg = responses (butlast lg) @ [br]"
        using spec responses_snoc(2) [of "butlast lg" "last lg"] by simp
      then show ?thesis using Some spec out sr lk
          \<open>ParseServiceFromPath (normalizePrefix (p_prefix p)) (URL_Path r) = Some sr\<close> by simp
    qed
  qed
qed

definition demo_backend :: Backend where
  "demo_backend = \<lparr>be_ServiceID = ''api-1'', be_Address = ''http://10.0.0.1:80''\<rparr>"

definition demo_routes :: RouteTable where
  "demo_routes = \<lparr>rt_config = Routing gw_DefaultConfig,
     routes = [(''api'', \<lparr>route_ServiceName = ''api'', Backends = [demo_backend]\<rparr>)]\<rparr>"

definition demo_attempt :: "error + upstream \<Rightarrow> attempt_env" where
  "demo_attempt res =
     \<lparr>ae_routes = demo_routes, ae_pick = 0, ae_allow_at = 0, ae_failure_at = 0, ae_before = id,
      ae_during = id, RoundTrip = (\<lambda>_. res)\<rparr>"

definition demo_proxy :: Proxy where
  "demo_proxy = \<lparr>resilience = Resilience gw_DefaultConfig, p_prefix = ''/api/''\<rparr>"

definition demo_req :: "string \<Rightarrow> request" where
  "demo_req path = \<lparr>Method = ''GET'', URL_Path = path, EscapedPath = path, RawQuery = [], req_Header = [],
     RemoteAddr = ''10.1.1.1:99'', req_Host = ''mesh'', URL_Host = [], req_Body = Body []\<rparr>"

definition demo_proxy_api :: proxy_api where
  "demo_proxy_api = \<lparr>url_Parse = (\<lambda>_. Inr (''http'', ''10.0.0.1:80''))\<rparr>"

definition demo_utables :: unicode_tables where
  "demo_utables = \<lparr>uc_ToLower = id, uc_EqualFold = (=)\<rparr>"

abbreviation demo_bm :: breakerMap where
  "demo_bm \<equiv> newBreakerMap 3 (20 * Second)"

lemma demo_parse: "ParseServiceFromPath (normalizePrefix ''/api/'') ''/api/api/x'' = Some (''api'', ''/x'')"
  by (simp add: ParseServiceFromPath_def normalizePrefix_def HasPrefix_def HasSuffix_def)

lemma demo_lookup: "Lookup demo_utables ''api'' r demo_routes = Some demo_backend"
  by (simp add: Lookup_def demo_routes_def ToLower_def is_ascii_def byte_def lower_char_def gm_get_def)

lemma demo_proxy_simps [simp]:
  "RetryCount (resilience demo_proxy) = 3" "p_prefix demo_proxy = ''/api/''" "max_attempts demo_proxy = 4"
  "URL_Path (demo_req path) = path"
  by (simp_all add: demo_proxy_def gw_DefaultConfig_def max_attempts_def demo_req_def)

lemma demo_routed:
  "routed demo_utables (\<lambda>_. demo_attempt res) demo_proxy (demo_req ''/api/api/x'') ''api'' ''/x'' demo_backend"
  using demo_parse demo_lookup by (simp add: routed_def demo_attempt_def)

theorem proxy_answer_witness:
  "length (snd (snd (Proxy_ServeHTTP demo_utables demo_proxy_api (\<lambda>_. demo_attempt (Inl ''timeout''))
     demo_proxy (demo_req ''/api/api/x'') new_writer demo_bm))) \<le> 4"
proof -
  obtain w' bm' lg where res: "Proxy_ServeHTTP demo_utables demo_proxy_api (\<lambda>_. demo_attempt (Inl ''timeout''))
     demo_proxy (demo_req ''/api/api/x'') new_writer demo_bm = (w', bm', lg)"
    by (metis prod.collapse)
  show ?thesis using proxy_answer [OF _ _ res] demo_routed [of "Inl ''timeout''"] res
    by (simp add: routed_def maxInt64_def)
qed

text \<open>C38: A forwarded request is the client's request: the same method, query and headers (without
  Connection), the path without prefix and service name, addressed to the backend that was
  picked; and only the first request that is sent carries the client's body (limited to ten
  megabytes), because the transport has closed it afterwards: every retry is sent with a
  closed body.\<close>

theorem forwarded_requests:
  assumes "routed u envs p r name remainder b"
  shows "let lg = snd (snd (Proxy_ServeHTTP u api envs p r w bm)) in
    list_all (faithful_attempt api r remainder) lg \<and>
    (case sent lg of
       [] \<Rightarrow> True
     | q # qs \<Rightarrow> out_Body q = MaxBytesReader (req_Body r) 10485760 \<and>
         list_all (\<lambda>q. out_Body q = ClosedBody) qs)"
  using faithful_loop [of api r remainder "start_state r b bm" u envs name
      "nat (wrap64 (RetryCount (resilience p) + 1))" 0]
    body_inv_loop [of "MaxBytesReader (req_Body r) maxRequestBody" "start_state r b bm" u api envs r name
      remainder "nat (wrap64 (RetryCount (resilience p) + 1))" 0]
  by (simp add: ServeHTTP_log [OF assms] body_inv_def maxRequestBody_def Let_def)

theorem forwarded_requests_witness:
  "list_all (faithful_attempt demo_proxy_api (demo_req ''/api/api/x'') ''/x'')
     (snd (snd (Proxy_ServeHTTP demo_utables demo_proxy_api (\<lambda>_. demo_attempt (Inl ''timeout''))
        demo_proxy (demo_req ''/api/api/x'') new_writer demo_bm)))"
  using forwarded_requests [OF demo_routed, of demo_proxy_api "Inl ''timeout''" new_writer demo_bm]
  by (simp add: Let_def)

text \<open>C4: A failing service is protected from retries. When every request to a service fails, its
  breaker starts fresh, nobody else uses it and the break outlasts the retries, then one
  client request makes as many upstream calls as the failure threshold, and no more, however
  large the retry count is; with fewer attempts than the threshold all of them are made.\<close>

theorem proxy_stops_at_threshold:
  assumes "0 \<le> RetryCount (resilience p)" and "RetryCount (resilience p) < maxInt64"
    and "routed u envs p r name remainder b" and "be_ServiceID b = i"
    and "failing_service u api envs r name remainder i" and "break_outlasts envs (bm_duration bm)"
    and "is_int64 (bm_threshold bm)" and "gm_get (bm_breakers bm) i = None"
  shows "length (calls (snd (snd (Proxy_ServeHTTP u api envs p r w bm)))) =
    min (max_attempts p) (nat (max 1 (bm_threshold bm)))"
proof -
  let ?cb = "NewCircuitBreaker (bm_threshold bm) (bm_duration bm)"
  have cb: "breaker_wf ?cb" "state ?cb = BreakerClosed" "failureCount ?cb = 0"
    "breakDuration ?cb = bm_duration bm" "failureThreshold ?cb = bm_threshold bm"
    using assms(7) by (simp_all add: breaker_wf_new) (simp_all add: NewCircuitBreaker_def)
  have "breaker_of i (ls_breakers (start_state r b bm)) = fail_at (map (\<lambda>j. ae_failure_at (envs j)) []) ?cb"
    using assms(8) by (simp add: breaker_of_eq fail_at_def)
  from retryLoop_until_trip [OF assms(5,6) cb(1-4) _ this, of "max_attempts p" 0] assms(4) cb(5)
  show ?thesis by (auto simp: ServeHTTP_log [OF assms(3)] max_attempts_wrap [OF assms(1,2)] le_max_iff_disj)
qed

theorem proxy_stops_at_threshold_witness:
  "length (calls (snd (snd (Proxy_ServeHTTP demo_utables demo_proxy_api (\<lambda>_. demo_attempt (Inl ''timeout''))
     demo_proxy (demo_req ''/api/api/x'') new_writer demo_bm)))) = 3"
proof -
  let ?envs = "\<lambda>_. demo_attempt (Inl ''timeout'') :: attempt_env"
  have "failing_service demo_utables demo_proxy_api ?envs (demo_req ''/api/api/x'') ''api'' ''/x'' ''api-1''"
    using demo_lookup
    by (simp add: failing_service_def one_service_def undisturbed_def demo_attempt_def forward_def demo_proxy_api_def
        attempt_ok_def demo_backend_def Let_def)
  moreover have "break_outlasts ?envs (bm_duration demo_bm)"
    by (simp add: break_outlasts_def demo_attempt_def newBreakerMap_def time_Sub_def int_range_defs)
  ultimately show ?thesis
    using proxy_stops_at_threshold [of demo_proxy demo_utables ?envs "demo_req ''/api/api/x''" "''api''"
        "''/x''" demo_backend "''api-1''" demo_proxy_api demo_bm new_writer] demo_routed
    by (simp add: demo_backend_def newBreakerMap_def int_range_defs)
qed

text \<open>C39: An open breaker fails fast. While the breaker of the only backend refuses, nothing is sent
  upstream, the breaker stays as it is, and the client is answered 503.\<close>

theorem proxy_fails_fast:
  assumes "0 \<le> RetryCount (resilience p)" and "RetryCount (resilience p) < maxInt64"
    and "routed u envs p r name remainder b" and "be_ServiceID b = i" and "one_service u envs name i"
    and "gm_get (bm_breakers bm) i = Some cb" and "\<forall>k. refuses (ae_allow_at (envs k)) cb"
  shows "\<exists>bm' lg. Proxy_ServeHTTP u api envs p r w bm = (http_Error ''upstream request failed'' 503 w, bm', lg) \<and>
    sent lg = [] \<and> breaker_of i bm' = cb"
proof -
  let ?st = "start_state r b bm"
  have "breaker_of i (ls_breakers ?st) = cb" using assms(6) by (simp add: breaker_of_eq)
  from retryLoop_refused [OF assms(5,7) _ this, where n = "max_attempts p" and api = api and r = r
      and remainder = remainder and k = 0] assms(4)
  obtain st where loop: "retryLoop u api envs r name remainder (max_attempts p) 0 ?st = (None, st)"
    and st: "calls (ls_log st) = []" "breaker_of i (ls_breakers st) = cb" by auto
  have inv: "length (ls_log st) = max_attempts p" "loop_inv st"
    using retryLoop_spec [OF _ loop] by auto
  have "list_all is_open (ls_log st)" using st(1) by (auto simp: calls_def filter_empty_conv list_all_iff)
  moreover have "is_open a \<Longrightarrow> attempt_response a = None \<and> sent_request a = None" for a by (cases a) auto
  ultimately have none: "responses (ls_log st) = []" "sent (ls_log st) = []"
    by (auto simp: responses_def sent_def List.map_filter_def list_all_iff filter_empty_conv)
  have "ls_log st \<noteq> []" using inv(1) assms(1) by (auto simp: max_attempts_def)
  with \<open>list_all is_open (ls_log st)\<close> have "list_ex is_open (ls_log st)"
    by (cases "ls_log st") auto
  with inv(2) none have "ls_resp st = None" "ls_status st = 503" by (simp_all add: loop_inv_def)
  then show ?thesis using loop assms(3) st none max_attempts_wrap [OF assms(1,2)]
    by (simp add: Proxy_ServeHTTP_def routed_def start_state_def Let_def)
qed

theorem proxy_fails_fast_witness:
  "\<exists>bm' lg. Proxy_ServeHTTP demo_utables demo_proxy_api (\<lambda>_. demo_attempt (Inl ''timeout'')) demo_proxy
       (demo_req ''/api/api/x'') new_writer
       (demo_bm\<lparr>bm_breakers := [(''api-1'', RecordFailure 0 (NewCircuitBreaker 1 Second))]\<rparr>) =
     (http_Error ''upstream request failed'' 503 new_writer, bm', lg) \<and> sent lg = []"
proof -
  let ?cb = "RecordFailure 0 (NewCircuitBreaker 1 Second)"
  let ?bm = "demo_bm\<lparr>bm_breakers := [(''api-1'', ?cb)]\<rparr>"
  have "one_service demo_utables (\<lambda>_. demo_attempt (Inl ''timeout'')) ''api'' ''api-1''"
    using demo_lookup by (simp add: one_service_def undisturbed_def demo_attempt_def demo_backend_def)
  moreover have "\<forall>k::nat. refuses (ae_allow_at (demo_attempt (Inl ''timeout''))) ?cb"
    by (simp add: refuses_def RecordFailure_def NewCircuitBreaker_def demo_attempt_def time_Sub_def
        int_range_defs wrap64_def)
  moreover have "gm_get (bm_breakers ?bm) ''api-1'' = Some ?cb" by (simp add: gm_get_def)
  moreover have "be_ServiceID demo_backend = ''api-1''" by (simp add: demo_backend_def)
  ultimately show ?thesis
    using proxy_fails_fast [OF _ _ demo_routed, of "''api-1''" "Inl ''timeout''" ?bm ?cb demo_proxy_api new_writer]
    by (auto simp: maxInt64_def)
qed

end
