(* ===== verification/Gateway_Auth.thy ===== *)
theory Gateway_Auth
  imports Gateway_Config
begin

text \<open>
  Tokens: \<^verbatim>\<open>validateJWT\<close> of \<^verbatim>\<open>internal/gateway/middleware.go\<close> and \<^verbatim>\<open>signServiceToken\<close> of
  \<^verbatim>\<open>internal/gateway/dashboard.go\<close>, with base64 (\<^verbatim>\<open>base64.RawURLEncoding\<close>) written out. The keyed hash
  (HMAC-SHA256), the JSON codec and the time format are parameters: \<open>mac key input\<close>, \<open>marshal\<close>,
  \<open>unmarshal\<close> and \<open>formatTime\<close>. What is relied on of the codec is the law \<open>claims_codec\<close>, which says for
  every map of claims what comes back; a small codec satisfies it.
\<close>

section \<open>Base64\<close>

definition enc64 :: "nat \<Rightarrow> char" where
  "enc64 n =
     (if n < 26 then char_of (65 + n)
      else if n < 52 then char_of (71 + n)
      else if n < 62 then char_of (n - 4)
      else if n = 62 then CHR ''-'' else CHR ''_'')"

definition dec64 :: "char \<Rightarrow> nat option" where
  "dec64 c =
     (let b = byte c in
      if 65 \<le> b \<and> b \<le> 90 then Some (b - 65)
      else if 97 \<le> b \<and> b \<le> 122 then Some (b - 71)
      else if 48 \<le> b \<and> b \<le> 57 then Some (b + 4)
      else if c = CHR ''-'' then Some 62
      else if c = CHR ''_'' then Some 63
      else None)"

fun EncodeToString :: "string \<Rightarrow> string" where
  "EncodeToString [] = []"
| "EncodeToString [a] = [enc64 (byte a div 4), enc64 (byte a mod 4 * 16)]"
| "EncodeToString [a, b] =
     [enc64 (byte a div 4), enc64 (byte a mod 4 * 16 + byte b div 16), enc64 (byte b mod 16 * 4)]"
| "EncodeToString (a # b # c # rest) =
     enc64 (byte a div 4) # enc64 (byte a mod 4 * 16 + byte b div 16)
       # enc64 (byte b mod 16 * 4 + byte c div 64) # enc64 (byte c mod 64) # EncodeToString rest"

fun decode_values :: "nat list \<Rightarrow> string option" where
  "decode_values [] = Some []"
| "decode_values [w] = None"
| "decode_values [w, x] = Some [char_of (w * 4 + x div 16)]"
| "decode_values [w, x, y] = Some [char_of (w * 4 + x div 16), char_of (x mod 16 * 16 + y div 4)]"
| "decode_values (w # x # y # z # rest) =
     (case decode_values rest of
        None \<Rightarrow> None
      | Some s \<Rightarrow>
          Some (char_of (w * 4 + x div 16) # char_of (x mod 16 * 16 + y div 4)
            # char_of (y mod 4 * 64 + z) # s))"

text \<open>Line breaks are skipped; any other character outside the alphabet is an error.\<close>

definition DecodeString :: "string \<Rightarrow> string option" where
  "DecodeString s =
     (let vs = map dec64 (filter (\<lambda>c. c \<noteq> CHR 0x0A \<and> c \<noteq> CHR 0x0D) s)
      in if None \<in> set vs then None else decode_values (map (\<lambda>v. case v of Some n \<Rightarrow> n | None \<Rightarrow> 0) vs))"

section \<open>Validation\<close>

definition errInvalidToken :: error where "errInvalidToken = ''invalid token format''"
definition errInvalidSignature :: error where "errInvalidSignature = ''invalid signature''"
definition errTokenExpired :: error where "errTokenExpired = ''token expired''"
definition errInvalidIssuer :: error where "errInvalidIssuer = ''invalid issuer''"
definition errInvalidAudience :: error where "errInvalidAudience = ''invalid audience''"

lemmas jwt_errors = errInvalidToken_def errInvalidSignature_def errTokenExpired_def
  errInvalidIssuer_def errInvalidAudience_def

record claims =
  Exp :: int
  Iss :: string
  Aud :: string

type_synonym mac = "string \<Rightarrow> string \<Rightarrow> string"

definition checkClaims :: "time \<Rightarrow> JWTConfig \<Rightarrow> claims \<Rightarrow> error option" where
  "checkClaims now cfg c =
     (if 0 < Exp c \<and> Exp c < Unix now then Some errTokenExpired
      else if ValidateIssuer cfg \<and> Issuer cfg \<noteq> [] \<and> Iss c \<noteq> Issuer cfg then Some errInvalidIssuer
      else if ValidateAudience cfg \<and> Audience cfg \<noteq> [] \<and> Aud c \<noteq> Audience cfg
        then Some errInvalidAudience
      else None)"

definition validateJWT ::
  "mac \<Rightarrow> (string \<Rightarrow> claims option) \<Rightarrow> time \<Rightarrow> string \<Rightarrow> JWTConfig \<Rightarrow> error option" where
  "validateJWT mac unmarshal now tokenStr cfg =
     (case Split tokenStr CHR ''.'' of
        [p0, p1, p2] \<Rightarrow>
          (let signingInput = p0 @ ''.'' @ p1;
               expectedSig = EncodeToString (mac (SecretKey cfg) signingInput)
           in if expectedSig \<noteq> p2 then Some errInvalidSignature
              else (case DecodeString p1 of
                      None \<Rightarrow> Some errInvalidToken
                    | Some payloadJSON \<Rightarrow>
                        (case unmarshal payloadJSON of
                           None \<Rightarrow> Some errInvalidToken
                         | Some c \<Rightarrow> checkClaims now cfg c)))
      | _ \<Rightarrow> Some errInvalidToken)"

section \<open>Service tokens\<close>

datatype claim_value = StrClaim string | IntClaim int

definition serviceClaims :: "(time \<Rightarrow> string) \<Rightarrow> time \<Rightarrow> (string, claim_value) gomap" where
  "serviceClaims formatTime now =
     [(''sub'', StrClaim ''gateway''),
      (''http://schemas.xmlsoap.org/ws/2005/05/identity/claims/nameidentifier'', StrClaim ''gateway''),
      (''http://schemas.xmlsoap.org/ws/2005/05/identity/claims/name'', StrClaim ''gateway''),
      (''service_id'', StrClaim ''gateway''),
      (''http://schemas.microsoft.com/ws/2008/06/identity/claims/role'', StrClaim ''Service''),
      (''jti'', StrClaim (formatTime now)),
      (''iat'', IntClaim (Unix now)),
      (''exp'', IntClaim (Unix (time_Add now (10 * Minute)))),
      (''iss'', StrClaim ''ToskaMesh.Services''),
      (''aud'', StrClaim ''ToskaMesh.Services'')]"

text \<open>The literal \<^verbatim>\<open>{"alg":"HS256","typ":"JWT"}\<close>.\<close>

definition jwtHeader :: string where
  "jwtHeader = [CHR 0x7B, CHR 0x22] @ ''alg'' @ [CHR 0x22, CHR 0x3A, CHR 0x22] @ ''HS256''
     @ [CHR 0x22, CHR 0x2C, CHR 0x22] @ ''typ'' @ [CHR 0x22, CHR 0x3A, CHR 0x22] @ ''JWT''
     @ [CHR 0x22, CHR 0x7D]"

definition signServiceToken ::
  "mac \<Rightarrow> ((string, claim_value) gomap \<Rightarrow> string) \<Rightarrow> (time \<Rightarrow> string) \<Rightarrow> time \<Rightarrow> string \<Rightarrow> string" where
  "signServiceToken mac marshal formatTime now secret =
     (let hdr = EncodeToString jwtHeader;
          payload = EncodeToString (marshal (serviceClaims formatTime now));
          signingInput = hdr @ ''.'' @ payload;
          sig = EncodeToString (mac secret signingInput)
      in signingInput @ ''.'' @ sig)"

section \<open>Base64 round trip\<close>

lemma dec64_enc64: "n < 64 \<Longrightarrow> dec64 (enc64 n) = Some n"
  by (auto simp: enc64_def dec64_def byte_def of_char_of Let_def)

lemma enc64_char: "enc64 n \<noteq> CHR ''.'' \<and> enc64 n \<noteq> CHR 0x0A \<and> enc64 n \<noteq> CHR 0x0D"
proof -
  have "byte (enc64 n) \<noteq> 46 \<and> byte (enc64 n) \<noteq> 10 \<and> byte (enc64 n) \<noteq> 13"
    by (auto simp: enc64_def byte_def of_char_of)
  then show ?thesis by (auto simp: byte_def)
qed

lemma EncodeToString_chars: "c \<in> set (EncodeToString s) \<Longrightarrow> c \<noteq> CHR ''.'' \<and> c \<noteq> CHR 0x0A \<and> c \<noteq> CHR 0x0D"
  by (induction s rule: EncodeToString.induct) (use enc64_char in auto)

text \<open>The six-bit values of an encoding.\<close>

fun enc_values :: "string \<Rightarrow> nat list" where
  "enc_values [] = []"
| "enc_values [a] = [byte a div 4, byte a mod 4 * 16]"
| "enc_values [a, b] = [byte a div 4, byte a mod 4 * 16 + byte b div 16, byte b mod 16 * 4]"
| "enc_values (a # b # c # rest) =
     byte a div 4 # (byte a mod 4 * 16 + byte b div 16) # (byte b mod 16 * 4 + byte c div 64)
       # byte c mod 64 # enc_values rest"

lemma EncodeToString_values: "EncodeToString s = map enc64 (enc_values s)"
  by (induction s rule: EncodeToString.induct) auto

lemma byte_div [simp]: "byte a div 4 < 64" "byte a div 16 < 16" "byte a div 64 < 4"
  by (rule less_mult_imp_div_less, simp)+

lemma byte_parts: "byte a mod 4 * 16 + byte b div 16 < 64" "byte b mod 16 * 4 + byte c div 64 < 64"
proof -
  have "byte a mod 4 < 4" "byte b mod 16 < 16" by simp_all
  then show "byte a mod 4 * 16 + byte b div 16 < 64" "byte b mod 16 * 4 + byte c div 64 < 64"
    using byte_div(2) [of b] byte_div(3) [of c] by linarith+
qed

lemma byte_parts_last: "byte a mod 4 * 16 < 64" "byte b mod 16 * 4 < 64"
proof -
  have "byte a mod 4 < 4" "byte b mod 16 < 16" by simp_all
  then show "byte a mod 4 * 16 < 64" "byte b mod 16 * 4 < 64" by linarith+
qed

lemma enc_values_bound: "v \<in> set (enc_values s) \<Longrightarrow> v < 64"
  by (induction s rule: enc_values.induct) (use byte_parts byte_parts_last in auto)

lemma char_of_byte [simp]: "char_of (byte c) = c"
  by (simp add: byte_def)

lemma decode_enc_values: "decode_values (enc_values s) = Some s"
  by (induction s rule: enc_values.induct) simp_all

lemma Decode_Encode: "DecodeString (EncodeToString s) = Some s"
proof -
  have "filter (\<lambda>c. c \<noteq> CHR 0x0A \<and> c \<noteq> CHR 0x0D) (EncodeToString s) = EncodeToString s"
    using EncodeToString_chars [of _ s] by (simp add: filter_id_conv)
  moreover have "map dec64 (EncodeToString s) = map Some (enc_values s)"
    using enc_values_bound [of _ s] by (simp add: EncodeToString_values dec64_enc64)
  ultimately show ?thesis
    by (simp add: DecodeString_def decode_enc_values comp_def image_iff)
qed

lemma EncodeToString_inj: "EncodeToString s = EncodeToString t \<Longrightarrow> s = t"
  by (metis Decode_Encode option.inject)

section \<open>Properties\<close>

text \<open>The token that carries a payload under a header and a key.\<close>

definition token_of :: "mac \<Rightarrow> string \<Rightarrow> string \<Rightarrow> string \<Rightarrow> string" where
  "token_of mac key h p =
     h @ ''.'' @ p @ ''.'' @ EncodeToString (mac key (h @ ''.'' @ p))"

lemma encoded_no_dot: "CHR ''.'' \<notin> set (EncodeToString s)"
  using EncodeToString_chars by blast

lemma Split_token:
  "CHR ''.'' \<notin> set h \<Longrightarrow> CHR ''.'' \<notin> set p \<Longrightarrow>
     Split (token_of mac key h p) CHR ''.'' = [h, p, EncodeToString (mac key (h @ ''.'' @ p))]"
  using Split_append_sep [of "CHR ''.''" h "p @ ''.'' @ EncodeToString (mac key (h @ ''.'' @ p))"]
    Split_append_sep [of "CHR ''.''" p "EncodeToString (mac key (h @ ''.'' @ p))"]
    Split_no_sep [OF encoded_no_dot]
  by (simp add: token_of_def)

lemma Split_three:
  assumes "Split t c = [x, y, z]"
  shows "t = x @ [c] @ y @ [c] @ z \<and> c \<notin> set x \<and> c \<notin> set y"
  using Join_Split [of t c] Split_parts [of _ t c] assms by simp

lemma checkClaims_None_iff:
  "checkClaims now cfg c = None \<longleftrightarrow> \<not> (0 < Exp c \<and> Exp c < Unix now) \<and>
     (ValidateIssuer cfg \<and> Issuer cfg \<noteq> [] \<longrightarrow> Iss c = Issuer cfg) \<and>
     (ValidateAudience cfg \<and> Audience cfg \<noteq> [] \<longrightarrow> Aud c = Audience cfg)"
  by (simp add: checkClaims_def) blast

lemma signServiceToken_token:
  "signServiceToken mac marshal fmt now secret =
     token_of mac secret (EncodeToString jwtHeader) (EncodeToString (marshal (serviceClaims fmt now)))"
  by (simp add: signServiceToken_def token_of_def Let_def)

text \<open>C36: A token is accepted if and only if it is a header, a payload and the base64 of the keyed hash
  of the two under the configured secret, the payload is base64 of claims that parse, and the
  claims have not expired and name the configured issuer and audience where these are
  validated.\<close>

theorem token_accepted_iff:
  "validateJWT mac unmarshal now t cfg = None \<longleftrightarrow>
     (\<exists>h p json c. CHR ''.'' \<notin> set h \<and> CHR ''.'' \<notin> set p \<and> t = token_of mac (SecretKey cfg) h p \<and>
        DecodeString p = Some json \<and> unmarshal json = Some c \<and>
        \<not> (0 < Exp c \<and> Exp c < Unix now) \<and>
        (ValidateIssuer cfg \<and> Issuer cfg \<noteq> [] \<longrightarrow> Iss c = Issuer cfg) \<and>
        (ValidateAudience cfg \<and> Audience cfg \<noteq> [] \<longrightarrow> Aud c = Audience cfg))"
  (is "?L \<longleftrightarrow> ?R")
proof
  assume ?L
  then obtain h p z where parts: "Split t CHR ''.'' = [h, p, z]"
    by (auto simp: validateJWT_def split: list.splits)
  with \<open>?L\<close> obtain json c where "z = EncodeToString (mac (SecretKey cfg) (h @ ''.'' @ p))"
      "DecodeString p = Some json" "unmarshal json = Some c" "checkClaims now cfg c = None"
    by (auto simp: validateJWT_def Let_def split: if_splits option.splits)
  then show ?R using Split_three [OF parts]
    by (intro exI [of _ h] exI [of _ p] exI [of _ json] exI [of _ c])
      (simp add: token_of_def checkClaims_None_iff)
next
  assume ?R
  then obtain h p json c where "CHR ''.'' \<notin> set h" "CHR ''.'' \<notin> set p" "DecodeString p = Some json"
      "t = token_of mac (SecretKey cfg) h p" "unmarshal json = Some c" "checkClaims now cfg c = None"
    unfolding checkClaims_None_iff by blast
  then show ?L by (simp add: validateJWT_def Split_token)
qed

theorem token_accepted_iff_witness:
  "validateJWT (\<lambda>k x. k @ x) (\<lambda>j. if j = ''{}'' then Some \<lparr>Exp = 0, Iss = [], Aud = []\<rparr> else None) 0
     (token_of (\<lambda>k x. k @ x) ''key'' [] (EncodeToString ''{}''))
     \<lparr>SecretKey = ''key'', Issuer = [], Audience = [], ValidateIssuer = True, ValidateAudience = True\<rparr> = None"
  using token_accepted_iff [of "\<lambda>k x. k @ x"
      "\<lambda>j. if j = ''{}'' then Some \<lparr>Exp = 0, Iss = [], Aud = []\<rparr> else None" 0
      "token_of (\<lambda>k x. k @ x) ''key'' [] (EncodeToString ''{}'')"
      "\<lparr>SecretKey = ''key'', Issuer = [], Audience = [], ValidateIssuer = True, ValidateAudience = True\<rparr>"]
    Decode_Encode [of "''{}''"] encoded_no_dot [of "''{}''"]
  by force

section \<open>The JSON codec\<close>

text \<open>How the three fields of the claims are read from a JSON object: an absent one is zero, one of the
  wrong type is an error, and the others are ignored.\<close>

definition int_claim :: "(string, claim_value) gomap \<Rightarrow> string \<Rightarrow> int option" where
  "int_claim m k = (case gm_get m k of None \<Rightarrow> Some 0 | Some (IntClaim n) \<Rightarrow> Some n | Some (StrClaim _) \<Rightarrow> None)"

definition str_claim :: "(string, claim_value) gomap \<Rightarrow> string \<Rightarrow> string option" where
  "str_claim m k = (case gm_get m k of None \<Rightarrow> Some [] | Some (StrClaim s) \<Rightarrow> Some s | Some (IntClaim _) \<Rightarrow> None)"

definition decode_claims :: "(string, claim_value) gomap \<Rightarrow> claims option" where
  "decode_claims m =
     (case (int_claim m ''exp'', str_claim m ''iss'', str_claim m ''aud'') of
        (Some e, Some i, Some a) \<Rightarrow> Some \<lparr>Exp = e, Iss = i, Aud = a\<rparr>
      | _ \<Rightarrow> None)"

text \<open>Maps whose encoding gives them back: keys and strings in ASCII, 64-bit integers, and no key that
  is a field's name in another case (keys are matched without regard to case).\<close>

definition plain_claim :: "string \<times> claim_value \<Rightarrow> bool" where
  "plain_claim e \<longleftrightarrow> is_ascii (fst e) \<and>
     (\<forall>n \<in> {''exp'', ''iss'', ''aud''}. map lower_char (fst e) = n \<longrightarrow> fst e = n) \<and>
     (case snd e of StrClaim s \<Rightarrow> is_ascii s | IntClaim n \<Rightarrow> is_int64 n)"

definition claims_codec :: "((string, claim_value) gomap \<Rightarrow> string) \<Rightarrow> (string \<Rightarrow> claims option) \<Rightarrow> bool" where
  "claims_codec marshal unmarshal \<longleftrightarrow>
     (\<forall>m. gm_wf m \<and> list_all plain_claim m \<longrightarrow> unmarshal (marshal m) = decode_claims m)"

text \<open>A codec for flat objects.\<close>

definition quote_char :: "char \<Rightarrow> string" where
  "quote_char c = (if c = CHR 0x22 \<or> c = CHR 0x5C then [CHR 0x5C, c] else [c])"

definition putString :: "string \<Rightarrow> string" where
  "putString s = CHR 0x22 # concat (map quote_char s) @ [CHR 0x22]"

fun getString :: "string \<Rightarrow> (string \<times> string) option" where
  "getString [] = None"
| "getString (x # xs) =
     (if x = CHR 0x22 then Some ([], xs)
      else if x = CHR 0x5C then (case xs of [] \<Rightarrow> None | c # r \<Rightarrow> map_option (apfst (Cons c)) (getString r))
      else map_option (apfst (Cons x)) (getString xs))"

fun putValue :: "claim_value \<Rightarrow> string" where
  "putValue (StrClaim s) = putString s"
| "putValue (IntClaim n) = Itoa n"

definition getValue :: "string \<Rightarrow> (claim_value \<times> string) option" where
  "getValue s =
     (if s \<noteq> [] \<and> hd s = CHR 0x22 then map_option (apfst StrClaim) (getString (tl s))
      else (let w = takeWhile (\<lambda>c. c \<noteq> CHR '','' \<and> c \<noteq> CHR 0x7D) s
            in map_option (\<lambda>n. (IntClaim n, drop (length w) s)) (Atoi w)))"

fun putEntries :: "(string, claim_value) gomap \<Rightarrow> string" where
  "putEntries [] = [CHR 0x7D]"
| "putEntries ((k, v) # m) =
     putString k @ CHR '':'' # putValue v @ (if m = [] then [CHR 0x7D] else CHR '','' # putEntries m)"

fun getEntries :: "nat \<Rightarrow> string \<Rightarrow> (string, claim_value) gomap option" where
  "getEntries 0 s = None"
| "getEntries (Suc fuel) s =
     (if s = [CHR 0x7D] then Some []
      else (case getString (tl s) of
              None \<Rightarrow> None
            | Some (k, r) \<Rightarrow>
                (case getValue (tl r) of
                   None \<Rightarrow> None
                 | Some (v, d # rest) \<Rightarrow>
                     if d = CHR 0x7D then Some [(k, v)] else map_option (Cons (k, v)) (getEntries fuel rest)
                 | Some (v, []) \<Rightarrow> None)))"

definition flatMarshal :: "(string, claim_value) gomap \<Rightarrow> string" where
  "flatMarshal m = CHR 0x7B # putEntries m"

definition flatUnmarshal :: "string \<Rightarrow> claims option" where
  "flatUnmarshal s = (case getEntries (length s) (tl s) of None \<Rightarrow> None | Some m \<Rightarrow> decode_claims m)"

lemma getString_put: "getString (concat (map quote_char s) @ CHR 0x22 # t) = Some (s, t)"
  by (induction s) (auto simp: quote_char_def)

lemma Itoa_chars: "c \<in> set (Itoa n) \<Longrightarrow> c \<noteq> CHR '','' \<and> c \<noteq> CHR 0x7D \<and> c \<noteq> CHR 0x22"
  using digits_base_chars [of c "nat n"] digits_base_chars [of c "nat (- n)"]
  by (auto simp: FormatInt_def byte_def split: if_splits)

lemma getValue_put:
  assumes "plain_claim (k, v)" and "d = CHR '','' \<or> d = CHR 0x7D"
  shows "getValue (putValue v @ d # t) = Some (v, d # t)"
proof (cases v)
  case (StrClaim s)
  then show ?thesis using getString_put [of s "d # t"] by (simp add: getValue_def putString_def)
next
  case (IntClaim n)
  have ne: "Itoa n \<noteq> []" by (simp add: FormatInt_def)
  then have "hd (Itoa n @ d # t) \<noteq> CHR 0x22" using Itoa_chars [of "hd (Itoa n)" n] by (simp del: hd_append add: hd_append2)
  moreover have "takeWhile (\<lambda>c. c \<noteq> CHR '','' \<and> c \<noteq> CHR 0x7D) (Itoa n @ d # t) = Itoa n"
    using assms(2) Itoa_chars [of _ n] by (subst takeWhile_append2) auto
  moreover have "is_int64 n" using assms(1) IntClaim by (simp add: plain_claim_def)
  ultimately show ?thesis using IntClaim Atoi_Itoa by (simp add: getValue_def Let_def)
qed

lemma getEntries_put:
  "list_all plain_claim m \<Longrightarrow> length m < fuel \<Longrightarrow> getEntries fuel (putEntries m) = Some m"
proof (induction m arbitrary: fuel rule: putEntries.induct)
  case 1
  then show ?case by (cases fuel) auto
next
  case (2 k v m)
  obtain n where fuel: "fuel = Suc n" "length m < n" using 2(3) by (cases fuel) auto
  have k: "getString (tl (putString k @ s)) = Some (k, s)" for s
    using getString_put [of k s] by (simp add: putString_def)
  have ne: "putString k @ s \<noteq> [CHR 0x7D]" for s by (simp add: putString_def)
  show ?case
  proof (cases "m = []")
    case True
    then show ?thesis using k ne getValue_put [of k v "CHR 0x7D" "[]"] 2(2) by (simp add: fuel)
  next
    case False
    then show ?thesis using k ne getValue_put [of k v "CHR '',''" "putEntries m"] 2 fuel by simp
  qed
qed

lemma length_putEntries: "length m < length (putEntries m)"
  by (induction m rule: putEntries.induct) (auto simp: putString_def)

lemma flat_codec: "claims_codec flatMarshal flatUnmarshal"
proof -
  have "getEntries (Suc (length (putEntries m))) (putEntries m) = Some m" if "list_all plain_claim m" for m
    using length_putEntries [of m] by (intro getEntries_put [OF that]) simp
  then show ?thesis by (simp add: claims_codec_def flatMarshal_def flatUnmarshal_def del: getEntries.simps)
qed

lemma serviceClaims_decoded:
  assumes "claims_codec marshal unmarshal" and "is_ascii (fmt now)"
  shows "unmarshal (marshal (serviceClaims fmt now)) =
    Some \<lparr>Exp = Unix (time_Add now (10 * Minute)), Iss = ''ToskaMesh.Services'', Aud = ''ToskaMesh.Services''\<rparr>"
proof -
  have "list_all plain_claim (serviceClaims fmt now)" using assms(2)
    by (simp add: serviceClaims_def plain_claim_def is_ascii_def byte_def lower_char_def Unix_def)
  moreover have "gm_wf (serviceClaims fmt now)" by (simp add: serviceClaims_def gm_wf_def)
  ultimately have "unmarshal (marshal (serviceClaims fmt now)) = decode_claims (serviceClaims fmt now)"
    using assms(1) by (simp add: claims_codec_def)
  then show ?thesis
    by (simp add: decode_claims_def int_claim_def str_claim_def serviceClaims_def gm_get_def)
qed

text \<open>C37: The gateway's service tokens validate. At a receiver with the same secret a service token is
  refused as expired after ten minutes (in whole seconds) from its signing and not before; until
  then it is refused only when the receiver validates the issuer or the audience and expects another
  one than the mesh's, and accepted otherwise. A receiver whose secret gives another hash rejects the
  signature. The clock is later than 1970, the time format is ASCII, and the JSON codec follows its
  law.\<close>

theorem service_token_valid_ten_minutes:
  assumes "claims_codec marshal unmarshal" and "is_ascii (fmt now)" and "0 < Unix (time_Add now (10 * Minute))"
  shows "let t = signServiceToken mac marshal fmt now secret in
    (mac (SecretKey cfg) = mac secret \<longrightarrow>
       validateJWT mac unmarshal later t cfg =
         (if Unix (time_Add now (10 * Minute)) < Unix later then Some errTokenExpired
          else if ValidateIssuer cfg \<and> Issuer cfg \<notin> {[], ''ToskaMesh.Services''} then Some errInvalidIssuer
          else if ValidateAudience cfg \<and> Audience cfg \<notin> {[], ''ToskaMesh.Services''} then Some errInvalidAudience
          else None)) \<and>
    ((\<forall>x. mac (SecretKey cfg) x \<noteq> mac secret x) \<longrightarrow>
       validateJWT mac unmarshal later t cfg = Some errInvalidSignature)"
proof -
  let ?c = "\<lparr>Exp = Unix (time_Add now (10 * Minute)), Iss = ''ToskaMesh.Services'', Aud = ''ToskaMesh.Services''\<rparr>"
  let ?in = "EncodeToString jwtHeader @ ''.'' @ EncodeToString (marshal (serviceClaims fmt now))"
  have "validateJWT mac unmarshal later (signServiceToken mac marshal fmt now secret) cfg =
      (if EncodeToString (mac (SecretKey cfg) ?in) \<noteq> EncodeToString (mac secret ?in)
       then Some errInvalidSignature else checkClaims later cfg ?c)"
    using serviceClaims_decoded [of marshal unmarshal fmt now, OF assms(1,2)]
    by (simp add: signServiceToken_token validateJWT_def Split_token encoded_no_dot Decode_Encode Let_def)
  moreover have "checkClaims later cfg ?c =
      (if Unix (time_Add now (10 * Minute)) < Unix later then Some errTokenExpired
       else if ValidateIssuer cfg \<and> Issuer cfg \<notin> {[], ''ToskaMesh.Services''} then Some errInvalidIssuer
       else if ValidateAudience cfg \<and> Audience cfg \<notin> {[], ''ToskaMesh.Services''} then Some errInvalidAudience
       else None)"
    using assms(3) by (auto simp: checkClaims_def)
  moreover have "EncodeToString (mac (SecretKey cfg) ?in) \<noteq> EncodeToString (mac secret ?in)"
    if "\<forall>x. mac (SecretKey cfg) x \<noteq> mac secret x"
    using that EncodeToString_inj by blast
  ultimately show ?thesis by (simp add: Let_def)
qed

theorem service_token_valid_ten_minutes_witness:
  "let t = signServiceToken (\<lambda>k x. k @ x) flatMarshal (\<lambda>_. ''19700101000000'') (unixEpoch * Second) ''s3cret'';
       check = (\<lambda>later iss. validateJWT (\<lambda>k x. k @ x) flatUnmarshal (unixEpoch * Second + later) t
         \<lparr>SecretKey = ''s3cret'', Issuer = iss, Audience = ''ToskaMesh.Services'', ValidateIssuer = True,
          ValidateAudience = True\<rparr>)
   in check (10 * Minute) ''ToskaMesh.Services'' = None \<and>
      check (10 * Minute + Second) ''ToskaMesh.Services'' = Some errTokenExpired \<and>
      check (10 * Minute) ''Other'' = Some errInvalidIssuer"
proof -
  note token = service_token_valid_ten_minutes [OF flat_codec, of "\<lambda>_. ''19700101000000''" "unixEpoch * Second"
      "\<lambda>k x. k @ x" "''s3cret''"]
  have ascii: "is_ascii ''19700101000000''" by (simp add: is_ascii_def byte_def)
  let ?cfg = "\<lambda>iss. \<lparr>SecretKey = ''s3cret'', Issuer = iss, Audience = ''ToskaMesh.Services'', ValidateIssuer = True,
    ValidateAudience = True\<rparr>"
  show ?thesis unfolding Let_def
    using token [of "?cfg ''ToskaMesh.Services''" "unixEpoch * Second + 10 * Minute"]
      token [of "?cfg ''ToskaMesh.Services''" "unixEpoch * Second + (10 * Minute + Second)"]
      token [of "?cfg ''Other''" "unixEpoch * Second + 10 * Minute"] ascii
    by (simp add: Unix_def time_Add_def unixEpoch_def wrap64_def Let_def)
qed

end
