(* ===== verification/Gateway_Middleware.thy ===== *)
theory Gateway_Middleware
  imports Gateway_Auth Go_Net Rate_Limiter "HOL-Library.Signed_Division"
begin

text \<open>
  The middleware of \<^verbatim>\<open>internal/gateway/middleware.go\<close> and the chain that \<^verbatim>\<open>run\<close> of
  \<^verbatim>\<open>cmd/gateway/main.go\<close> builds from it. A handler is a function of the request, the response writer
  and the gateway's state: the access log, the rate limiter and the state \<open>'n\<close> of what lies behind
  the middleware. The clock readings of a request are the record \<open>request_times\<close>.
\<close>

section \<open>Handlers\<close>

datatype access_log =
    Incoming (log_method: string) (log_path: string) (log_ip: string) (log_correlation: string)
  | Outgoing (log_method: string) (log_path: string) (log_status: go_int) (log_ms: int)
      (log_correlation: string)

record 'n gw_state =
  gs_log :: "access_log list"
  gs_limiter :: RateLimiter
  gs_next :: 'n

type_synonym 'n handler = "request \<Rightarrow> writer \<Rightarrow> 'n gw_state \<Rightarrow> writer \<times> 'n gw_state"

record request_times =
  start_at :: time
  limiter_at :: time
  jwt_at :: time
  end_at :: time

section \<open>Middleware\<close>

definition clientIPAddress :: "request \<Rightarrow> string" where
  "clientIPAddress r =
     (let remoteHost = (case SplitHostPort (RemoteAddr r) of Some (h, _) \<Rightarrow> h | None \<Rightarrow> []);
          direct = (if remoteHost \<noteq> [] then remoteHost else ''unknown'')
      in case ParseIP remoteHost of
           None \<Rightarrow> direct
         | Some ip \<Rightarrow>
             if IsLoopback ip then
               (let xff = Header_Get (req_Header r) ''X-Forwarded-For'' in
                if xff \<noteq> [] then
                  (let clientIP = TrimSpace (hd (Split xff CHR '',''))
                   in if clientIP \<noteq> [] then clientIP else direct)
                else direct)
             else direct)"

definition correlationID :: "request \<Rightarrow> string" where
  "correlationID r =
     (let c = Header_Get (req_Header r) ''X-Correlation-ID''
      in if c = [] then Header_Get (req_Header r) ''X-Request-ID'' else c)"

definition RequestLogging :: "request_times \<Rightarrow> 'n handler \<Rightarrow> 'n handler" where
  "RequestLogging ts next r w s =
     (let s1 = s\<lparr>gs_log := gs_log s @
                 [Incoming (Method r) (URL_Path r) (clientIPAddress r) (correlationID r)]\<rparr>;
          (w', s') = next r (w\<lparr>rw_statusCode := 200\<rparr>) s1
      in if rw_panic w' then (w', s')
         else (w', s'\<lparr>gs_log := gs_log s' @
                 [Outgoing (Method r) (URL_Path r) (rw_statusCode w')
                    (time_Sub (end_at ts) (start_at ts) sdiv Millisecond) (correlationID r)]\<rparr>))"

definition RateLimiter_Middleware :: "request_times \<Rightarrow> 'n handler \<Rightarrow> 'n handler" where
  "RateLimiter_Middleware ts next r w s =
     (let (ok, rl) = allow (limiter_at ts) (clientIPAddress r) (gs_limiter s);
          s1 = s\<lparr>gs_limiter := rl\<rparr>
      in if \<not> ok then (http_Error ''Too many requests. Please try again later.'' 429 w, s1)
         else next r w s1)"

definition originAllowed :: "unicode_tables \<Rightarrow> CORSConfig \<Rightarrow> string \<Rightarrow> bool" where
  "originAllowed u cfg origin \<longleftrightarrow>
     AllowAnyOrigin cfg \<or> AllowedOrigins cfg = [] \<or>
     list_ex (\<lambda>o'. EqualFold u o' origin) (AllowedOrigins cfg)"

definition corsHeaders :: "unicode_tables \<Rightarrow> CORSConfig \<Rightarrow> request \<Rightarrow> header \<Rightarrow> header" where
  "corsHeaders u cfg r h =
     (let origin = Header_Get (req_Header r) ''Origin'' in
      if origin \<noteq> [] \<and> originAllowed u cfg origin
      then Header_Set ''Access-Control-Allow-Headers'' (Join (AllowedHeaders cfg) '', '')
             (Header_Set ''Access-Control-Allow-Methods'' (Join (AllowedMethods cfg) '', '')
                (if AllowAnyOrigin cfg then Header_Set ''Access-Control-Allow-Origin'' ''*'' h
                 else Header_Set ''Vary'' ''Origin''
                        (Header_Set ''Access-Control-Allow-Origin'' origin h)))
      else h)"

definition CORS :: "unicode_tables \<Rightarrow> CORSConfig \<Rightarrow> 'n handler \<Rightarrow> 'n handler" where
  "CORS u cfg next r w s =
     (let w1 = on_header (corsHeaders u cfg r) w
      in if Method r = ''OPTIONS'' then (WriteHeader 204 w1, s) else next r w1 s)"

definition JWTAuth ::
  "mac \<Rightarrow> (string \<Rightarrow> claims option) \<Rightarrow> request_times \<Rightarrow> JWTConfig \<Rightarrow> string list \<Rightarrow> 'n handler \<Rightarrow> 'n handler" where
  "JWTAuth mac unmarshal ts cfg skipPaths next r w s =
     (if list_ex (\<lambda>p. HasPrefix (URL_Path r) p) skipPaths then next r w s
      else if SecretKey cfg = [] then next r w s
      else (let authHeader = Header_Get (req_Header r) ''Authorization'' in
        if authHeader = [] \<or> \<not> HasPrefix authHeader ''Bearer ''
        then (http_Error ''missing or invalid authorization header'' 401 w, s)
        else (case validateJWT mac unmarshal (jwt_at ts) (TrimPrefix authHeader ''Bearer '') cfg of
                Some err \<Rightarrow> (http_Error (''invalid token: '' @ err) 401 w, s)
              | None \<Rightarrow> next r w s)))"

section \<open>The chain\<close>

definition jwtSkipPaths :: "string list" where
  "jwtSkipPaths = [''/health'', ''/api/dashboard/'']"

definition gatewayChain ::
  "unicode_tables \<Rightarrow> mac \<Rightarrow> (string \<Rightarrow> claims option) \<Rightarrow> request_times \<Rightarrow> gw_Config \<Rightarrow> 'n handler \<Rightarrow> 'n handler" where
  "gatewayChain u mac unmarshal ts cfg mux =
     (let handler = JWTAuth mac unmarshal ts (JWT cfg) jwtSkipPaths mux;
          limited = (if Enabled (RateLimit cfg) then RateLimiter_Middleware ts handler else handler)
      in RequestLogging ts (CORS u (cfg_CORS cfg) limited))"

text \<open>The limiter that \<^verbatim>\<open>run\<close> creates.\<close>

definition newGatewayState :: "gw_Config \<Rightarrow> 'n \<Rightarrow> 'n gw_state" where
  "newGatewayState cfg x =
     \<lparr>gs_log = [], gs_limiter = NewRateLimiter (PermitLimit (RateLimit cfg)) (WindowSeconds (RateLimit cfg)),
      gs_next = x\<rparr>"

section \<open>Lemmas\<close>

lemma fresh_statusCode [simp]: "fresh_writer (w\<lparr>rw_statusCode := c\<rparr>) = fresh_writer w"
  by (simp add: fresh_writer_def)

lemma http_Error_fresh:
  "fresh_writer w \<Longrightarrow> 200 \<le> code \<Longrightarrow> code \<le> 999 \<Longrightarrow>
     status_sent (http_Error msg code w) = code \<and> \<not> rw_panic (http_Error msg code w)"
  using http_Error_status by blast

lemma WriteHeader_fresh:
  "fresh_writer w \<Longrightarrow> status_sent (WriteHeader 204 w) = 204 \<and> \<not> rw_panic (WriteHeader 204 w)"
  by (simp add: fresh_writer_def WriteHeader_def sendHeader_def status_sent_def)

text \<open>Whether the token check lets a request pass.\<close>

definition authorized ::
  "mac \<Rightarrow> (string \<Rightarrow> claims option) \<Rightarrow> time \<Rightarrow> JWTConfig \<Rightarrow> request \<Rightarrow> bool" where
  "authorized mac unmarshal now cfg r \<longleftrightarrow>
     list_ex (\<lambda>p. HasPrefix (URL_Path r) p) jwtSkipPaths \<or> SecretKey cfg = [] \<or>
     (\<exists>t. Header_Get (req_Header r) ''Authorization'' = ''Bearer '' @ t \<and>
        validateJWT mac unmarshal now t cfg = None)"

lemma JWTAuth_pass:
  "authorized mac unmarshal (jwt_at ts) cfg r \<Longrightarrow>
     JWTAuth mac unmarshal ts cfg jwtSkipPaths next r w s = next r w s"
  by (auto simp: authorized_def JWTAuth_def HasPrefix_def TrimPrefix_def Let_def)

lemma JWTAuth_reject:
  "\<not> authorized mac unmarshal (jwt_at ts) cfg r \<Longrightarrow>
     \<exists>msg. JWTAuth mac unmarshal ts cfg jwtSkipPaths next r w s = (http_Error msg 401 w, s)"
  by (auto simp: authorized_def JWTAuth_def HasPrefix_iff TrimPrefix_def Let_def split: option.splits)

text \<open>Whether the rate limiter lets a request pass.\<close>

definition admitted_by_limiter :: "gw_Config \<Rightarrow> time \<Rightarrow> request \<Rightarrow> RateLimiter \<Rightarrow> bool" where
  "admitted_by_limiter cfg now r rl \<longleftrightarrow>
     \<not> Enabled (RateLimit cfg) \<or> fst (allow now (clientIPAddress r) rl)"

lemma RequestLogging_result:
  "fst (RequestLogging ts next r w s) =
     fst (next r (w\<lparr>rw_statusCode := 200\<rparr>) (s\<lparr>gs_log := gs_log s @
       [Incoming (Method r) (URL_Path r) (clientIPAddress r) (correlationID r)]\<rparr>)) \<and>
   gs_next (snd (RequestLogging ts next r w s)) =
     gs_next (snd (next r (w\<lparr>rw_statusCode := 200\<rparr>) (s\<lparr>gs_log := gs_log s @
       [Incoming (Method r) (URL_Path r) (clientIPAddress r) (correlationID r)]\<rparr>))) \<and>
   gs_limiter (snd (RequestLogging ts next r w s)) =
     gs_limiter (snd (next r (w\<lparr>rw_statusCode := 200\<rparr>) (s\<lparr>gs_log := gs_log s @
       [Incoming (Method r) (URL_Path r) (clientIPAddress r) (correlationID r)]\<rparr>)))"
  by (simp add: RequestLogging_def split_beta Let_def)

text \<open>The chain, decision by decision.\<close>

lemma chain_decides:
  fixes nxt :: "'n handler"
  assumes "fresh_writer w"
    and inner_def: "inner = CORS u (cfg_CORS cfg) (if Enabled (RateLimit cfg)
      then RateLimiter_Middleware ts (JWTAuth mac unmarshal ts (JWT cfg) jwtSkipPaths nxt)
      else JWTAuth mac unmarshal ts (JWT cfg) jwtSkipPaths nxt)"
  shows "if Method r = ''OPTIONS'' then
      status_sent (fst (inner r w s)) = 204 \<and> snd (inner r w s) = s
    else if \<not> admitted_by_limiter cfg (limiter_at ts) r (gs_limiter s) then
      status_sent (fst (inner r w s)) = 429 \<and> gs_next (snd (inner r w s)) = gs_next s
    else if \<not> authorized mac unmarshal (jwt_at ts) (JWT cfg) r then
      status_sent (fst (inner r w s)) = 401 \<and> gs_next (snd (inner r w s)) = gs_next s
    else \<exists>w1 s1. fresh_writer w1 \<and> gs_next s1 = gs_next s \<and> inner r w s = nxt r w1 s1"
proof -
  let ?w = "on_header (corsHeaders u (cfg_CORS cfg) r) w"
  let ?jwt = "JWTAuth mac unmarshal ts (JWT cfg) jwtSkipPaths nxt"
  have fresh: "fresh_writer ?w" using assms(1) by simp
  have jwt: "if authorized mac unmarshal (jwt_at ts) (JWT cfg) r then ?jwt r ?w s' = nxt r ?w s'
      else status_sent (fst (?jwt r ?w s')) = 401 \<and> snd (?jwt r ?w s') = s'" for s'
  proof (cases "authorized mac unmarshal (jwt_at ts) (JWT cfg) r")
    case True
    then show ?thesis by (simp add: JWTAuth_pass)
  next
    case False
    then obtain msg where "?jwt r ?w s' = (http_Error msg 401 ?w, s')" using JWTAuth_reject by blast
    then show ?thesis using False http_Error_fresh [OF fresh, of 401 msg] by simp
  qed
  consider "Method r = ''OPTIONS''"
    | "Method r \<noteq> ''OPTIONS''" "\<not> admitted_by_limiter cfg (limiter_at ts) r (gs_limiter s)"
    | "Method r \<noteq> ''OPTIONS''" "admitted_by_limiter cfg (limiter_at ts) r (gs_limiter s)" by blast
  then show ?thesis
  proof cases
    case 1
    then show ?thesis using WriteHeader_fresh [OF fresh] by (simp add: inner_def CORS_def)
  next
    case 2
    then show ?thesis using http_Error_fresh [OF fresh, of 429]
      by (simp add: inner_def CORS_def RateLimiter_Middleware_def admitted_by_limiter_def split_beta Let_def)
  next
    case 3
    obtain s1 where s1: "inner r w s = ?jwt r ?w s1" "gs_next s1 = gs_next s"
    proof (cases "Enabled (RateLimit cfg)")
      case True
      then show ?thesis using 3 that [of "s\<lparr>gs_limiter := snd (allow (limiter_at ts) (clientIPAddress r) (gs_limiter s))\<rparr>"]
        by (simp add: inner_def CORS_def RateLimiter_Middleware_def admitted_by_limiter_def split_beta Let_def)
    next
      case False
      then show ?thesis using 3 that [of s] by (simp add: inner_def CORS_def)
    qed
    then show ?thesis using 3 jwt [of s1] fresh
      by (auto split: if_splits intro!: exI [of _ ?w] exI [of _ s1])
  qed
qed

lemma chain_admission:
  assumes "fresh_writer w"
  shows "let res = gatewayChain u mac unmarshal ts cfg mux r w s in
    if Method r = ''OPTIONS'' then
      status_sent (fst res) = 204 \<and> gs_next (snd res) = gs_next s \<and> gs_limiter (snd res) = gs_limiter s
    else if \<not> admitted_by_limiter cfg (limiter_at ts) r (gs_limiter s) then
      status_sent (fst res) = 429 \<and> gs_next (snd res) = gs_next s
    else if \<not> authorized mac unmarshal (jwt_at ts) (JWT cfg) r then
      status_sent (fst res) = 401 \<and> gs_next (snd res) = gs_next s
    else \<exists>w1 s1. fresh_writer w1 \<and> gs_next s1 = gs_next s \<and> fst res = fst (mux r w1 s1) \<and>
      gs_next (snd res) = gs_next (snd (mux r w1 s1))"
proof -
  let ?w = "w\<lparr>rw_statusCode := 200\<rparr>" and ?s = "s\<lparr>gs_log := gs_log s @
       [Incoming (Method r) (URL_Path r) (clientIPAddress r) (correlationID r)]\<rparr>"
  have "fresh_writer ?w" using assms by simp
  moreover obtain inner where inner: "inner = CORS u (cfg_CORS cfg) (if Enabled (RateLimit cfg)
      then RateLimiter_Middleware ts (JWTAuth mac unmarshal ts (JWT cfg) jwtSkipPaths mux)
      else JWTAuth mac unmarshal ts (JWT cfg) jwtSkipPaths mux)" by simp
  moreover have "gatewayChain u mac unmarshal ts cfg mux r w s = RequestLogging ts inner r w s"
    using inner by (simp add: gatewayChain_def Let_def)
  ultimately show ?thesis
    using chain_decides [of ?w inner u cfg ts mac unmarshal mux r ?s] RequestLogging_result [of ts inner r w s]
    unfolding Let_def by (auto split: if_splits) blast+
qed

text \<open>What the chain does to the limiter, when the handlers behind it leave it alone.\<close>

lemma chain_limiter:
  assumes "\<And>r w s. gs_limiter (snd (mux r w s)) = gs_limiter s"
  shows "gs_limiter (snd (gatewayChain u mac unmarshal ts cfg mux r w s)) =
    (if Method r = ''OPTIONS'' \<or> \<not> Enabled (RateLimit cfg) then gs_limiter s
     else snd (allow (limiter_at ts) (clientIPAddress r) (gs_limiter s)))"
proof -
  let ?jwt = "JWTAuth mac unmarshal ts (JWT cfg) jwtSkipPaths mux"
  have jwt: "gs_limiter (snd (?jwt r w s)) = gs_limiter s" for w s
    using assms JWTAuth_pass [of mac unmarshal ts "JWT cfg" r mux w s] JWTAuth_reject [of mac unmarshal ts "JWT cfg" r mux w s]
    by (cases "authorized mac unmarshal (jwt_at ts) (JWT cfg) r") auto
  then show ?thesis
    by (simp add: gatewayChain_def RequestLogging_result CORS_def RateLimiter_Middleware_def split_beta Let_def)
qed

section \<open>Properties\<close>

text \<open>C12: Who gets behind the gateway. A request reaches the handlers behind the middleware if and
  only if it is no preflight, the rate limiter (when enabled) admits its client, and it is
  authorized: its path is exempt, no secret is configured, or it carries a valid token.
  Otherwise what is behind the middleware is untouched and the client is answered 204 to a
  preflight, which does not count against the rate limit, 429 when the limiter refuses,
  whatever the path is, and 401 when the token is missing or invalid.\<close>

theorem gateway_admission:
  assumes "fresh_writer w"
  shows "let res = gatewayChain u mac unmarshal ts cfg mux r w s in
    if Method r = ''OPTIONS'' then
      status_sent (fst res) = 204 \<and> gs_next (snd res) = gs_next s \<and> gs_limiter (snd res) = gs_limiter s
    else if \<not> admitted_by_limiter cfg (limiter_at ts) r (gs_limiter s) then
      status_sent (fst res) = 429 \<and> gs_next (snd res) = gs_next s
    else if \<not> authorized mac unmarshal (jwt_at ts) (JWT cfg) r then
      status_sent (fst res) = 401 \<and> gs_next (snd res) = gs_next s
    else \<exists>w1 s1. fresh_writer w1 \<and> gs_next s1 = gs_next s \<and> fst res = fst (mux r w1 s1) \<and>
      gs_next (snd res) = gs_next (snd (mux r w1 s1))"
  using assms by (rule chain_admission)

definition demo_gw_times :: request_times where
  "demo_gw_times = \<lparr>start_at = 0, limiter_at = 1, jwt_at = 2, end_at = 3\<rparr>"

definition demo_gw_request :: "string \<Rightarrow> header \<Rightarrow> request" where
  "demo_gw_request addr hdr =
     \<lparr>Method = ''GET'', URL_Path = ''/health'', EscapedPath = ''/health'', RawQuery = [], req_Header = hdr, RemoteAddr = addr,
      req_Host = ''mesh'', URL_Host = [],
      req_Body = Body []\<rparr>"

theorem gateway_admission_witness:
  "status_sent (fst (gatewayChain \<lparr>uc_ToLower = id, uc_EqualFold = (=)\<rparr> (\<lambda>_ x. x) (\<lambda>_. None) demo_gw_times
     gw_DefaultConfig (\<lambda>_ w s. (w, s)) ((demo_gw_request [] [])\<lparr>Method := ''OPTIONS''\<rparr>) new_writer
     (newGatewayState gw_DefaultConfig ()))) = 204"
  using gateway_admission [OF fresh_new, of "\<lparr>uc_ToLower = id, uc_EqualFold = (=)\<rparr>" "\<lambda>_ x. x" "\<lambda>_. None"
      demo_gw_times gw_DefaultConfig "\<lambda>_ w s. (w, s)" "(demo_gw_request [] [])\<lparr>Method := ''OPTIONS''\<rparr>"
      "newGatewayState gw_DefaultConfig ()"]
  by (simp add: Let_def)

text \<open>A client cannot choose its identity. Unless the connection comes from a loopback address
  (a proxy on the same host), the address that the rate limiter and the access log use does
  not depend on any header of the request.\<close>

theorem client_ip_ignores_headers:
  assumes "\<forall>h p ip. SplitHostPort (RemoteAddr r) = Some (h, p) \<longrightarrow> ParseIP h = Some ip \<longrightarrow> \<not> IsLoopback ip"
  shows "clientIPAddress r = clientIPAddress (r\<lparr>req_Header := hdr\<rparr>)"
proof (cases "SplitHostPort (RemoteAddr r)")
  case None
  then show ?thesis by (simp add: clientIPAddress_def ParseIP_def)
next
  case (Some hp)
  then obtain h p where "SplitHostPort (RemoteAddr r) = Some (h, p)" by (cases hp) simp
  then show ?thesis using assms by (auto simp: clientIPAddress_def Let_def split: option.splits)
qed

theorem client_ip_ignores_headers_witness:
  "clientIPAddress (demo_gw_request ''10.0.0.5:4242'' []) =
   clientIPAddress (demo_gw_request ''10.0.0.5:4242'' [(''X-Forwarded-For'', [''1.2.3.4''])])"
proof -
  have "SplitHostPort ''10.0.0.5:4242'' = Some (''10.0.0.5'', ''4242'')" by code_simp
  moreover have "map_option IsLoopback (ParseIP ''10.0.0.5'') = Some False" by code_simp
  ultimately show ?thesis
    using client_ip_ignores_headers [of "demo_gw_request ''10.0.0.5:4242'' []"
        "[(''X-Forwarded-For'', [''1.2.3.4''])]"]
    by (auto simp: demo_gw_request_def)
qed

text \<open>The cross-origin headers are right. A response names an allowed origin only for a request
  with an Origin header that the configuration allows: the wildcard when any origin is
  allowed, and otherwise that very origin, marked as varying. An empty list of allowed
  origins allows every origin even when any-origin is switched off.\<close>

theorem cors_reflects_allowed_origins:
  "let origin = Header_Get (req_Header r) ''Origin''; h' = corsHeaders u cfg r h in
     (if origin \<noteq> [] \<and> originAllowed u cfg origin
      then Header_Get h' ''Access-Control-Allow-Origin'' = (if AllowAnyOrigin cfg then ''*'' else origin) \<and>
        (if AllowAnyOrigin cfg then True else Header_Get h' ''Vary'' = ''Origin'')
      else h' = h) \<and>
     (originAllowed u (cfg\<lparr>AllowAnyOrigin := False\<rparr>) origin \<longleftrightarrow>
        AllowedOrigins cfg = [] \<or> (\<exists>a \<in> set (AllowedOrigins cfg). EqualFold u a origin))"
proof -
  have keys: "CanonicalHeaderKey ''Access-Control-Allow-Origin'' = ''Access-Control-Allow-Origin''"
    "CanonicalHeaderKey ''Access-Control-Allow-Methods'' = ''Access-Control-Allow-Methods''"
    "CanonicalHeaderKey ''Access-Control-Allow-Headers'' = ''Access-Control-Allow-Headers''"
    "CanonicalHeaderKey ''Vary'' = ''Vary''"
    by code_simp+
  show ?thesis
    by (auto simp: corsHeaders_def Header_Get_Set_other keys originAllowed_def list_ex_iff Let_def)
qed

end
