(* ===== verification/Gateway_Dashboard.thy ===== *)
theory Gateway_Dashboard
  imports Gateway_Auth Go_Net "HOL-Library.List_Lexorder" "HOL-Library.Char_ord"
begin

text \<open>
  The dashboard of \<^verbatim>\<open>internal/gateway/dashboard.go\<close>: the service catalog that it builds from the
  Consul registry, and the proxy to the observability services. The registry's answers, the
  HTTP client, the JSON codec and the time format are arguments. Go compares strings byte by
  byte, which is the lexicographic order of the library on lists of characters.
\<close>

section \<open>The catalog\<close>

record serviceInstance =
  cat_ServiceName :: string
  cat_ServiceID :: string
  cat_Address :: string
  cat_Port :: go_int
  cat_Status :: string
  cat_Metadata :: metadata
  cat_RegisteredAt :: string
  cat_LastHealthCheck :: string

record metadataKeySummary =
  mk_Key :: string
  mk_InstanceCount :: go_int
  mk_Values :: "string list"

record serviceMetadataSummary =
  ms_ServiceName :: string
  ms_InstanceCount :: go_int
  ms_GeneratedAt :: string
  ms_Keys :: "metadataKeySummary list"

record serviceCatalogItem =
  ci_ServiceName :: string
  ci_Instances :: "serviceInstance list"
  ci_Health :: "unit list"
  ci_Metadata :: "serviceMetadataSummary option"

definition toCatalogInstance :: "(time \<Rightarrow> string) \<Rightarrow> Instance \<Rightarrow> serviceInstance" where
  "toCatalogInstance fmt inst =
     \<lparr>cat_ServiceName = ServiceName inst, cat_ServiceID = ServiceID inst, cat_Address = Address inst,
      cat_Port = Port inst, cat_Status = HealthStatus_String (Status inst),
      cat_Metadata = Metadata inst,
      cat_RegisteredAt = (if IsZero (RegisteredAt inst) then [] else fmt (RegisteredAt inst)),
      cat_LastHealthCheck = (if IsZero (LastHealthCheck inst) then [] else fmt (LastHealthCheck inst))\<rparr>"

text \<open>\<^verbatim>\<open>keyMap[k][v] = struct{}{}\<close>: a set of values is a list without repetitions.\<close>

definition addValue :: "string \<times> string \<Rightarrow> (string, string list) gomap \<Rightarrow> (string, string list) gomap" where
  "addValue kv m =
     (let vals = gm_get_or [] m (fst kv)
      in gm_set (fst kv) (if snd kv \<in> set vals then vals else vals @ [snd kv]) m)"

definition keyMap :: "Instance list \<Rightarrow> (string, string list) gomap" where
  "keyMap insts = fold (\<lambda>inst m. fold addValue (Metadata inst) m) insts []"

definition metadataKeys :: "Instance list \<Rightarrow> metadataKeySummary list" where
  "metadataKeys insts =
     sort_key mk_Key
       (map (\<lambda>e. \<lparr>mk_Key = fst e, mk_InstanceCount = int (length (snd e)), mk_Values = sort (snd e)\<rparr>)
          (keyMap insts))"

definition catalogItem :: "(time \<Rightarrow> string) \<Rightarrow> string \<Rightarrow> string \<Rightarrow> Instance list \<Rightarrow> serviceCatalogItem" where
  "catalogItem fmt now name insts =
     (let items = map (toCatalogInstance fmt) insts
      in \<lparr>ci_ServiceName = name, ci_Instances = items, ci_Health = [],
          ci_Metadata =
            (if 0 < length items
             then Some \<lparr>ms_ServiceName = name, ms_InstanceCount = int (length items),
                        ms_GeneratedAt = now, ms_Keys = metadataKeys insts\<rparr>
             else None)\<rparr>)"

definition catalog ::
  "(time \<Rightarrow> string) \<Rightarrow> string \<Rightarrow> (string \<Rightarrow> error + Instance list) \<Rightarrow> string list \<Rightarrow> serviceCatalogItem list" where
  "catalog fmt now getInstances names =
     concat (map (\<lambda>name. case getInstances name of
                Inl _ \<Rightarrow> []
              | Inr insts \<Rightarrow> [catalogItem fmt now name insts]) (sort names))"

definition handleServices ::
  "(serviceCatalogItem list \<Rightarrow> string) \<Rightarrow> (time \<Rightarrow> string) \<Rightarrow> time \<Rightarrow> error + string list
     \<Rightarrow> (string \<Rightarrow> error + Instance list) \<Rightarrow> writer \<Rightarrow> writer" where
  "handleServices encode fmt now services getInstances w =
     (case services of
        Inl err \<Rightarrow> http_Error ''failed to query consul'' 502 w
      | Inr names \<Rightarrow>
          Write (encode (catalog fmt (fmt now) getInstances names))
            (on_header (Header_Set ''Content-Type'' ''application/json'') w))"

section \<open>The proxy\<close>

record dash_request =
  dr_Method :: string
  dr_URL :: string
  dr_Header :: header
  dr_Body :: body

record dash_env =
  de_NewRequest :: "string \<Rightarrow> string \<Rightarrow> error option"
  de_Do :: "dash_request \<Rightarrow> error + (go_int \<times> header \<times> string)"
  de_token :: string

definition dashRequest :: "DashboardConfig \<Rightarrow> dash_env \<Rightarrow> request \<Rightarrow> string \<Rightarrow> string \<Rightarrow> dash_request" where
  "dashRequest cfg env r baseURL path =
     (let targetURL = baseURL @ path @ (if RawQuery r \<noteq> [] then ''?'' @ RawQuery r else []);
          forwarded = fold (\<lambda>h hdr. let v = Header_Get (req_Header r) h
                                    in if v \<noteq> [] then Header_Set h v hdr else hdr)
                        [''Content-Type'', ''Accept''] [];
          hdr = (if ServiceAuthSecret cfg \<noteq> []
                 then Header_Set ''Authorization'' (''Bearer '' @ de_token env) forwarded else forwarded)
      in \<lparr>dr_Method = Method r, dr_URL = targetURL, dr_Header = hdr, dr_Body = req_Body r\<rparr>)"

definition dashProxy :: "DashboardConfig \<Rightarrow> dash_env \<Rightarrow> string \<Rightarrow> string \<Rightarrow> request \<Rightarrow> writer \<Rightarrow> writer" where
  "dashProxy cfg env baseURL path r w =
     (let q = dashRequest cfg env r baseURL path
      in case de_NewRequest env (dr_Method q) (dr_URL q) of
           Some err \<Rightarrow> http_Error ''bad request'' 400 w
         | None \<Rightarrow>
             (case de_Do env q of
                Inl err \<Rightarrow> http_Error ''upstream unavailable'' 502 w
              | Inr (code, hdr, bytes) \<Rightarrow>
                  Write bytes (WriteHeader code (on_header (Header_AddAll hdr) w))))"

text \<open>The four routes, on paths the multiplexer has dispatched to the dashboard.\<close>

definition prometheusPath :: "string \<Rightarrow> string" where
  "prometheusPath path = ''/api/v1'' @ TrimPrefix path ''/api/dashboard/prometheus''"

definition tracesPath :: "string \<Rightarrow> string" where
  "tracesPath path = ''/api/traces'' @ TrimPrefix path ''/api/dashboard/traces''"

section \<open>Lemmas\<close>

lemma addValue_get:
  "gm_get (addValue kv m) k =
     (if k = fst kv then Some (let vals = gm_get_or [] m k in if snd kv \<in> set vals then vals else vals @ [snd kv])
      else gm_get m k)"
  by (simp add: addValue_def gm_simps Let_def)

lemma addValue_get_or:
  "gm_get_or [] (addValue kv m) k =
     (let vals = gm_get_or [] m k in
      if k = fst kv \<and> snd kv \<notin> set vals then vals @ [snd kv] else vals)"
  by (simp add: gm_get_or_def [of _ "addValue kv m"] addValue_get Let_def) (simp add: gm_get_or_def)

definition key_values :: "Instance list \<Rightarrow> string \<Rightarrow> string set" where
  "key_values insts k = {v. \<exists>inst \<in> set insts. (k, v) \<in> set (Metadata inst)}"

definition key_inv :: "(string, string list) gomap \<Rightarrow> (string \<times> string) list \<Rightarrow> bool" where
  "key_inv m kvs \<longleftrightarrow> gm_wf m \<and>
     (\<forall>k. set (gm_get_or [] m k) = {v. (k, v) \<in> set kvs} \<and> distinct (gm_get_or [] m k) \<and>
        (gm_get m k \<noteq> None \<longrightarrow> gm_get_or [] m k \<noteq> []))"

lemma addValue_wf: "gm_wf m \<Longrightarrow> gm_wf (addValue kv m)"
  by (simp add: addValue_def Let_def)

lemma key_inv_add: "key_inv m kvs \<Longrightarrow> key_inv (addValue kv m) (kvs @ [kv])"
  unfolding key_inv_def
  by (cases kv) (auto simp: addValue_get addValue_get_or Let_def addValue_wf, metis empty_iff empty_set mem_Collect_eq)

lemma key_inv_fold: "key_inv m kvs \<Longrightarrow> key_inv (fold addValue xs m) (kvs @ xs)"
proof (induction xs arbitrary: m kvs)
  case (Cons x xs)
  from Cons.IH [OF key_inv_add [OF Cons.prems, of x]] show ?case by simp
qed simp

lemma keyMap_flat: "keyMap insts = fold addValue (concat (map Metadata insts)) []"
proof -
  have "fold (\<lambda>inst m. fold addValue (Metadata inst) m) insts m =
      fold addValue (concat (map Metadata insts)) m" for m
    by (induction insts arbitrary: m) auto
  then show ?thesis by (simp add: keyMap_def)
qed

lemma keyMap_inv: "key_inv (keyMap insts) (concat (map Metadata insts))"
  using key_inv_fold [of "[]" "[]" "concat (map Metadata insts)"]
  by (simp add: keyMap_flat key_inv_def gm_get_or_def)

lemma keyMap_values:
  "gm_get (keyMap insts) k = Some vals \<Longrightarrow> set vals = key_values insts k \<and> distinct vals \<and> vals \<noteq> []"
  using keyMap_inv [of insts] unfolding key_inv_def gm_get_or_def key_values_def
  by (fastforce split: option.splits)

lemma keyMap_key: "gm_get (keyMap insts) k \<noteq> None \<longleftrightarrow> key_values insts k \<noteq> {}"
proof -
  have "set (gm_get_or [] (keyMap insts) k) = key_values insts k"
    using keyMap_inv [of insts] by (auto simp: key_inv_def key_values_def)
  then show ?thesis using keyMap_values [of insts k] by (auto simp: gm_get_or_def split: option.splits)
qed

section \<open>Properties\<close>

text \<open>The metadata summary of a service. Its keys are the metadata keys of the instances, each
  once and in order; the values of a key are the values that instances have for it, each once
  and in order; and the instance count of a key is the number of those different values, which
  is not the number of instances that carry the key when two of them agree on its value.\<close>

theorem metadata_summary:
  "sorted (map mk_Key (metadataKeys insts)) \<and> distinct (map mk_Key (metadataKeys insts)) \<and>
   set (map mk_Key (metadataKeys insts)) = {k. key_values insts k \<noteq> {}} \<and>
   list_all (\<lambda>s. sorted (mk_Values s) \<and> distinct (mk_Values s) \<and>
      set (mk_Values s) = key_values insts (mk_Key s) \<and>
      mk_InstanceCount s = int (card (key_values insts (mk_Key s)))) (metadataKeys insts)"
proof -
  let ?f = "\<lambda>e. \<lparr>mk_Key = fst e, mk_InstanceCount = int (length (snd e)), mk_Values = sort (snd e)\<rparr>"
  have wf: "gm_wf (keyMap insts)" using keyMap_inv [of insts] by (simp add: key_inv_def)
  have set: "set (metadataKeys insts) = ?f ` set (keyMap insts)" by (simp add: metadataKeys_def)
  have "mset (map mk_Key (metadataKeys insts)) = mset (map fst (keyMap insts))"
    by (simp add: metadataKeys_def image_mset.compositionality comp_def)
  then have "distinct (map mk_Key (metadataKeys insts))" using wf
    unfolding gm_wf_def by (metis mset_eq_imp_distinct_iff)
  moreover have "set (map mk_Key (metadataKeys insts)) = {k. key_values insts k \<noteq> {}}"
    using keyMap_key [of insts] gm_get_None_iff [of "keyMap insts"]
    by (auto simp: set image_image)
  moreover have "list_all (\<lambda>s. sorted (mk_Values s) \<and> distinct (mk_Values s) \<and>
      set (mk_Values s) = key_values insts (mk_Key s) \<and>
      mk_InstanceCount s = int (card (key_values insts (mk_Key s)))) (metadataKeys insts)"
  proof -
    have "set v = key_values insts k \<and> distinct v \<and> length v = card (key_values insts k)"
      if "(k, v) \<in> set (keyMap insts)" for k v
      using keyMap_values [of insts k v] that gm_get_iff [OF wf] distinct_card [of v] by metis
    then show ?thesis by (auto simp: list_all_iff set)
  qed
  ultimately show ?thesis by (simp add: metadataKeys_def)
qed

text \<open>The dashboard forwards two headers of the client and no credentials but its own.\<close>

lemma dashRequest_headers:
  assumes "CanonicalHeaderKey k \<notin> {''Content-Type'', ''Accept'', ''Authorization''}"
  shows "Header_Get (dr_Header (dashRequest cfg env r base path)) k = []"
proof -
  have "CanonicalHeaderKey ''Content-Type'' = ''Content-Type''" "CanonicalHeaderKey ''Accept'' = ''Accept''"
    "CanonicalHeaderKey ''Authorization'' = ''Authorization''" by code_simp+
  then show ?thesis using assms
    by (simp add: dashRequest_def Let_def Header_Get_Set_other) (simp add: Header_Get_def)
qed

end
