(* ===== verification/Go_Float.thy ===== *)
theory Go_Float
  imports Complex_Main "HOL-Library.Log_Nat"
begin

text \<open>
  What the program uses of \<^verbatim>\<open>float64\<close>: a finite double is the real number that it stands for, and each
  operation is the exact operation followed by \<open>float64\<close>, the rounding to nearest, ties to even, with 53
  significant bits and the smallest distance \<^verbatim>\<open>2^-1074\<close> of two doubles. There is no upper end of the range:
  what overflows to infinity is a large real here, which is out of the range of \<^verbatim>\<open>int64\<close> as well. Operations
  are not fused.
\<close>

definition ulp_exp :: "real \<Rightarrow> int" where
  "ulp_exp x = max 0 (bitlen \<lfloor>\<bar>x\<bar> * 2 ^ 1074\<rfloor> - 53) - 1074"

definition round_even :: "real \<Rightarrow> int" where
  "round_even y =
     (let f = \<lfloor>y\<rfloor>; d = y - of_int f
      in if d < 1 / 2 \<or> d = 1 / 2 \<and> even f then f else f + 1)"

definition float64 :: "real \<Rightarrow> real" where
  "float64 x = (let e = ulp_exp x in of_int (round_even (x * 2 powi (- e))) * 2 powi e)"

text \<open>The conversion to \<^verbatim>\<open>int64\<close> drops the fraction; out of range the result is up to the
  implementation.\<close>

definition int64_of :: "int \<Rightarrow> real \<Rightarrow> int" where
  "int64_of other x =
     (let t = (if 0 \<le> x then \<lfloor>x\<rfloor> else \<lceil>x\<rceil>) in if - (2 ^ 63) \<le> t \<and> t < 2 ^ 63 then t else other)"

section \<open>Rounding\<close>

lemma round_even_ge: "of_int i \<le> y \<Longrightarrow> i \<le> round_even y"
  by (simp add: round_even_def Let_def le_floor_iff [symmetric])

lemma round_even_le: "y \<le> of_int i \<Longrightarrow> round_even y \<le> i"
proof -
  assume le: "y \<le> of_int i"
  show "round_even y \<le> i"
  proof (cases "y = of_int i")
    case False
    then have "\<lfloor>y\<rfloor> < i" using le by (simp add: floor_less_iff)
    then show ?thesis by (simp add: round_even_def Let_def)
  qed (simp add: round_even_def)
qed

text \<open>Above the distance of the doubles the number has 53 significant bits.\<close>

lemma ulp_exp_size:
  assumes "0 \<le> x" "- 1074 < ulp_exp x"
  shows "2 powi (ulp_exp x + 52) \<le> x"
proof -
  let ?n = "\<lfloor>x * 2 ^ 1074\<rfloor>"
  define b where "b = nat (bitlen ?n - 1)"
  have e: "ulp_exp x = bitlen ?n - 53 - 1074" "53 < bitlen ?n"
    using assms by (auto simp: ulp_exp_def max_def split: if_splits)
  have pos: "0 < ?n"
  proof (rule ccontr)
    assume "\<not> 0 < ?n"
    moreover have "0 \<le> ?n" using assms by simp
    ultimately have "bitlen ?n = 0" by (simp add: bitlen_def floorlog_def)
    then show False using e by simp
  qed
  have "2 ^ b \<le> ?n" using bitlen_bounds [OF pos] by (simp add: b_def)
  then have "2 ^ b \<le> x * 2 ^ 1074" by (metis le_floor_iff of_int_numeral of_int_power)
  moreover have "(2 :: real) ^ b = 2 powi (ulp_exp x + 52) * 2 ^ 1074"
  proof -
    have "int b = ulp_exp x + 52 + 1074" using e by (simp add: b_def)
    then have "(2 :: real) powi (int b) = 2 powi (ulp_exp x + 52 + int 1074)" by simp
    then show ?thesis by (subst (asm) power_int_add [of 2]) (simp_all only: power_int_of_nat, simp)
  qed
  ultimately show ?thesis by simp
qed

lemma powi_pos: "(0 :: real) < 2 powi e" by simp

lemma unscale: "(y :: real) * 2 powi (- e) * 2 powi e = y"
  by (simp add: power_int_minus field_simps)

lemma float64_grid:
  assumes "ulp_exp x \<le> int j"
  shows "of_int m * 2 ^ j * 2 powi (- ulp_exp x) = (of_int (m * 2 ^ nat (int j - ulp_exp x)) :: real)"
proof -
  have "(2 :: real) ^ j * 2 powi (- ulp_exp x) = 2 powi (int j + - ulp_exp x)"
    by (subst power_int_add) (simp_all)
  also have "\<dots> = 2 ^ nat (int j - ulp_exp x)" using assms by (simp add: power_int_def)
  finally show ?thesis by simp
qed

lemma float64_ge:
  assumes "of_int m * 2 ^ j \<le> x" "0 \<le> m" "m < 2 ^ 53"
  shows "of_int m * 2 ^ j \<le> float64 x"
proof -
  let ?e = "ulp_exp x"
  have x: "0 \<le> x" using assms(1,2) by (meson of_int_nonneg order_trans zero_le_mult_iff zero_le_numeral zero_le_power)
  show ?thesis
  proof (cases "?e \<le> int j")
    case True
    let ?i = "m * 2 ^ nat (int j - ?e)"
    have "of_int ?i \<le> x * 2 powi (- ?e)"
      using mult_right_mono [OF assms(1), of "2 powi (- ?e)"] unfolding float64_grid [OF True] by simp
    then have "?i \<le> round_even (x * 2 powi (- ?e))" by (rule round_even_ge)
    then have "of_int ?i * 2 powi ?e \<le> float64 x"
      unfolding float64_def Let_def by (intro mult_right_mono) (simp_all only: of_int_le_iff powi_pos less_imp_le)
    then show ?thesis unfolding float64_grid [OF True, symmetric] unscale .
  next
    case False
    have "2 powi (?e + 52) \<le> x" using ulp_exp_size [OF x] False by simp
    then have "2 powi (?e + 52) * 2 powi (- ?e) \<le> x * 2 powi (- ?e)" by (rule mult_right_mono) simp
    moreover have "(2 :: real) powi (?e + 52) * 2 powi (- ?e) = of_int (2 ^ 52)"
      by (simp add: power_int_add [symmetric])
    ultimately have "of_int (2 ^ 52) \<le> x * 2 powi (- ?e)" by simp
    then have "2 ^ 52 \<le> round_even (x * 2 powi (- ?e))" by (rule round_even_ge)
    then have "of_int (2 ^ 52) * 2 powi ?e \<le> float64 x"
      unfolding float64_def Let_def by (intro mult_right_mono) (simp_all only: of_int_le_iff powi_pos less_imp_le)
    moreover have "of_int m * 2 ^ j \<le> (of_int (2 ^ 53) * 2 ^ j :: real)"
      using assms(3) by (intro mult_right_mono) (simp_all only: of_int_le_iff less_imp_le zero_le_power zero_le_numeral)
    moreover have "(of_int (2 ^ 53) * 2 ^ j :: real) \<le> of_int (2 ^ 52) * 2 powi ?e"
    proof -
      have "(2 :: real) powi (int j + 1) \<le> 2 powi ?e" using False by (intro power_int_increasing) auto
      then show ?thesis by (simp add: power_int_add)
    qed
    ultimately show ?thesis by linarith
  qed
qed

lemma float64_le:
  assumes "x \<le> of_int m * 2 ^ j" "0 \<le> x" "m < 2 ^ 53"
  shows "float64 x \<le> of_int m * 2 ^ j"
proof (cases "ulp_exp x \<le> int j")
  case True
  let ?e = "ulp_exp x" let ?i = "m * 2 ^ nat (int j - ?e)"
  have "x * 2 powi (- ?e) \<le> of_int ?i"
    using mult_right_mono [OF assms(1), of "2 powi (- ?e)"] unfolding float64_grid [OF True] by simp
  then have "round_even (x * 2 powi (- ?e)) \<le> ?i" by (rule round_even_le)
  then have "float64 x \<le> of_int ?i * 2 powi ?e"
    unfolding float64_def Let_def by (intro mult_right_mono) (simp_all only: of_int_le_iff powi_pos less_imp_le)
  then show ?thesis unfolding float64_grid [OF True, symmetric] unscale .
next
  case False
  let ?e = "ulp_exp x"
  have "2 powi (?e + 52) \<le> x" using ulp_exp_size [OF assms(2)] False by simp
  moreover have "(2 :: real) powi (int (j + 53)) \<le> 2 powi (?e + 52)" using False by (intro power_int_increasing) auto
  moreover have "of_int m * 2 ^ j < (of_int (2 ^ 53) * 2 ^ j :: real)"
    using assms(3) by (intro mult_strict_right_mono) (simp_all only: of_int_less_iff, simp)
  moreover have "(of_int (2 ^ 53) * 2 ^ j :: real) = 2 powi (int (j + 53))"
    unfolding power_int_of_nat power_add by simp
  ultimately show ?thesis using assms(1) by linarith
qed

lemma float64_int:
  assumes "0 \<le> m" "m < 2 ^ 53"
  shows "float64 (of_int m * 2 ^ j) = of_int m * 2 ^ j"
  using float64_ge [of m j "of_int m * 2 ^ j"] float64_le [of "of_int m * 2 ^ j" m j] assms by (intro antisym) simp_all

lemmas float64_ge_int = float64_ge [where j = 0, simplified]
lemmas float64_le_int = float64_le [where j = 0, simplified]
lemmas float64_exact = float64_int [where j = 0, simplified]
lemmas float64_power = float64_int [where m = 1, simplified]

lemma int64_of_between:
  assumes "of_int a \<le> x" "x \<le> of_int b" "0 \<le> a" "b < 2 ^ 63"
  shows "a \<le> int64_of other x \<and> int64_of other x \<le> b"
proof -
  have "a \<le> \<lfloor>x\<rfloor>" "\<lfloor>x\<rfloor> \<le> b" using assms by (auto simp: le_floor_iff floor_le_iff)
  moreover have "0 \<le> x" using assms(1,3) by (meson of_int_nonneg order_trans)
  moreover have "- (2 ^ 63) \<le> \<lfloor>x\<rfloor> \<and> \<lfloor>x\<rfloor> < 2 ^ 63" using calculation assms(3,4) by linarith
  ultimately show ?thesis unfolding int64_of_def Let_def by presburger
qed

end
