(* ===== verification/Gateway_Retry.thy ===== *)
theory Gateway_Retry
  imports Gateway_Proxy Go_Float
begin

text \<open>
  The pause before a retry, \<^verbatim>\<open>retryDelay\<close> of \<^verbatim>\<open>internal/gateway/proxy.go\<close>: an exponential backoff with a random
  part, computed in \<^verbatim>\<open>float64\<close>. The draw of \<^verbatim>\<open>rand.Float64\<close> and the result of a conversion out of range are
  arguments. \<^verbatim>\<open>math.Pow\<close> is the power, rounded; for the exponent 2 that the program configures it is exact.
\<close>

definition retryDelay :: "int \<Rightarrow> real \<Rightarrow> ResilienceConfig \<Rightarrow> go_int \<Rightarrow> duration" where
  "retryDelay other u res attempt =
     (let base = float64 (of_int (RetryBaseDelay res));
          exponential = float64 (base * float64 (RetryBackoffExponent res ^ nat (attempt - 1)));
          jitter = float64 (u * float64 (of_int (RetryJitterMax res)))
      in int64_of other (float64 (exponential + jitter)))"

text \<open>What a request waits in all when it is tried \<open>n\<close> times after the first.\<close>

definition backoff :: "int \<Rightarrow> (nat \<Rightarrow> real) \<Rightarrow> ResilienceConfig \<Rightarrow> nat \<Rightarrow> duration" where
  "backoff other us res n = sum_list (map (\<lambda>k. retryDelay other (us k) res (int k)) [1..<Suc n])"

lemma jitter_bounds:
  assumes "0 \<le> u" "u < 1" "0 \<le> j" "j < 2 ^ 53"
  shows "0 \<le> float64 (u * float64 (of_int j)) \<and> float64 (u * float64 (of_int j)) \<le> of_int j"
proof -
  have exact: "float64 (of_int j) = of_int j" using assms by (intro float64_exact) simp_all
  have "u * of_int j \<le> of_int j" using assms by (intro mult_left_le_one_le) simp_all
  moreover have "0 \<le> u * of_int j" using assms by simp
  ultimately show ?thesis using assms float64_ge_int [of 0 "u * of_int j"] float64_le_int [of "u * of_int j" j] exact
    by simp
qed

text \<open>One pause, while it stays below \<^verbatim>\<open>2^53\<close> nanoseconds (more than a hundred days).\<close>

lemma retryDelay_bounds:
  assumes "0 \<le> u" "u < 1" "RetryBackoffExponent res = 2" "0 \<le> RetryBaseDelay res" "0 \<le> RetryJitterMax res"
    and "RetryBaseDelay res * 2 ^ n + RetryJitterMax res < 2 ^ 53"
  shows "RetryBaseDelay res * 2 ^ n \<le> retryDelay other u res (int (Suc n)) \<and>
    retryDelay other u res (int (Suc n)) \<le> RetryBaseDelay res * 2 ^ n + RetryJitterMax res"
proof -
  let ?b = "RetryBaseDelay res" and ?j = "RetryJitterMax res"
  let ?e = "?b * 2 ^ n"
  have e: "0 \<le> ?e" "?e < 2 ^ 53" "?b \<le> ?e" using assms by (auto simp: mult_le_cancel_left1)
  have exact: "float64 (of_int ?b) = of_int ?b" "float64 (of_int ?e) = of_int ?e"
    using assms e by (auto intro: float64_exact simp del: of_int_mult of_int_power)
  define s where "s = of_int ?e + float64 (u * float64 (of_int ?j))"
  have j: "?j < 2 ^ 53" using assms e by linarith
  have s: "of_int ?e \<le> s" "s \<le> of_int (?e + ?j)" using jitter_bounds [of u ?j] assms j by (auto simp: s_def)
  have "(0 :: real) \<le> of_int ?e" using e(1) by (simp only: of_int_0_le_iff)
  then have pos: "0 \<le> s" using s(1) by linarith
  have "of_int ?e \<le> float64 s" using s e by (intro float64_ge_int) auto
  moreover have "float64 s \<le> of_int (?e + ?j)" using s(2) pos assms(6) by (intro float64_le_int) auto
  moreover have "retryDelay other u res (int (Suc n)) = int64_of other (float64 s)"
    using exact assms(3) float64_power [of n] by (simp add: retryDelay_def s_def Let_def)
  ultimately show ?thesis using int64_of_between [of ?e "float64 s" "?e + ?j" other] e(1) assms(6) by simp
qed

lemma backoff_bounds:
  assumes "\<forall>k. 0 \<le> us k \<and> us k < 1"
    and "RetryBackoffExponent res = 2" "0 \<le> RetryBaseDelay res" "0 \<le> RetryJitterMax res"
    and "RetryBaseDelay res * 2 ^ n + RetryJitterMax res < 2 ^ 53"
  shows "RetryBaseDelay res * (2 ^ n - 1) \<le> backoff other us res n \<and>
    backoff other us res n \<le> RetryBaseDelay res * (2 ^ n - 1) + int n * RetryJitterMax res"
  using assms(5)
proof (induction n)
  case (Suc n)
  have "RetryBaseDelay res * 2 ^ n \<le> RetryBaseDelay res * 2 ^ Suc n" using assms(3) by simp
  then have less: "RetryBaseDelay res * 2 ^ n + RetryJitterMax res < 2 ^ 53" using Suc.prems by linarith
  have "backoff other us res (Suc n) = backoff other us res n + retryDelay other (us (Suc n)) res (int (Suc n))"
    by (simp add: backoff_def)
  then show ?case
    using Suc.IH [OF less] retryDelay_bounds [OF _ _ assms(2-4) less, of "us (Suc n)" other] assms(1)
    by (simp add: algebra_simps)
qed (simp add: backoff_def)

text \<open>From the 37th retry on the pause of the configured backoff does not fit into \<^verbatim>\<open>int64\<close>.\<close>

lemma retryDelay_overflows:
  assumes "0 \<le> u" "u < 1" "RetryBackoffExponent res = 2" "RetryBaseDelay res = 200 * Millisecond"
    and "0 \<le> RetryJitterMax res" "RetryJitterMax res < 2 ^ 53" "36 \<le> n"
  shows "retryDelay other u res (int (Suc n)) = other"
proof -
  let ?e = "of_int (RetryBaseDelay res) * 2 ^ n :: real"
  let ?j = "float64 (u * float64 (of_int (RetryJitterMax res)))"
  have "(2 :: real) ^ 36 \<le> 2 ^ n" using assms(7) by (rule power_increasing) simp
  then have big: "2 ^ 63 \<le> ?e" using assms(4) by simp
  have exact: "float64 ?e = ?e" using assms(4) by (intro float64_int) simp_all
  have "2 ^ 63 \<le> ?e + ?j" using big jitter_bounds [OF assms(1,2,5,6)] by simp
  then have "2 ^ 63 \<le> float64 (?e + ?j)" using float64_ge [of 1 63 "?e + ?j"] by simp
  moreover have "float64 (of_int (RetryBaseDelay res)) = of_int (RetryBaseDelay res)"
    using assms(4) by (intro float64_exact) simp_all
  then have "retryDelay other u res (int (Suc n)) = int64_of other (float64 (?e + ?j))"
    using exact assms(3) float64_power [of n] by (simp add: retryDelay_def Let_def)
  ultimately show ?thesis by (simp add: int64_of_def Let_def floor_less_iff)
qed

lemma configured_backoff [simp]:
  "RetryBaseDelay (Resilience (loadConfig getenv)) = 200 * Millisecond"
  "RetryBackoffExponent (Resilience (loadConfig getenv)) = 2"
  "RetryJitterMax (Resilience (loadConfig getenv)) = 200 * Millisecond"
  by (simp_all add: loadConfig_def gw_DefaultConfig_def Let_def)

text \<open>C34: The backoff of the retries. With what the environment can configure, whatever is drawn and
  however the operations round, a request that is retried \<open>n\<close> times, \<open>n\<close> up to 25, waits at least
  200 ms times \<^verbatim>\<open>2^n - 1\<close> and at most \<open>n\<close> times 200 ms more: with the default of three retries between 1.4 and
  2 seconds. The retry count is not bounded, though, and from the 37th retry on the pause is out
  of the range of a duration, so that the language does not say how long it is.\<close>

theorem retry_backoff:
  assumes "\<forall>k. 0 \<le> us k \<and> us k < 1" and "res = Resilience (loadConfig getenv)"
  shows "(if n \<le> 25
      then 200 * Millisecond * (2 ^ n - 1) \<le> backoff other us res n \<and>
        backoff other us res n \<le> 200 * Millisecond * (2 ^ n - 1) + int n * (200 * Millisecond)
      else 36 \<le> n \<longrightarrow> retryDelay other (us (Suc n)) res (int (Suc n)) = other)"
proof (cases "n \<le> 25")
  case True
  then have "(2 :: int) ^ n \<le> 2 ^ 25" by (intro power_increasing) simp_all
  then show ?thesis using backoff_bounds [OF assms(1), of res n other] True by (simp add: assms(2))
next
  case False
  then show ?thesis using retryDelay_overflows [of "us (Suc n)" res n other] assms by simp
qed

theorem retry_backoff_witness:
  "1400 * Millisecond \<le> backoff (- 1) (\<lambda>_. 1 / 2) (Resilience (loadConfig (\<lambda>_. []))) 3 \<and>
   backoff (- 1) (\<lambda>_. 1 / 2) (Resilience (loadConfig (\<lambda>_. []))) 3 \<le> 2000 * Millisecond"
  using retry_backoff [of "\<lambda>_. 1 / 2" "Resilience (loadConfig (\<lambda>_. []))" "\<lambda>_. []" 3 "- 1"] by simp

end
