(* ===== verification/Go_Mux.thy ===== *)
theory Go_Mux
  imports Go_Net "HOL-Library.List_Lexorder" "HOL-Library.Char_ord"
begin

text \<open>
  \<^verbatim>\<open>http.ServeMux\<close>: patterns with an optional method and host, literal segments, \<^verbatim>\<open>{name}\<close> wildcards,
  \<^verbatim>\<open>{$}\<close>, and a trailing slash or \<^verbatim>\<open>{name...}\<close> that stands for a subtree; the precedence of the patterns,
  the redirects to the clean path and to the path with a trailing slash, and the answers 404 and 405.
  A multiplexer is the list of its patterns, each with the route \<open>'p\<close> that it leads to. What
  \<^verbatim>\<open>{name...}\<close> has matched is not recorded (no handler of the program asks for it), and the names of
  wildcards are those in ASCII.
\<close>

section \<open>Paths\<close>

text \<open>\<^verbatim>\<open>url.PathUnescape\<close>, which leaves a segment with an invalid escape as it is.\<close>

fun unescape :: "string \<Rightarrow> string option" where
  "unescape [] = Some []"
| "unescape (c # cs) =
     (if c = CHR ''%'' then
        (case cs of
           a # b # rest \<Rightarrow>
             (case (hex_val a, hex_val b) of
                (Some x, Some y) \<Rightarrow> map_option (Cons (char_of (x * 16 + y))) (unescape rest)
              | _ \<Rightarrow> None)
         | _ \<Rightarrow> None)
      else map_option (Cons c) (unescape cs))"

definition pathUnescape :: "string \<Rightarrow> string" where
  "pathUnescape s = (case unescape s of Some t \<Rightarrow> t | None \<Rightarrow> s)"

text \<open>\<^verbatim>\<open>path.Clean\<close> of a rooted path, on its segments, and \<^verbatim>\<open>cleanPath\<close>.\<close>

definition cleanSegments :: "string list \<Rightarrow> string list" where
  "cleanSegments xs =
     rev (fold (\<lambda>x acc. if x = [] \<or> x = ''.'' then acc
                        else if x = ''..'' then drop 1 acc else x # acc) xs [])"

definition cleanPath :: "string \<Rightarrow> string" where
  "cleanPath p =
     (if p = [] then ''/''
      else (let q = (if hd p \<noteq> CHR ''/'' then CHR ''/'' # p else p);
                np = CHR ''/'' # Join (cleanSegments (Split q CHR ''/'')) ''/''
            in if last q = CHR ''/'' \<and> np \<noteq> ''/'' then np @ ''/'' else np))"

text \<open>The segments that \<^verbatim>\<open>firstSegment\<close> yields one after the other: unescaped, and a final slash as
  the segment \<^verbatim>\<open>/\<close>.\<close>

definition pathSegs :: "string \<Rightarrow> string list" where
  "pathSegs path =
     (if path = [] then []
      else (let xs = Split (tl path) CHR ''/''
            in map pathUnescape (butlast xs) @
               [if last xs = [] then ''/'' else pathUnescape (last xs)]))"

section \<open>Patterns\<close>

datatype segment = Lit string | Wild string | Multi

record 'p pattern =
  pat_host :: string
  pat_method :: string
  pat_segments :: "segment list"
  pat_route :: 'p

text \<open>\<^verbatim>\<open>parsePattern\<close>: the method up to the first blank, the host up to the first slash, and the
  segments of the path. A segment is a wildcard when it has a brace; \<^verbatim>\<open>{$}\<close> matches the final slash
  only.\<close>

definition wildSegment :: "string \<Rightarrow> segment" where
  "wildSegment name =
     (if name = ''$'' then Lit ''/'' else if HasSuffix name ''...'' then Multi else Wild name)"

definition literalSegment :: "string \<Rightarrow> segment" where
  "literalSegment s = (if CHR 0x7B \<in> set s then wildSegment (butlast (tl s)) else Lit (pathUnescape s))"

definition pathPattern :: "string \<Rightarrow> segment list" where
  "pathPattern path =
     (let xs = Split (tl path) CHR ''/''
      in map literalSegment (butlast xs) @ [if last xs = [] then Multi else literalSegment (last xs)])"

definition splitPattern :: "string \<Rightarrow> string \<times> string \<times> string" where
  "splitPattern s =
     (let blank = (\<lambda>c. c = CHR '' '' \<or> c = CHR 0x09); m = takeWhile (\<lambda>c. \<not> blank c) s;
          found = (length m \<noteq> length s);
          rest = (if found then dropWhile blank (drop (length m) s) else s)
      in (if found then m else [], takeWhile (\<lambda>c. c \<noteq> CHR ''/'') rest, dropWhile (\<lambda>c. c \<noteq> CHR ''/'') rest))"

definition parsePattern :: "string \<Rightarrow> 'p \<Rightarrow> 'p pattern" where
  "parsePattern s x =
     (let (m, h, path) = splitPattern s
      in \<lparr>pat_host = h, pat_method = m, pat_segments = pathPattern path, pat_route = x\<rparr>)"

text \<open>What is refused: no slash, a method that is no token, a brace in the host, an unclean path with a
  method other than \<^verbatim>\<open>CONNECT\<close>, a malformed wildcard, one that must be at the end and is not, and a name
  that is used twice.\<close>

definition is_name_byte :: "char \<Rightarrow> bool" where
  "is_name_byte c \<longleftrightarrow> (let b = byte c in 65 \<le> b \<and> b \<le> 90 \<or> 97 \<le> b \<and> b \<le> 122 \<or> b = 95)"

definition validWildcardName :: "string \<Rightarrow> bool" where
  "validWildcardName s \<longleftrightarrow> s \<noteq> [] \<and> is_name_byte (hd s) \<and>
     list_all (\<lambda>c. is_name_byte c \<or> 48 \<le> byte c \<and> byte c \<le> 57) (tl s)"

definition wildName :: "string \<Rightarrow> string" where
  "wildName seg =
     (let name = butlast (tl seg) in if HasSuffix name ''...'' then take (length name - 3) name else name)"

definition validSegment :: "bool \<Rightarrow> string \<Rightarrow> bool" where
  "validSegment final seg \<longleftrightarrow>
     CHR 0x7B \<notin> set seg \<or>
     hd seg = CHR 0x7B \<and> last seg = CHR 0x7D \<and>
     (let name = butlast (tl seg)
      in if name = ''$'' then final
         else (HasSuffix name ''...'' \<longrightarrow> final) \<and> validWildcardName (wildName seg))"

definition validPath :: "string \<Rightarrow> bool" where
  "validPath path \<longleftrightarrow>
     (let xs = Split (tl path) CHR ''/''
      in list_all (validSegment False) (butlast xs) \<and> validSegment True (last xs) \<and>
         distinct (map wildName (filter (\<lambda>x. CHR 0x7B \<in> set x) xs)))"

definition validPattern :: "string \<Rightarrow> bool" where
  "validPattern s \<longleftrightarrow>
     (let (m, h, path) = splitPattern s
      in path \<noteq> [] \<and> list_all is_token_byte m \<and> CHR 0x7B \<notin> set h \<and>
         (m = [] \<or> m = ''CONNECT'' \<or> cleanPath path = path) \<and> validPath path)"

text \<open>When the patterns of two registrations are refused together: they match a common request,
  and neither is more specific than the other.\<close>

fun overlap :: "segment list \<Rightarrow> segment list \<Rightarrow> bool" where
  "overlap [] [] = True"
| "overlap (Multi # _) (_ # _) = True"
| "overlap (_ # _) (Multi # _) = True"
| "overlap (Lit a # xs) (Lit b # ys) = (a = b \<and> overlap xs ys)"
| "overlap (Lit a # xs) (Wild _ # ys) = (a \<noteq> ''/'' \<and> overlap xs ys)"
| "overlap (Wild _ # xs) (Lit b # ys) = (b \<noteq> ''/'' \<and> overlap xs ys)"
| "overlap (Wild _ # xs) (Wild _ # ys) = overlap xs ys"
| "overlap _ _ = False"

fun covers :: "segment list \<Rightarrow> segment list \<Rightarrow> bool" where
  "covers [] [] = True"
| "covers (Multi # _) (_ # _) = True"
| "covers (Lit a # xs) (Lit b # ys) = (a = b \<and> covers xs ys)"
| "covers (Wild _ # xs) (Lit b # ys) = (b \<noteq> ''/'' \<and> covers xs ys)"
| "covers (Wild _ # xs) (Wild _ # ys) = covers xs ys"
| "covers _ _ = False"

definition method_covers :: "string \<Rightarrow> string \<Rightarrow> bool" where
  "method_covers m m' \<longleftrightarrow> m = [] \<or> m = m' \<or> m = ''GET'' \<and> m' = ''HEAD''"

definition covers_pattern :: "'p pattern \<Rightarrow> 'p pattern \<Rightarrow> bool" where
  "covers_pattern p q \<longleftrightarrow>
     method_covers (pat_method p) (pat_method q) \<and> covers (pat_segments p) (pat_segments q)"

definition conflicts :: "'p pattern \<Rightarrow> 'p pattern \<Rightarrow> bool" where
  "conflicts p q \<longleftrightarrow> pat_host p = pat_host q \<and>
     (method_covers (pat_method p) (pat_method q) \<or> method_covers (pat_method q) (pat_method p)) \<and>
     overlap (pat_segments p) (pat_segments q) \<and> covers_pattern p q = covers_pattern q p"

text \<open>\<^verbatim>\<open>Handle\<close>; \<open>None\<close> is the panic on an invalid pattern or a conflict.\<close>

definition Handle :: "string \<Rightarrow> 'p \<Rightarrow> 'p pattern list \<Rightarrow> 'p pattern list option" where
  "Handle s x mux =
     (let p = parsePattern s x
      in if \<not> validPattern s \<or> list_ex (conflicts p) mux then None else Some (mux @ [p]))"

fun NewMux :: "(string \<times> 'p) list \<Rightarrow> 'p pattern list \<Rightarrow> 'p pattern list option" where
  "NewMux [] mux = Some mux"
| "NewMux ((s, x) # regs) mux =
     (case Handle s x mux of None \<Rightarrow> None | Some mux' \<Rightarrow> NewMux regs mux')"

section \<open>Matching\<close>

text \<open>
  A node of the routing tree is the list of what is left of the patterns below it: \<open>below\<close> is the
  child under a key. A literal segment is its own key and a wildcard has the empty one, so that an
  empty literal segment is in the tree what a wildcard is. The accumulator holds what the wildcards
  have matched.
\<close>

definition below :: "string \<Rightarrow> (segment list \<times> 'p) list \<Rightarrow> (segment list \<times> 'p) list" where
  "below s ts = List.map_filter (\<lambda>t. case fst t of
     Lit a # xs \<Rightarrow> if a = s then Some (xs, snd t) else None
   | Wild _ # xs \<Rightarrow> if s = [] then Some (xs, snd t) else None
   | _ \<Rightarrow> None) ts"

fun matchSegs :: "(segment list \<times> 'p) list \<Rightarrow> string list \<Rightarrow> string list \<Rightarrow> ('p \<times> string list) option" where
  "matchSegs ts [] ms = map_option (\<lambda>t. (snd t, ms)) (find (\<lambda>t. fst t = []) ts)"
| "matchSegs ts (s # ss) ms =
     (case matchSegs (below s ts) ss ms of
        Some r \<Rightarrow> Some r
      | None \<Rightarrow>
          (case if s = ''/'' then None else matchSegs (below [] ts) ss (ms @ [s]) of
             Some r \<Rightarrow> Some r
           | None \<Rightarrow> map_option (\<lambda>t. (snd t, ms)) (find (\<lambda>t. fst t = [Multi]) ts)))"

definition tree :: "string \<Rightarrow> 'p pattern list \<Rightarrow> (segment list \<times> 'p pattern) list" where
  "tree m mux = map (\<lambda>p. (pat_segments p, p)) (filter (\<lambda>p. pat_method p = m) mux)"

definition matchMethod ::
  "'p pattern list \<Rightarrow> string \<Rightarrow> string \<Rightarrow> ('p pattern \<times> string list) option" where
  "matchMethod mux meth path =
     (let find_in = (\<lambda>m. matchSegs (tree m mux) (pathSegs path) [])
      in case if meth = [] then None else find_in meth of
           Some r \<Rightarrow> Some r
         | None \<Rightarrow>
             (case if meth = ''HEAD'' then find_in ''GET'' else None of
                Some r \<Rightarrow> Some r
              | None \<Rightarrow> find_in []))"

definition exactMatch :: "('p pattern \<times> string list) option \<Rightarrow> string \<Rightarrow> bool" where
  "exactMatch n path =
     (case n of
        None \<Rightarrow> False
      | Some (p, _) \<Rightarrow>
          if last (pat_segments p) \<noteq> Multi then True
          else if path \<noteq> [] \<and> last path \<noteq> CHR ''/'' then False
          else length (pat_segments p) = length (filter (\<lambda>c. c = CHR ''/'') path))"

text \<open>The patterns of a host come before those without one.\<close>

definition at_host :: "string \<Rightarrow> 'p pattern list \<Rightarrow> 'p pattern list" where
  "at_host h mux = filter (\<lambda>p. pat_host p = h) mux"

definition matchHost ::
  "'p pattern list \<Rightarrow> string \<Rightarrow> string \<Rightarrow> string \<Rightarrow> ('p pattern \<times> string list) option" where
  "matchHost mux host meth path =
     (case if host = [] then None else matchMethod (at_host host mux) meth path of
        Some r \<Rightarrow> Some r
      | None \<Rightarrow> matchMethod (at_host [] mux) meth path)"

text \<open>The methods that would match, for the header \<^verbatim>\<open>Allow\<close>: sorted, each once.\<close>

definition methodsAt :: "'p pattern list \<Rightarrow> string \<Rightarrow> string list" where
  "methodsAt mux path =
     filter (\<lambda>m. m \<noteq> [] \<and> matchSegs (tree m mux) (pathSegs path) [] \<noteq> None) (map pat_method mux)"

definition methodsOrSlash :: "'p pattern list \<Rightarrow> string \<Rightarrow> string list" where
  "methodsOrSlash mux path =
     methodsAt mux path @ (if HasSuffix path ''/'' then [] else methodsAt mux (path @ ''/''))"

definition matchingMethods :: "'p pattern list \<Rightarrow> string \<Rightarrow> string \<Rightarrow> string list" where
  "matchingMethods mux host path =
     (let ms = (if host = [] then [] else methodsOrSlash (at_host host mux) path) @ methodsOrSlash (at_host [] mux) path;
          ms' = (if ''GET'' \<in> set ms then ''HEAD'' # ms else ms)
      in sort (remdups ms'))"

datatype 'p decision =
    Redirect string
  | Found 'p "string list"
  | NotAllowed "string list"
  | Missing

text \<open>\<^verbatim>\<open>stripHostPort\<close>, and the redirect of \<^verbatim>\<open>matchOrRedirect\<close> to the path with a final slash.\<close>

definition stripHostPort :: "string \<Rightarrow> string" where
  "stripHostPort h =
     (if CHR '':'' \<in> set h then (case SplitHostPort h of Some (host, _) \<Rightarrow> host | None \<Rightarrow> h) else h)"

definition slashRedirect :: "'p pattern list \<Rightarrow> string \<Rightarrow> string \<Rightarrow> string \<Rightarrow> bool" where
  "slashRedirect mux host meth path \<longleftrightarrow>
     \<not> exactMatch (matchHost mux host meth path) path \<and> \<not> HasSuffix path ''/'' \<and>
     exactMatch (matchHost mux host meth (path @ ''/'')) (path @ ''/'')"

text \<open>\<^verbatim>\<open>findHandler\<close>. A redirect names the path of its target; the query is kept. A \<^verbatim>\<open>CONNECT\<close> request is
  matched as it is, first under the host of its URL and then under its \<^verbatim>\<open>Host\<close>.\<close>

definition findHandler :: "'p pattern list \<Rightarrow> request \<Rightarrow> 'p decision" where
  "findHandler mux r =
     (let connect = (Method r = ''CONNECT'');
          host = (if connect then URL_Host r else stripHostPort (req_Host r));
          path = (if connect then EscapedPath r else cleanPath (EscapedPath r));
          n = matchHost mux (if connect then req_Host r else host) (Method r) path
      in if slashRedirect mux host (Method r) path then Redirect (cleanPath (URL_Path r) @ ''/'')
         else if path \<noteq> EscapedPath r then Redirect path
         else (case n of
                 Some (p, ms) \<Rightarrow> Found (pat_route p) ms
               | None \<Rightarrow> (case matchingMethods mux host path of
                            [] \<Rightarrow> Missing
                          | ms \<Rightarrow> NotAllowed ms)))"

text \<open>The handler: \<open>redirect\<close> is \<^verbatim>\<open>RedirectHandler\<close> with status 301 and \<open>serve\<close> the handlers of the routes,
  which get what the wildcards matched.\<close>

definition ServeMux ::
  "(string \<Rightarrow> request \<Rightarrow> writer \<Rightarrow> writer) \<Rightarrow>
   ('p \<Rightarrow> string list \<Rightarrow> request \<Rightarrow> writer \<Rightarrow> 's \<Rightarrow> writer \<times> 's) \<Rightarrow> 'p pattern list \<Rightarrow>
   request \<Rightarrow> writer \<Rightarrow> 's \<Rightarrow> writer \<times> 's" where
  "ServeMux redirect serve mux r w s =
     (case findHandler mux r of
        Redirect target \<Rightarrow> (redirect target r w, s)
      | Found x ms \<Rightarrow> serve x ms r w s
      | NotAllowed ms \<Rightarrow>
          (http_Error ''Method Not Allowed'' 405 (on_header (Header_Set ''Allow'' (Join ms '', '')) w), s)
      | Missing \<Rightarrow> (NotFound w, s))"

section \<open>Hosts\<close>

definition hostless :: "'p pattern list \<Rightarrow> bool" where
  "hostless mux \<longleftrightarrow> list_all (\<lambda>p. pat_host p = []) mux"

lemma at_host_hostless: "hostless mux \<Longrightarrow> at_host h mux = (if h = [] then mux else [])"
  by (auto simp: hostless_def at_host_def list_all_iff filter_empty_conv)

section \<open>Longest match\<close>

text \<open>When a pattern without wildcards matches the segments of a path.\<close>

fun hits :: "segment list \<Rightarrow> string list \<Rightarrow> bool" where
  "hits [] ss \<longleftrightarrow> ss = []"
| "hits (Lit a # xs) ss \<longleftrightarrow> ss \<noteq> [] \<and> hd ss = a \<and> hits xs (tl ss)"
| "hits (Multi # xs) ss \<longleftrightarrow> xs = [] \<and> ss \<noteq> []"
| "hits (Wild _ # xs) ss \<longleftrightarrow> False"

fun wild_free :: "segment list \<Rightarrow> bool" where
  "wild_free (Wild _ # _) = False"
| "wild_free (Lit a # xs) = (a \<noteq> [] \<and> wild_free xs)"
| "wild_free (Multi # xs) = wild_free xs"
| "wild_free [] = True"

lemma below_iff:
  "(xs, p) \<in> set (below s ts) \<longleftrightarrow> (Lit s # xs, p) \<in> set ts \<or> s = [] \<and> (\<exists>a. (Wild a # xs, p) \<in> set ts)"
proof (induction ts)
  case Nil
  show ?case by (simp add: below_def List.map_filter_simps)
next
  case (Cons t ts)
  obtain ys q where t: "t = (ys, q)" by (cases t)
  have "(xs, p) \<in> set (below s (t # ts)) \<longleftrightarrow>
      ys = Lit s # xs \<and> q = p \<or> s = [] \<and> (\<exists>a. ys = Wild a # xs) \<and> q = p \<or> (xs, p) \<in> set (below s ts)"
    by (auto simp: below_def List.map_filter_simps t split: list.splits segment.splits)
  then show ?case using Cons.IH t by auto
qed

lemma below_Nil: "\<forall>t \<in> set ts. wild_free (fst t) \<Longrightarrow> below [] ts = []"
  using below_iff [of _ _ "[]" ts] by (cases "below [] ts") (fastforce)+

lemma matchSegs_Nil [simp]: "matchSegs [] ss ms = None"
  by (induction ss arbitrary: ms) (auto simp: below_def List.map_filter_def)

lemma matchSegs_from: "matchSegs ts ss ms = Some r \<Longrightarrow> \<exists>xs. (xs, fst r) \<in> set ts"
proof (induction ts ss ms rule: matchSegs.induct)
  case (1 ts ms)
  then show ?case by (auto simp: find_Some_iff) (metis nth_mem prod.collapse)
next
  case (2 ts s ss ms)
  show ?case
  proof (cases "matchSegs (below s ts) ss ms")
    case None
    note lit = None
    show ?thesis
    proof (cases "if s = ''/'' then None else matchSegs (below [] ts) ss (ms @ [s])")
      case None
      then show ?thesis using 2(3) lit by (auto simp: find_Some_iff) (metis nth_mem prod.collapse)
    next
      case (Some r')
      then show ?thesis using 2(2) [OF lit] 2(3) lit by (auto simp: below_iff split: if_splits)
    qed
  next
    case (Some r')
    then show ?thesis using 2(1) 2(3) by (auto simp: below_iff)
  qed
qed

lemma hits_Cons: "hits xs (s # ss) \<longleftrightarrow> xs = [Multi] \<or> (\<exists>ys. xs = Lit s # ys \<and> hits ys ss)"
proof (cases xs)
  case (Cons x ys)
  then show ?thesis by (cases x) auto
qed simp

lemma hits_Nil: "hits xs [] \<longleftrightarrow> xs = []"
proof (cases xs)
  case (Cons x ys)
  then show ?thesis by (cases x) auto
qed simp

text \<open>The literal segments of a pattern.\<close>

fun lits :: "segment list \<Rightarrow> nat" where
  "lits [] = 0"
| "lits (Lit _ # xs) = Suc (lits xs)"
| "lits (_ # xs) = lits xs"

text \<open>Without wildcards the multiplexer finds the longest of the patterns that match.\<close>

lemma matchSegs_longest:
  "\<forall>t \<in> set ts. wild_free (fst t) \<Longrightarrow>
   (case matchSegs ts ss ms of
      None \<Rightarrow> \<forall>t \<in> set ts. \<not> hits (fst t) ss
    | Some (p, ms') \<Rightarrow> ms' = ms \<and> (\<exists>xs. (xs, p) \<in> set ts \<and> hits xs ss \<and>
        (\<forall>t \<in> set ts. hits (fst t) ss \<longrightarrow> lits (fst t) \<le> lits xs)))"
proof (induction ss arbitrary: ts)
  case Nil
  show ?case
  proof (cases "find (\<lambda>t. fst t = []) ts")
    case None
    then have "\<forall>t \<in> set ts. fst t \<noteq> []" by (auto simp: find_None_iff)
    with None show ?thesis by (simp add: hits_Nil)
  next
    case (Some t)
    then have "t \<in> set ts" "fst t = []" by (auto simp: find_Some_iff)
    then have "([], snd t) \<in> set ts" by (metis prod.collapse)
    then show ?thesis using Some by (auto simp: hits_Nil)
  qed
next
  case (Cons s ss)
  have wf: "\<forall>t \<in> set (below s ts). wild_free (fst t)"
    using Cons.prems by (auto simp: below_iff) (metis fst_conv wild_free.simps(1,2))+
  have wild: "below [] ts = []" using Cons.prems by (rule below_Nil)
  show ?case
  proof (cases "matchSegs (below s ts) ss ms")
    case None
    then have none: "\<not> hits ys ss" if "(Lit s # ys, q) \<in> set ts" for ys q
      using Cons.IH [OF wf] that below_iff [of ys q s ts] by fastforce
    have multi: "fst t = [Multi]" if "t \<in> set ts" "hits (fst t) (s # ss)" for t
      using that none hits_Cons [of "fst t" s ss] by (metis prod.collapse)
    show ?thesis
    proof (cases "find (\<lambda>t. fst t = [Multi]) ts")
      case None': None
      then have "\<forall>t \<in> set ts. \<not> hits (fst t) (s # ss)" using multi by (auto simp: find_None_iff)
      then show ?thesis using None None' wild by auto
    next
      case (Some t)
      then have "t \<in> set ts" "fst t = [Multi]" by (auto simp: find_Some_iff)
      then have "([Multi], snd t) \<in> set ts" by (metis prod.collapse)
      moreover have "\<forall>u \<in> set ts. hits (fst u) (s # ss) \<longrightarrow> lits (fst u) \<le> lits [Multi]"
        using multi by simp
      moreover have "hits [Multi] (s # ss)" by simp
      ultimately have "\<exists>xs. (xs, snd t) \<in> set ts \<and> hits xs (s # ss) \<and>
          (\<forall>u \<in> set ts. hits (fst u) (s # ss) \<longrightarrow> lits (fst u) \<le> lits xs)" by blast
      then show ?thesis using None wild Some by (cases "s = ''/''") simp_all
    qed
  next
    case (Some r)
    obtain p ms' where r: "r = (p, ms')" by (cases r)
    then obtain xs where xs: "ms' = ms" "(Lit s # xs, p) \<in> set ts" "hits xs ss"
        "\<forall>t \<in> set (below s ts). hits (fst t) ss \<longrightarrow> lits (fst t) \<le> lits xs"
      using Cons.IH [OF wf] Some wild by (cases "s = []") (auto simp: below_iff)
    have "lits (fst t) \<le> lits (Lit s # xs)" if "t \<in> set ts" "hits (fst t) (s # ss)" for t
      using that xs(4) below_iff [of _ "snd t" s ts] by (cases t rule: prod.exhaust) (fastforce simp: hits_Cons)
    moreover have "hits (Lit s # xs) (s # ss)" using xs by simp
    ultimately have "\<exists>xs. (xs, p) \<in> set ts \<and> hits xs (s # ss) \<and>
        (\<forall>t \<in> set ts. hits (fst t) (s # ss) \<longrightarrow> lits (fst t) \<le> lits xs)" using xs(2) by blast
    then show ?thesis using Some r xs by simp
  qed
qed

lemma matchMethod_from: "matchMethod mux meth path = Some (p, ms) \<Longrightarrow> p \<in> set mux"
proof -
  assume "matchMethod mux meth path = Some (p, ms)"
  then obtain m where "matchSegs (tree m mux) (pathSegs path) [] = Some (p, ms)"
    by (auto simp: matchMethod_def Let_def split: option.splits if_splits)
  then show ?thesis using matchSegs_from [of "tree m mux" "pathSegs path" "[]" "(p, ms)"] by (auto simp: tree_def)
qed

lemma matchMethod_Nil [simp]: "matchMethod [] meth path = None"
  by (simp add: matchMethod_def tree_def Let_def)

text \<open>The pattern that is found stands under the host of the request or under none.\<close>

lemma matchHost_from:
  "matchHost mux host meth path = Some (p, ms) \<Longrightarrow> p \<in> set mux \<and> (pat_host p = host \<or> pat_host p = [])"
  by (auto simp: matchHost_def at_host_def split: option.splits if_splits dest!: matchMethod_from)

definition matchedHost :: "request \<Rightarrow> string" where
  "matchedHost r = (if Method r = ''CONNECT'' then req_Host r else stripHostPort (req_Host r))"

definition matchedPath :: "request \<Rightarrow> string" where
  "matchedPath r = (if Method r = ''CONNECT'' then EscapedPath r else cleanPath (EscapedPath r))"

lemma cleanPath_hd: "hd (cleanPath p) = CHR ''/'' \<and> cleanPath p \<noteq> []"
  by (simp add: cleanPath_def Let_def)

text \<open>Every request but a \<^verbatim>\<open>CONNECT\<close> has a rooted path when it is matched.\<close>

definition rooted :: "request \<Rightarrow> bool" where
  "rooted r \<longleftrightarrow> (Method r = ''CONNECT'' \<longrightarrow> HasPrefix (EscapedPath r) ''/'')"

lemma rooted_path: "rooted r \<Longrightarrow> matchedPath r \<noteq> [] \<and> hd (matchedPath r) = CHR ''/''"
  using cleanPath_hd [of "EscapedPath r"] by (auto simp: rooted_def matchedPath_def HasPrefix_iff)

lemma found_host:
  assumes "findHandler mux r = Found x ms"
  shows "\<exists>p \<in> set mux. pat_route p = x \<and> (pat_host p = matchedHost r \<or> pat_host p = [])"
  using assms by (auto simp: matchedHost_def findHandler_def Let_def split: if_splits option.splits list.splits dest!: matchHost_from)

lemma matchHost_hostless: "hostless mux \<Longrightarrow> matchHost mux host meth path = matchMethod mux meth path"
  by (simp add: matchHost_def at_host_hostless)

lemma matchingMethods_hostless: "hostless mux \<Longrightarrow> matchingMethods mux host path = matchingMethods mux [] path"
  by (simp add: matchingMethods_def at_host_hostless methodsOrSlash_def methodsAt_def)

text \<open>Without hosts in the patterns the host of the request does not matter.\<close>

lemma findHandler_hostless:
  assumes "hostless mux"
  shows "findHandler mux r =
    (let path = matchedPath r;
         n = matchMethod mux (Method r) path
     in if \<not> exactMatch n path \<and> \<not> HasSuffix path ''/'' \<and>
           exactMatch (matchMethod mux (Method r) (path @ ''/'')) (path @ ''/'')
        then Redirect (cleanPath (URL_Path r) @ ''/'')
        else if path \<noteq> EscapedPath r then Redirect path
        else (case n of
                Some (p, ms) \<Rightarrow> Found (pat_route p) ms
              | None \<Rightarrow> (case matchingMethods mux [] path of
                           [] \<Rightarrow> Missing
                         | ms \<Rightarrow> NotAllowed ms)))"
  by (simp only: findHandler_def matchedPath_def Let_def slashRedirect_def matchHost_hostless [OF assms]
      matchingMethods_hostless [OF assms, where host = "if _ then _ else _"] if_distrib [where f = "matchMethod mux"])

section \<open>Literal patterns\<close>

fun lit_path :: "segment list \<Rightarrow> bool" where
  "lit_path [] = True"
| "lit_path (Lit a # xs) = (a \<noteq> [] \<and> lit_path xs)"
| "lit_path (Wild _ # _) = False"
| "lit_path (Multi # xs) = (xs = [])"

lemma lit_path_wild_free: "lit_path xs \<Longrightarrow> wild_free xs"
  by (induction xs rule: lit_path.induct) auto

lemma overlap_covers: "overlap xs ys \<Longrightarrow> lit_path xs \<Longrightarrow> lit_path ys \<Longrightarrow> covers xs ys \<or> covers ys xs"
  by (induction xs ys rule: overlap.induct) auto

lemma covers_antisym: "covers xs ys \<Longrightarrow> covers ys xs \<Longrightarrow> lit_path xs \<Longrightarrow> lit_path ys \<Longrightarrow> xs = ys"
  by (induction xs ys rule: covers.induct) (auto elim: covers.elims)

lemma covers_refl: "lit_path xs \<Longrightarrow> covers xs xs \<and> overlap xs xs"
  by (induction xs rule: lit_path.induct) auto

text \<open>Of patterns without wildcards and with the same method only equal ones conflict.\<close>

lemma conflicts_literal:
  assumes "lit_path (pat_segments p)" "lit_path (pat_segments q)" "pat_method p = pat_method q" "pat_host p = pat_host q"
  shows "conflicts p q \<longleftrightarrow> pat_segments p = pat_segments q"
  using assms overlap_covers [of "pat_segments p" "pat_segments q"]
    covers_antisym [of "pat_segments p" "pat_segments q"] covers_refl [of "pat_segments p"]
  by (auto simp: conflicts_def covers_pattern_def method_covers_def)

lemma unescape_plain: "CHR ''%'' \<notin> set s \<Longrightarrow> unescape s = Some s"
  by (induction s) auto

definition plain_path :: "string \<Rightarrow> bool" where
  "plain_path s \<longleftrightarrow> s \<noteq> [] \<and> hd s = CHR ''/'' \<and> CHR 0x7B \<notin> set s \<and> CHR ''%'' \<notin> set s \<and>
     CHR '' '' \<notin> set s \<and> CHR 0x09 \<notin> set s \<and> [] \<notin> set (butlast (Split (tl s) CHR ''/''))"

lemma Split_subset: "p \<in> set (Split s c) \<Longrightarrow> set p \<subseteq> set s"
proof (induction s arbitrary: p)
  case (Cons x s)
  then show ?case by (cases "Split s c") (fastforce split: if_splits)+
qed simp

lemma literalSegment_plain: "CHR 0x7B \<notin> set s \<Longrightarrow> CHR ''%'' \<notin> set s \<Longrightarrow> literalSegment s = Lit s"
  using unescape_plain [of s] by (simp add: literalSegment_def pathUnescape_def)

lemma lit_path_literals: "[] \<notin> set ls \<Longrightarrow> lit_path (map Lit ls @ xs) = lit_path xs"
  by (induction ls) auto

text \<open>The segments of a plain pattern.\<close>

definition root_literals :: "string \<Rightarrow> string list" where
  "root_literals s = (let xs = Split (tl s) CHR ''/'' in if last xs = [] then butlast xs else xs)"

lemma Split_snoc: "Split (s @ [c]) c = Split s c @ [[]]"
  by (induction s) (auto split: list.splits)

lemma Split_snoc_other: "x \<noteq> c \<Longrightarrow> Split (s @ [x]) c = butlast (Split s c) @ [last (Split s c) @ [x]]"
  by (induction s) (auto split: list.splits)

lemma last_Split: "last (Split s c) = [] \<longleftrightarrow> s = [] \<or> last s = c"
proof (cases s rule: rev_cases)
  case (snoc t x)
  then show ?thesis by (cases "x = c") (auto simp: Split_snoc Split_snoc_other)
qed simp

lemma length_Split: "length (Split s c) = Suc (length (filter (\<lambda>x. x = c) s))"
  by (induction s) (auto split: list.splits)

lemma HasSuffix_byte: "HasSuffix s [c] \<longleftrightarrow> s \<noteq> [] \<and> last s = c"
  by (cases s rule: rev_cases) (auto simp: HasSuffix_iff)

lemma plain_pattern:
  assumes "plain_path s"
  shows "pathPattern s = map Lit (root_literals s) @ (if HasSuffix s ''/'' then [Multi] else [])"
proof -
  let ?xs = "Split (tl s) CHR ''/''"
  have lit: "literalSegment x = Lit x" if "x \<in> set ?xs" for x
    using that assms Split_subset [of x "tl s" "CHR ''/''"] list.set_sel(2) [of s]
    by (intro literalSegment_plain) (auto simp: plain_path_def)
  have split: "?xs = butlast ?xs @ [last ?xs]" by simp
  have "last ?xs = [] \<longleftrightarrow> HasSuffix s ''/''"
  proof -
    obtain t where s: "s = CHR ''/'' # t" using assms by (cases s) (auto simp: plain_path_def)
    then show ?thesis by (simp add: last_Split HasSuffix_byte)
  qed
  moreover have "map literalSegment (butlast ?xs) = map Lit (butlast ?xs)"
    using lit by (auto dest: in_set_butlastD)
  moreover have "map Lit (butlast ?xs) @ [Lit (last ?xs)] = map Lit ?xs"
    using arg_cong [OF split, of "map Lit"] by (simp only: map_append list.map)
  moreover have "literalSegment (last ?xs) = Lit (last ?xs)" by (intro lit) simp
  ultimately show ?thesis
    by (simp add: pathPattern_def root_literals_def Let_def del: map_eq_conv)
qed

lemma plain_literals: "plain_path s \<Longrightarrow> [] \<notin> set (root_literals s)"
proof -
  let ?xs = "Split (tl s) CHR ''/''"
  assume "plain_path s"
  moreover have "set ?xs = insert (last ?xs) (set (butlast ?xs))"
    using append_butlast_last_id [of ?xs] by (metis Split_not_Nil Un_insert_right append_Nil2 list.set(2) set_append empty_set)
  ultimately show ?thesis by (auto simp: plain_path_def root_literals_def Let_def)
qed

lemma hits_unique:
  "hits xs ss \<Longrightarrow> hits ys ss \<Longrightarrow> lits xs = lits ys \<Longrightarrow> lit_path xs \<Longrightarrow> lit_path ys \<Longrightarrow> xs = ys"
proof (induction xs arbitrary: ys ss rule: lit_path.induct)
  case 1
  then show ?case by (simp add: hits_Nil)
next
  case (2 a xs)
  then show ?case by (cases ys rule: lit_path.cases) auto
next
  case (4 xs)
  then show ?case by (cases ys rule: lit_path.cases) auto
qed simp

lemma lits_literals [simp]: "lits (map Lit ls @ xs) = length ls + lits xs" "lits (map Lit ls) = length ls"
  by (induction ls) auto

lemma hits_subtree: "hits (map Lit ls @ [Multi]) ss \<longleftrightarrow> (\<exists>rest. rest \<noteq> [] \<and> ss = ls @ rest)"
proof (induction ls arbitrary: ss)
  case (Cons a ls)
  then show ?case by (cases ss) auto
qed simp

lemma hits_literal: "hits (map Lit ls) ss \<longleftrightarrow> ss = ls"
proof (induction ls arbitrary: ss)
  case (Cons a ls)
  then show ?case by (cases ss) auto
qed simp

text \<open>One pattern, and two patterns, without wildcards.\<close>

lemma matchSegs_one:
  assumes "lit_path xs"
  shows "matchSegs [(xs, p)] ss ms = (if hits xs ss then Some (p, ms) else None)"
  using matchSegs_longest [of "[(xs, p)]" ss ms] lit_path_wild_free [OF assms]
  by (auto split: option.splits)

lemma matchSegs_two:
  assumes "lit_path xs" "lit_path ys" "xs \<noteq> ys"
  shows "matchSegs [(xs, p), (ys, q)] ss ms =
    (if hits ys ss \<and> (hits xs ss \<longrightarrow> lits xs < lits ys) then Some (q, ms)
     else if hits xs ss then Some (p, ms) else None)"
  using matchSegs_longest [of "[(xs, p), (ys, q)]" ss ms] lit_path_wild_free assms
    hits_unique [of xs ss ys]
  by (auto split: option.splits)

lemma map_butlast_last: "xs \<noteq> [] \<Longrightarrow> map f (butlast xs) @ [f (last xs)] = map f xs"
  by (cases xs rule: rev_cases) auto

lemma pathSegs_slash:
  assumes "hd path = CHR ''/''" "path \<noteq> []" "last path \<noteq> CHR ''/''"
  shows "pathSegs (path @ ''/'') = pathSegs path @ [''/'']"
proof -
  obtain cs where cs: "path = CHR ''/'' # cs" "cs \<noteq> []" "last cs \<noteq> CHR ''/''"
    using assms by (cases path) (auto split: if_splits)
  then show ?thesis by (simp add: pathSegs_def Split_snoc last_Split map_butlast_last)
qed

lemma length_pathSegs:
  "path \<noteq> [] \<Longrightarrow> hd path = CHR ''/'' \<Longrightarrow> length (pathSegs path) = length (filter (\<lambda>c. c = CHR ''/'') path)"
  by (cases path) (auto simp: pathSegs_def length_Split Let_def)

declare matchSegs.simps [simp del]

end
