(* ===== verification/Gateway_Server.thy ===== *)
theory Gateway_Server
  imports Go_Mux Gateway_Proxy Gateway_Middleware Gateway_Dashboard
begin

text \<open>
  The gateway as \<^verbatim>\<open>run\<close> of \<^verbatim>\<open>cmd/gateway/main.go\<close> puts it together: the multiplexer with the health
  endpoint, the dashboard (\<^verbatim>\<open>Handler\<close> of \<^verbatim>\<open>internal/gateway/dashboard.go\<close>) and the proxy, behind the
  middleware chain. What the gateway takes from libraries is the record \<open>gw_libs\<close>; what the outside
  does while a request is served is the record \<open>gw_env\<close>. The state behind the middleware holds the
  breakers of the proxy and the log of all upstream attempts.
\<close>

section \<open>Environment and state\<close>

record gw_libs =
  lib_tables :: unicode_tables
  lib_mac :: mac
  lib_unmarshal :: "string \<Rightarrow> claims option"
  lib_marshal :: "(string, claim_value) gomap \<Rightarrow> string"
  lib_proxy :: proxy_api
  lib_redirect :: "string \<Rightarrow> request \<Rightarrow> writer \<Rightarrow> writer"
  lib_encode :: "serviceCatalogItem list \<Rightarrow> string"
  lib_RFC3339 :: "time \<Rightarrow> string"
  lib_compact :: "time \<Rightarrow> string"

record gw_env =
  ge_times :: request_times
  ge_attempts :: "nat \<Rightarrow> attempt_env"
  ge_dash :: dash_env
  ge_services :: "error + string list"
  ge_instances :: "string \<Rightarrow> error + Instance list"
  ge_now :: time

record gw_back =
  gb_breakers :: breakerMap
  gb_attempts :: "attempt list"

section \<open>The dashboard\<close>

datatype dash_route = PrometheusRoute | TracesRoute | CatalogRoute | SnapshotRoute

definition dashboardRoutes :: "(string \<times> dash_route) list" where
  "dashboardRoutes =
     [(''/api/dashboard/prometheus/'', PrometheusRoute), (''/api/dashboard/traces'', TracesRoute),
      (''/api/dashboard/traces/'', TracesRoute), (''/api/dashboard/services'', CatalogRoute),
      (''/api/dashboard/health'', SnapshotRoute)]"

text \<open>The patterns never conflict, so the registration does not panic.\<close>

definition dashboardMux :: "dash_route pattern list" where
  "dashboardMux = (case NewMux dashboardRoutes [] of Some mux \<Rightarrow> mux | None \<Rightarrow> [])"

definition dashboardServe ::
  "gw_libs \<Rightarrow> gw_env \<Rightarrow> DashboardConfig \<Rightarrow> dash_route \<Rightarrow> request \<Rightarrow> writer \<Rightarrow> writer" where
  "dashboardServe L env cfg rt r w =
     (let token = signServiceToken (lib_mac L) (lib_marshal L) (lib_compact L) (ge_now env) (ServiceAuthSecret cfg);
          denv = (ge_dash env)\<lparr>de_token := token\<rparr>
      in case rt of
           PrometheusRoute \<Rightarrow> dashProxy cfg denv (PrometheusBaseURL cfg) (prometheusPath (URL_Path r)) r w
         | TracesRoute \<Rightarrow> dashProxy cfg denv (TracingBaseURL cfg) (tracesPath (URL_Path r)) r w
         | CatalogRoute \<Rightarrow>
             handleServices (lib_encode L) (lib_RFC3339 L) (ge_now env) (ge_services env) (ge_instances env) w
         | SnapshotRoute \<Rightarrow> dashProxy cfg denv (HealthMonitorBaseURL cfg) ''/api/status'' r w)"

definition dashboardHandler :: "gw_libs \<Rightarrow> gw_env \<Rightarrow> DashboardConfig \<Rightarrow> request \<Rightarrow> writer \<Rightarrow> writer" where
  "dashboardHandler L env cfg r w =
     fst (ServeMux (lib_redirect L) (\<lambda>rt _ r w s. (dashboardServe L env cfg rt r w, s)) dashboardMux r w ())"

section \<open>The multiplexer\<close>

datatype gw_route = HealthRoute | DashboardRoute | ProxyRoute

definition gatewayRoutes :: "string \<Rightarrow> (string \<times> gw_route) list" where
  "gatewayRoutes prefix =
     [(''GET /health'', HealthRoute), (''/api/dashboard/'', DashboardRoute), (prefix, ProxyRoute)]"

text \<open>\<^verbatim>\<open>json.NewEncoder(w).Encode(map[string]string{"status": "Healthy"})\<close>\<close>

definition healthAnswer :: "writer \<Rightarrow> writer" where
  "healthAnswer w =
     Write (CHR 0x7B # CHR 0x22 # ''status'' @ CHR 0x22 # CHR '':'' # CHR 0x22 # ''Healthy'' @
              [CHR 0x22, CHR 0x7D, CHR 0x0A])
       (on_header (Header_Set ''Content-Type'' ''application/json'') w)"

definition NewProxy :: "RouteTable \<Rightarrow> ResilienceConfig \<Rightarrow> Proxy \<times> breakerMap" where
  "NewProxy rt res =
     (\<lparr>resilience = res, p_prefix = RoutePrefix (rt_config rt)\<rparr>,
      newBreakerMap (BreakerFailureThreshold res) (BreakerBreakDuration res))"

definition gatewayServe ::
  "gw_libs \<Rightarrow> gw_env \<Rightarrow> gw_Config \<Rightarrow> gw_route \<Rightarrow> string list \<Rightarrow> gw_back handler" where
  "gatewayServe L env cfg rt ms r w s =
     (case rt of
        HealthRoute \<Rightarrow> (healthAnswer w, s)
      | DashboardRoute \<Rightarrow> (dashboardHandler L env (Dashboard cfg) r w, s)
      | ProxyRoute \<Rightarrow>
          (let (w', bm, lg) = Proxy_ServeHTTP (lib_tables L) (lib_proxy L) (ge_attempts env)
                 (fst (NewProxy (NewRouteTable (Routing cfg)) (Resilience cfg))) r w (gb_breakers (gs_next s))
           in (w', s\<lparr>gs_next := \<lparr>gb_breakers = bm, gb_attempts = gb_attempts (gs_next s) @ lg\<rparr>\<rparr>)))"

definition gateway ::
  "gw_libs \<Rightarrow> gw_Config \<Rightarrow> gw_route pattern list \<Rightarrow> gw_env \<Rightarrow> gw_back handler" where
  "gateway L cfg mux env =
     gatewayChain (lib_tables L) (lib_mac L) (lib_unmarshal L) (ge_times env) cfg
       (ServeMux (lib_redirect L) (gatewayServe L env cfg) mux)"

definition newGateway :: "gw_Config \<Rightarrow> gw_back gw_state" where
  "newGateway cfg =
     newGatewayState cfg
       \<lparr>gb_breakers = snd (NewProxy (NewRouteTable (Routing cfg)) (Resilience cfg)), gb_attempts = []\<rparr>"

text \<open>The gateway over time: requests, in the order in which they pass the rate limiter, and the
  rounds of the limiter's eviction loop.\<close>

datatype gw_event = Serve gw_env request | EvictBuckets time

definition gatewayStep ::
  "gw_libs \<Rightarrow> gw_Config \<Rightarrow> gw_route pattern list \<Rightarrow> gw_event \<Rightarrow> gw_back gw_state \<Rightarrow> gw_back gw_state" where
  "gatewayStep L cfg mux e s =
     (case e of
        Serve env r \<Rightarrow> snd (gateway L cfg mux env r new_writer s)
      | EvictBuckets t \<Rightarrow> s\<lparr>gs_limiter := evict_round t (gs_limiter s)\<rparr>)"

section \<open>Dispatch\<close>

definition dashSegs :: "segment list" where
  "dashSegs = [Lit ''api'', Lit ''dashboard'', Multi]"

definition healthPattern :: "gw_route pattern" where
  "healthPattern = \<lparr>pat_host = [], pat_method = ''GET'', pat_segments = [Lit ''health''], pat_route = HealthRoute\<rparr>"

definition dashboardPattern :: "gw_route pattern" where
  "dashboardPattern = \<lparr>pat_host = [], pat_method = [], pat_segments = dashSegs, pat_route = DashboardRoute\<rparr>"

definition proxyPattern :: "segment list \<Rightarrow> gw_route pattern" where
  "proxyPattern pre = \<lparr>pat_host = [], pat_method = [], pat_segments = pre, pat_route = ProxyRoute\<rparr>"

definition gatewayPatterns :: "segment list \<Rightarrow> gw_route pattern list" where
  "gatewayPatterns pre = [healthPattern, dashboardPattern, proxyPattern pre]"

lemmas gateway_patterns = healthPattern_def dashboardPattern_def proxyPattern_def gatewayPatterns_def

lemma lit_path_plain: "plain_path p \<Longrightarrow> lit_path (pathPattern p)"
  using plain_literals [of p] lit_path_literals [of "root_literals p" "[]"] by (simp add: plain_pattern lit_path_literals)

lemma valid_plain: "plain_path p \<Longrightarrow> validPath p"
proof -
  assume plain: "plain_path p"
  have no: "CHR 0x7B \<notin> set x" if "x \<in> set (Split (tl p) CHR ''/'')" for x
    using that plain Split_subset [of x "tl p" "CHR ''/''"] list.set_sel(2) [of p] by (auto simp: plain_path_def)
  then have "validSegment b x" if "x \<in> set (Split (tl p) CHR ''/'')" for b x
    using that by (simp add: validSegment_def)
  moreover have "filter (\<lambda>x. CHR 0x7B \<in> set x) (Split (tl p) CHR ''/'') = []"
    using no by (simp add: filter_empty_conv)
  ultimately show ?thesis by (auto simp: validPath_def Let_def list_all_iff dest: in_set_butlastD)
qed

text \<open>A host that may stand before the path of a pattern.\<close>

definition plain_host :: "string \<Rightarrow> bool" where
  "plain_host h \<longleftrightarrow> list_all (\<lambda>c. c \<notin> {CHR ''/'', CHR '' '', CHR 0x09, CHR 0x7B}) h"

lemma split_host: "plain_host h \<Longrightarrow> plain_path p \<Longrightarrow> splitPattern (h @ p) = ([], h, p)"
proof -
  assume plain: "plain_host h" "plain_path p"
  then have "takeWhile (\<lambda>c. c \<noteq> CHR '' '' \<and> c \<noteq> CHR 0x09) (h @ p) = h @ p"
    by (intro takeWhile_eq_all_conv [THEN iffD2]) (auto simp: plain_path_def plain_host_def list_all_iff)
  moreover have "takeWhile (\<lambda>c. c \<noteq> CHR ''/'') (h @ p) = h" "dropWhile (\<lambda>c. c \<noteq> CHR ''/'') (h @ p) = p"
  proof -
    obtain q where "p = CHR ''/'' # q" using plain by (cases p) (auto simp: plain_path_def)
    moreover have "\<And>c. c \<in> set h \<Longrightarrow> c \<noteq> CHR ''/''" using plain by (auto simp: plain_host_def list_all_iff)
    ultimately show "takeWhile (\<lambda>c. c \<noteq> CHR ''/'') (h @ p) = h" "dropWhile (\<lambda>c. c \<noteq> CHR ''/'') (h @ p) = p"
      by (simp_all add: takeWhile_append2 dropWhile_append2)
  qed
  ultimately show ?thesis
    by (simp add: splitPattern_def Let_def del: takeWhile_eq_all_conv dropWhile_eq_Nil_conv)
qed

lemma valid_host: "plain_host h \<Longrightarrow> plain_path p \<Longrightarrow> validPattern (h @ p)"
proof -
  assume plain: "plain_host h" "plain_path p"
  then have "CHR 0x7B \<notin> set h" "p \<noteq> []" by (auto simp: plain_host_def list_all_iff plain_path_def)
  then show ?thesis using valid_plain [OF plain(2)] by (simp add: validPattern_def split_host [OF plain])
qed

lemma slash_needed: "CHR ''/'' \<notin> set q \<Longrightarrow> \<not> validPattern q"
proof -
  assume no: "CHR ''/'' \<notin> set q"
  obtain m h path where split: "splitPattern q = (m, h, path)" by (metis prod_cases3)
  then have "path = []" using no
    by (auto simp: splitPattern_def Let_def split: if_splits dest!: set_dropWhileD in_set_dropD)
  then show ?thesis by (simp add: validPattern_def split)
qed

lemma parse_host:
  "plain_host h \<Longrightarrow> plain_path p \<Longrightarrow>
   parsePattern (h @ p) x = \<lparr>pat_host = h, pat_method = [], pat_segments = pathPattern p, pat_route = x\<rparr>"
  by (simp add: parsePattern_def split_host)

lemmas parse_plain = parse_host [of "[]", unfolded plain_host_def, simplified]
lemmas valid_plain_pattern = valid_host [of "[]", unfolded plain_host_def, simplified]

lemma parse_constants:
  "parsePattern ''GET /health'' x = \<lparr>pat_host = [], pat_method = ''GET'', pat_segments = [Lit ''health''], pat_route = x\<rparr>"
  "parsePattern ''/api/dashboard/'' x = \<lparr>pat_host = [], pat_method = [], pat_segments = dashSegs, pat_route = x\<rparr>"
  by (simp_all add: parsePattern_def splitPattern_def pathPattern_def literalSegment_def pathUnescape_def dashSegs_def)

lemma gateway_registers:
  "NewMux (gatewayRoutes p) [] = Handle p ProxyRoute [healthPattern, dashboardPattern]"
proof -
  have "\<not> conflicts dashboardPattern healthPattern"
    by (simp add: conflicts_def gateway_patterns dashSegs_def)
  moreover have "validPattern ''GET /health''" "validPattern ''/api/dashboard/''" by code_simp+
  ultimately show ?thesis
    by (simp add: gatewayRoutes_def gateway_patterns Handle_def [of "''GET /health''"]
        Handle_def [of "''/api/dashboard/''"] parse_constants split: option.splits)
qed

lemma gateway_mux:
  assumes "plain_path p"
  shows "NewMux (gatewayRoutes p) [] =
    (if pathPattern p = dashSegs then None else Some (gatewayPatterns (pathPattern p)))"
proof -
  let ?P = "proxyPattern (pathPattern p)"
  have lit: "lit_path (pathPattern p)" using assms by (rule lit_path_plain)
  have valid: "validPattern p" using assms by (rule valid_plain_pattern)
  have dash: "conflicts ?P dashboardPattern \<longleftrightarrow> pathPattern p = dashSegs"
    using conflicts_literal [of ?P dashboardPattern] lit by (simp add: gateway_patterns dashSegs_def)
  have health: "\<not> conflicts ?P healthPattern"
    using overlap_covers [OF _ lit, of "[Lit ''health'']"]
      covers_antisym [of "pathPattern p" "[Lit ''health'']"] lit
    by (cases "pathPattern p = [Lit ''health'']")
      (auto simp: conflicts_def covers_pattern_def method_covers_def gateway_patterns elim: covers.elims)
  have "parsePattern p ProxyRoute = ?P" using parse_plain [OF assms] by (simp add: proxyPattern_def)
  then show ?thesis using valid dash health
    by (simp add: gateway_registers Handle_def gatewayPatterns_def)
qed

definition routeMatch :: "segment list \<Rightarrow> string \<Rightarrow> string list \<Rightarrow> gw_route pattern option" where
  "routeMatch pre meth segs =
     (if segs = [''health''] \<and> meth \<in> {''GET'', ''HEAD''} then Some healthPattern
      else if hits pre segs \<and> (hits dashSegs segs \<longrightarrow> 2 < lits pre) then Some (proxyPattern pre)
      else if hits dashSegs segs then Some dashboardPattern else None)"

lemma gateway_trees:
  "tree ''GET'' (gatewayPatterns pre) = [([Lit ''health''], healthPattern)]"
  "tree [] (gatewayPatterns pre) = [(dashSegs, dashboardPattern), (pre, proxyPattern pre)]"
  "m \<noteq> ''GET'' \<Longrightarrow> m \<noteq> [] \<Longrightarrow> tree m (gatewayPatterns pre) = []"
  by (simp_all add: tree_def gateway_patterns)

lemma gateway_match:
  assumes "lit_path pre" "pre \<noteq> dashSegs"
  shows "matchMethod (gatewayPatterns pre) meth path = map_option (\<lambda>p. (p, [])) (routeMatch pre meth (pathSegs path))"
proof -
  have "lit_path dashSegs" "lits dashSegs = 2" by (simp_all add: dashSegs_def)
  then have "matchSegs (tree [] (gatewayPatterns pre)) segs [] =
      (if hits pre segs \<and> (hits dashSegs segs \<longrightarrow> 2 < lits pre) then Some (proxyPattern pre, [])
       else if hits dashSegs segs then Some (dashboardPattern, []) else None)" for segs
    unfolding gateway_trees using matchSegs_two [of dashSegs pre dashboardPattern "proxyPattern pre" segs "[]"] assms
    by simp
  moreover have "matchSegs (tree ''GET'' (gatewayPatterns pre)) segs [] =
      (if segs = [''health''] then Some (healthPattern, []) else None)" for segs
    using matchSegs_one [of "[Lit ''health'']" healthPattern segs "[]"] hits_literal [of "[''health'']" segs]
    by (simp add: gateway_trees)
  ultimately show ?thesis
    by (cases "meth = ''GET''"; cases "meth = ''HEAD''"; cases "meth = []")
      (simp_all add: matchMethod_def routeMatch_def gateway_trees(3))
qed

text \<open>The routing table of the gateway: the reference that the multiplexer is compared with.\<close>

definition dispatch :: "segment list \<Rightarrow> string \<Rightarrow> string \<Rightarrow> string \<Rightarrow> gw_route decision" where
  "dispatch pre meth path decoded =
     (let segs = pathSegs path in
      if segs = [''health''] \<and> meth \<in> {''GET'', ''HEAD''} then Found HealthRoute []
      else if pre = map Lit segs then Found ProxyRoute []
      else if \<not> HasSuffix path ''/'' \<and> map Lit segs @ [Multi] \<in> {pre, dashSegs}
        then Redirect (cleanPath decoded @ ''/'')
      else if hits pre segs \<and> (hits dashSegs segs \<longrightarrow> 2 < lits pre) then Found ProxyRoute []
      else if hits dashSegs segs then Found DashboardRoute []
      else if segs = [''health''] then NotAllowed [''GET'', ''HEAD'']
      else Missing)"

lemma hits_dashSegs: "hits dashSegs segs \<longleftrightarrow> (\<exists>rest. rest \<noteq> [] \<and> segs = ''api'' # ''dashboard'' # rest)"
  using hits_subtree [of "[''api'', ''dashboard'']" segs] by (simp add: dashSegs_def)

lemma map_Lit_eq [simp]: "map Lit xs = map Lit ys \<longleftrightarrow> xs = ys"
  by (rule inj_map_eq_map) (simp add: inj_on_def)

lemma map_Lit_Multi [simp]: "map Lit xs \<noteq> map Lit ys @ [Multi]" "map Lit ys @ [Multi] \<noteq> map Lit xs"
  by (metis (no_types, lifting) imageE in_set_conv_decomp list.set_map segment.distinct(3))+

text \<open>The prefix is either a subtree or a single path.\<close>

definition prefix_form :: "segment list \<Rightarrow> string list \<Rightarrow> bool \<Rightarrow> bool" where
  "prefix_form pre ls sub \<longleftrightarrow>
     pre = map Lit ls @ (if sub then [Multi] else []) \<and> ''/'' \<notin> set ls \<and> (sub \<or> ls \<noteq> []) \<and> pre \<noteq> dashSegs"

lemma hits_prefix:
  "prefix_form pre ls sub \<Longrightarrow>
   hits pre segs \<longleftrightarrow> (if sub then \<exists>rest. rest \<noteq> [] \<and> segs = ls @ rest else segs = ls)"
  by (auto simp: prefix_form_def hits_subtree hits_literal)

lemma lits_prefix: "prefix_form pre ls sub \<Longrightarrow> lits pre = length ls"
  by (auto simp: prefix_form_def)

lemma exact_patterns:
  "exactMatch (Some (healthPattern, ms)) path"
  "exactMatch (Some (dashboardPattern, ms)) path \<longleftrightarrow>
     (path = [] \<or> last path = CHR ''/'') \<and> length (filter (\<lambda>c. c = CHR ''/'') path) = 3"
  "prefix_form pre ls sub \<Longrightarrow> exactMatch (Some (proxyPattern pre, ms)) path \<longleftrightarrow>
     (if sub then (path = [] \<or> last path = CHR ''/'') \<and> length (filter (\<lambda>c. c = CHR ''/'') path) = Suc (length ls)
      else True)"
  by (auto simp: exactMatch_def gateway_patterns dashSegs_def prefix_form_def last_map)

lemma routeMatch_exact:
  assumes "prefix_form pre ls sub" "path \<noteq> []" "last path \<noteq> CHR ''/''"
  shows "exactMatch (map_option (\<lambda>p. (p, [])) (routeMatch pre meth segs)) path \<longleftrightarrow>
      (segs = [''health''] \<and> meth \<in> {''GET'', ''HEAD''}) \<or> pre = map Lit segs"
proof -
  have pre: "pre = map Lit segs \<longleftrightarrow> \<not> sub \<and> segs = ls" using assms(1) by (auto simp: prefix_form_def)
  have "exactMatch None path = False" by (simp add: exactMatch_def)
  then show ?thesis unfolding pre using assms
    by (auto simp: routeMatch_def exact_patterns hits_prefix lits_prefix hits_dashSegs)
qed

lemma routeMatch_slash:
  assumes "prefix_form pre ls sub" "path \<noteq> []" "hd path = CHR ''/''" "segs = pathSegs path"
  shows "exactMatch (map_option (\<lambda>p. (p, [])) (routeMatch pre meth (segs @ [''/'']))) (path @ ''/'') \<longleftrightarrow>
      map Lit segs @ [Multi] \<in> {pre, dashSegs}"
proof -
  have n: "length (filter (\<lambda>c. c = CHR ''/'') (path @ ''/'')) = Suc (length segs)"
    using length_pathSegs [of path] assms by simp
  have pre: "map Lit segs @ [Multi] = pre \<longleftrightarrow> sub \<and> segs = ls"
    using assms(1) by (auto simp: prefix_form_def)
  have dash: "map Lit segs @ [Multi] = dashSegs \<longleftrightarrow> segs = [''api'', ''dashboard'']"
    using map_Lit_eq [of segs "[''api'', ''dashboard'']"] by (simp add: dashSegs_def del: map_Lit_eq)
  have no: "segs @ [''/''] \<noteq> ls" using assms(1) by (auto simp: prefix_form_def)
  have nd: "\<not> (sub \<and> ls = [''api'', ''dashboard''])" using assms(1) by (auto simp: prefix_form_def dashSegs_def)
  have none: "exactMatch None (path @ ''/'') = False" by (simp add: exactMatch_def)
  have snoc: "(\<exists>rest. rest \<noteq> [] \<and> segs @ [''/''] = xs @ rest) \<longleftrightarrow> (\<exists>t. segs = xs @ t)" for xs
    by (metis append_assoc append_Nil2 butlast_append butlast_snoc not_Cons_self2 append_is_Nil_conv)
  have hP: "hits pre (segs @ [''/'']) \<longleftrightarrow> sub \<and> (\<exists>t. segs = ls @ t)"
    using hits_prefix [OF assms(1), of "segs @ [''/'']"] no snoc [of ls] by auto
  have hD: "hits dashSegs (segs @ [''/'']) \<longleftrightarrow> (\<exists>t. segs = ''api'' # ''dashboard'' # t)"
    using snoc [of "[''api'', ''dashboard'']"] hits_dashSegs [of "segs @ [''/'']"] by simp
  have eP: "exactMatch (Some (proxyPattern pre, [])) (path @ ''/'') \<longleftrightarrow> (sub \<longrightarrow> length segs = length ls)"
    using exact_patterns(3) [OF assms(1), of "[]" "path @ ''/''"] n by simp
  have eD: "exactMatch (Some (dashboardPattern, [])) (path @ ''/'') \<longleftrightarrow> length segs = 2"
    using exact_patterns(2) [of "[]" "path @ ''/''"] n by auto
  have "segs @ [''/''] \<noteq> [''health'']" by (cases segs) auto
  then have rm: "routeMatch pre meth (segs @ [''/'']) =
      (if hits pre (segs @ [''/'']) \<and> (hits dashSegs (segs @ [''/'']) \<longrightarrow> 2 < length ls) then Some (proxyPattern pre)
       else if hits dashSegs (segs @ [''/'']) then Some dashboardPattern else None)"
    using lits_prefix [OF assms(1)] by (simp add: routeMatch_def)
  have two: "2 < length ls \<or> ls = [''api'', ''dashboard'']"
    if "ls = segs" "segs = ''api'' # ''dashboard'' # t" for t
    using that by (cases t) auto
  have short: "\<not> 2 < length ls" if "[''api'', ''dashboard''] = ls @ t" for t
    using arg_cong [OF that, of length] by simp
  have eD': "exactMatch (Some (dashboardPattern, [])) (path @ ''/'') \<longleftrightarrow> t = []"
    if "segs = ''api'' # ''dashboard'' # t" for t
    using eD that by simp
  show ?thesis unfolding rm insert_iff pre dash empty_iff hP hD
    using eP eD' none nd two short by (auto split: if_splits)
qed

lemma prefix_form_plain:
  assumes "plain_path p" "pathPattern p \<noteq> dashSegs"
  shows "prefix_form (pathPattern p) (root_literals p) (HasSuffix p ''/'')"
proof -
  let ?xs = "Split (tl p) CHR ''/''"
  have "x \<noteq> ''/''" if "x \<in> set ?xs" for x using Split_parts [OF that] by auto
  then have "''/'' \<notin> set (root_literals p)"
    by (auto simp: root_literals_def Let_def dest: in_set_butlastD)
  moreover have "HasSuffix p ''/'' \<or> root_literals p \<noteq> []"
    using assms(1) by (cases p) (auto simp: root_literals_def plain_path_def last_Split HasSuffix_byte Let_def)
  ultimately show ?thesis
    using assms by (simp add: prefix_form_def plain_pattern)
qed

lemma get_head_sorted: "sort (remdups [''HEAD'', ''GET'']) = [''GET'', ''HEAD'']"
  by (simp add: less_eq_char_def less_char_def)

lemma gateway_hostless: "hostless (gatewayPatterns pre)"
  by (simp add: hostless_def gateway_patterns)

lemma gateway_methods:
  assumes "path \<noteq> []" "hd path = CHR ''/''"
  shows "matchingMethods (gatewayPatterns pre) [] path = (if pathSegs path = [''health''] then [''GET'', ''HEAD''] else [])"
proof -
  have get: "matchSegs (tree ''GET'' (gatewayPatterns pre)) segs [] \<noteq> None \<longleftrightarrow> segs = [''health'']" for segs
    using matchSegs_one [of "[Lit ''health'']" healthPattern segs "[]"] hits_literal [of "[''health'']" segs]
    by (simp add: gateway_trees)
  then have at: "methodsAt (gatewayPatterns pre) q = (if pathSegs q = [''health''] then [''GET''] else [])" for q
    by (simp add: methodsAt_def gatewayPatterns_def [of pre] healthPattern_def dashboardPattern_def proxyPattern_def
        flip: gatewayPatterns_def)
  have "pathSegs (path @ ''/'') \<noteq> [''health'']" if "\<not> HasSuffix path ''/''"
    using pathSegs_slash [of path] assms that by (cases "pathSegs path") (auto simp: HasSuffix_byte)
  then show ?thesis using get_head_sorted by (simp add: matchingMethods_def methodsOrSlash_def at_host_hostless [OF gateway_hostless] at)
qed

lemma dispatch_match:
  "dispatch pre meth path decoded =
     (if \<not> (pathSegs path = [''health''] \<and> meth \<in> {''GET'', ''HEAD''} \<or> pre = map Lit (pathSegs path)) \<and>
         \<not> HasSuffix path ''/'' \<and> map Lit (pathSegs path) @ [Multi] \<in> {pre, dashSegs}
      then Redirect (cleanPath decoded @ ''/'')
      else (case routeMatch pre meth (pathSegs path) of
              Some p \<Rightarrow> Found (pat_route p) []
            | None \<Rightarrow> if pathSegs path = [''health''] then NotAllowed [''GET'', ''HEAD''] else Missing))"
proof -
  let ?segs = "pathSegs path"
  consider (h) "?segs = [''health''] \<and> meth \<in> {''GET'', ''HEAD''}"
    | (l) "\<not> (?segs = [''health''] \<and> meth \<in> {''GET'', ''HEAD''})" "pre = map Lit ?segs"
    | (n) "\<not> (?segs = [''health''] \<and> meth \<in> {''GET'', ''HEAD''})" "pre \<noteq> map Lit ?segs" by blast
  then show ?thesis
  proof cases
    case h
    then show ?thesis unfolding dispatch_def routeMatch_def Let_def by (simp add: gateway_patterns)
  next
    case l
    have "hits pre ?segs" "hits dashSegs ?segs \<longrightarrow> 2 < lits pre"
      using l(2) hits_literal [of ?segs ?segs] by (auto simp: hits_dashSegs neq_Nil_conv)
    then show ?thesis unfolding dispatch_def routeMatch_def Let_def if_not_P [OF l(1)] if_P [OF l(2)]
      using l by (simp add: gateway_patterns)
  next
    case n
    then show ?thesis unfolding dispatch_def routeMatch_def Let_def if_not_P [OF n(1)] if_not_P [OF n(2)]
      by (simp add: gateway_patterns)
  qed
qed

lemma redirect_first:
  "(\<And>t. d \<noteq> Redirect t) \<Longrightarrow>
   (if c then Redirect target else if path \<noteq> e then Redirect path else d) =
   (case (if c then Redirect target else d) of
      Redirect target \<Rightarrow> Redirect target
    | d \<Rightarrow> if path = e then d else Redirect path)"
  by (cases d) auto

lemma gateway_find:
  assumes "plain_path p" and "rooted r" and "path = matchedPath r" and ne: "pathPattern p \<noteq> dashSegs"
  shows "findHandler (gatewayPatterns (pathPattern p)) r =
    (case dispatch (pathPattern p) (Method r) path (URL_Path r) of
       Redirect target \<Rightarrow> Redirect target
     | d \<Rightarrow> if path = EscapedPath r then d else Redirect path)"
proof -
  let ?pre = "pathPattern p" and ?segs = "pathSegs path"
  have form: "prefix_form ?pre (root_literals p) (HasSuffix p ''/'')"
    using assms(1) ne by (rule prefix_form_plain)
  have path: "path \<noteq> []" "hd path = CHR ''/''" using rooted_path [OF assms(2)] assms(3) by auto
  note match = gateway_match [OF lit_path_plain [OF assms(1)] ne]
  have redirect: "\<not> HasSuffix path ''/'' \<Longrightarrow>
      exactMatch (matchMethod (gatewayPatterns ?pre) (Method r) (path @ ''/'')) (path @ ''/'') \<longleftrightarrow>
        map Lit ?segs @ [Multi] \<in> {?pre, dashSegs}"
    using routeMatch_slash [OF form path refl, of "Method r"] pathSegs_slash [of path] path
    by (simp add: match HasSuffix_byte)
  have exact: "\<not> HasSuffix path ''/'' \<Longrightarrow> exactMatch (matchMethod (gatewayPatterns ?pre) (Method r) path) path \<longleftrightarrow>
      (?segs = [''health''] \<and> Method r \<in> {''GET'', ''HEAD''}) \<or> ?pre = map Lit ?segs"
    using routeMatch_exact [OF form path(1)] path by (simp add: match HasSuffix_byte)
  let ?H = "?segs = [''health''] \<and> Method r \<in> {''GET'', ''HEAD''}" and ?L = "?pre = map Lit ?segs"
    and ?R = "\<not> HasSuffix path ''/'' \<and> map Lit ?segs @ [Multi] \<in> {?pre, dashSegs}"
  have cond: "(\<not> exactMatch (matchMethod (gatewayPatterns ?pre) (Method r) path) path \<and> \<not> HasSuffix path ''/'' \<and>
      exactMatch (matchMethod (gatewayPatterns ?pre) (Method r) (path @ ''/'')) (path @ ''/'')) \<longleftrightarrow>
      \<not> (?H \<or> ?L) \<and> ?R"
    using exact redirect by blast
  have tail: "(case matchMethod (gatewayPatterns ?pre) (Method r) path of
        Some (p, ms) \<Rightarrow> Found (pat_route p) ms
      | None \<Rightarrow> (case matchingMethods (gatewayPatterns ?pre) [] path of [] \<Rightarrow> Missing | ms \<Rightarrow> NotAllowed ms)) =
      (case routeMatch ?pre (Method r) ?segs of
         Some p \<Rightarrow> Found (pat_route p) []
       | None \<Rightarrow> if ?segs = [''health''] then NotAllowed [''GET'', ''HEAD''] else Missing)"
    by (cases "routeMatch ?pre (Method r) ?segs") (simp_all add: match gateway_methods [OF path])
  have fh: "findHandler (gatewayPatterns ?pre) r =
      (if \<not> (?H \<or> ?L) \<and> ?R then Redirect (cleanPath (URL_Path r) @ ''/'')
       else if path \<noteq> EscapedPath r then Redirect path
       else (case routeMatch ?pre (Method r) ?segs of
               Some p \<Rightarrow> Found (pat_route p) []
             | None \<Rightarrow> if ?segs = [''health''] then NotAllowed [''GET'', ''HEAD''] else Missing))"
    unfolding findHandler_hostless [OF gateway_hostless] assms(3) [symmetric] Let_def cond tail by (rule refl)
  show ?thesis unfolding fh dispatch_match by (rule redirect_first) (simp split: option.splits)
qed

lemma host_prefix:
  assumes "plain_path p" and "plain_host h" and "h \<noteq> []"
  shows "NewMux (gatewayRoutes (h @ p)) [] =
    Some [healthPattern, dashboardPattern, (proxyPattern (pathPattern p))\<lparr>pat_host := h\<rparr>]"
  using assms valid_host [OF assms(2,1)] parse_host [OF assms(2,1), of ProxyRoute]
  by (simp add: gateway_registers Handle_def conflicts_def gateway_patterns Let_def)

text \<open>C10: The multiplexer of the gateway, for every configured prefix that starts with a slash and has no
  opening brace, percent sign, blank, tab or empty inner segment, and every request (a \<^verbatim>\<open>CONNECT\<close> request
  only when its path starts with a slash; its path is not cleaned). Unless the prefix is the
  dashboard's own path, the registration succeeds and the request is dispatched as the routing table
  says: \<^verbatim>\<open>GET\<close> and \<^verbatim>\<open>HEAD\<close> of \<^verbatim>\<open>/health\<close> to the health endpoint, other methods of it 405 unless the
  prefix catches them; of the dashboard and the prefix the one with more segments that the path lies
  under; the root of either without its final slash is redirected, and so is every path that is
  not clean; everything else is 404. A prefix that names the dashboard's path, or has no slash, makes
  the process panic. Such a prefix with a host before it, as in \<^verbatim>\<open>api/\<close>, is registered, but only requests
  that name this host reach the proxy.\<close>

theorem gateway_dispatch:
  assumes "plain_path p" and "rooted r" and "path = matchedPath r" and "plain_host h" and "h \<noteq> []"
  shows "(if pathPattern p = dashSegs then NewMux (gatewayRoutes p) [] = None
     else \<exists>mux. NewMux (gatewayRoutes p) [] = Some mux \<and>
       findHandler mux r =
         (case dispatch (pathPattern p) (Method r) path (URL_Path r) of
            Redirect target \<Rightarrow> Redirect target
          | d \<Rightarrow> if path = EscapedPath r then d else Redirect path)) \<and>
    (CHR ''/'' \<notin> set q \<longrightarrow> NewMux (gatewayRoutes q) [] = None) \<and>
    (\<exists>mux. NewMux (gatewayRoutes (h @ p)) [] = Some mux \<and>
       (\<forall>ms. findHandler mux r = Found ProxyRoute ms \<longrightarrow> matchedHost r = h))"
proof (intro conjI)
  show "if pathPattern p = dashSegs then NewMux (gatewayRoutes p) [] = None
     else \<exists>mux. NewMux (gatewayRoutes p) [] = Some mux \<and>
       findHandler mux r =
         (case dispatch (pathPattern p) (Method r) path (URL_Path r) of
            Redirect target \<Rightarrow> Redirect target
          | d \<Rightarrow> if path = EscapedPath r then d else Redirect path)"
    using gateway_mux [OF assms(1)] gateway_find [OF assms(1-3)] by simp
  show "CHR ''/'' \<notin> set q \<longrightarrow> NewMux (gatewayRoutes q) [] = None"
    using slash_needed [of q] by (simp add: gateway_registers Handle_def)
  show "\<exists>mux. NewMux (gatewayRoutes (h @ p)) [] = Some mux \<and>
       (\<forall>ms. findHandler mux r = Found ProxyRoute ms \<longrightarrow> matchedHost r = h)"
    unfolding host_prefix [OF assms(1,4,5)] using assms(5)
    by (auto dest!: found_host simp: gateway_patterns)
qed

theorem gateway_dispatch_witness:
  "(\<exists>mux. NewMux (gatewayRoutes ''/'') [] = Some mux \<and>
     findHandler mux (demo_req ''/api/users/5'') = Found ProxyRoute []) \<and>
   (\<exists>mux. NewMux (gatewayRoutes ''api/'') [] = Some mux \<and>
     (\<forall>ms. findHandler mux (demo_req ''/api/users/5'') \<noteq> Found ProxyRoute ms))"
proof -
  have "plain_path ''/''" by (simp add: plain_path_def)
  moreover have "cleanPath ''/api/users/5'' = ''/api/users/5''" by (simp add: cleanPath_def cleanSegments_def)
  moreover have "pathSegs ''/api/users/5'' = [''api'', ''users'', ''5'']" by (simp add: pathSegs_def pathUnescape_def)
  moreover have "pathPattern ''/'' = [Multi]" by (simp add: pathPattern_def)
  ultimately show ?thesis
    using gateway_dispatch [of "''/''" "demo_req ''/api/users/5''" "''/api/users/5''" "''api''" "''x''"]
    by (simp add: demo_req_def dispatch_def dashSegs_def plain_host_def rooted_def matchedPath_def matchedHost_def
        stripHostPort_def)
qed

section \<open>From the client to the backends\<close>

lemma gatewayServe_next:
  "\<exists>new. gb_attempts (gs_next (snd (gatewayServe L env cfg rt ms r w s))) = gb_attempts (gs_next s) @ new \<and>
     (new \<noteq> [] \<longrightarrow> rt = ProxyRoute \<and> new = snd (snd (Proxy_ServeHTTP (lib_tables L) (lib_proxy L) (ge_attempts env)
        (fst (NewProxy (NewRouteTable (Routing cfg)) (Resilience cfg))) r w (gb_breakers (gs_next s)))))"
  by (cases rt) (simp_all add: gatewayServe_def split_beta Let_def)

lemma gatewayServe_limiter [simp]: "gs_limiter (snd (gatewayServe L env cfg rt ms r w s)) = gs_limiter s"
  by (cases rt) (simp_all add: gatewayServe_def split_beta Let_def)

lemma mux_limiter: "gs_limiter (snd (ServeMux rd (gatewayServe L env cfg) mux r w s)) = gs_limiter s"
  by (simp add: ServeMux_def split: decision.splits)

lemma mux_attempts:
  assumes "gb_attempts (gs_next (snd (ServeMux rd (gatewayServe L env cfg) mux r w s))) \<noteq> gb_attempts (gs_next s)"
  shows "\<exists>new ms name remainder. findHandler mux r = Found ProxyRoute ms \<and>
    gb_attempts (gs_next (snd (ServeMux rd (gatewayServe L env cfg) mux r w s))) = gb_attempts (gs_next s) @ new \<and>
    ParseServiceFromPath (normalizePrefix (RoutePrefix (Routing cfg))) (URL_Path r) = Some (name, remainder) \<and>
    list_all (faithful_attempt (lib_proxy L) r remainder) new \<and>
    list_all (looked_up (lib_tables L) (ge_attempts env) name \<circ> attempt_backend) new"
proof -
  obtain rt ms where found: "findHandler mux r = Found rt ms"
    using assms by (cases "findHandler mux r") (auto simp: ServeMux_def)
  let ?p = "fst (NewProxy (NewRouteTable (Routing cfg)) (Resilience cfg))"
  let ?res = "Proxy_ServeHTTP (lib_tables L) (lib_proxy L) (ge_attempts env) ?p r w (gb_breakers (gs_next s))"
  have eq: "ServeMux rd (gatewayServe L env cfg) mux r w s = gatewayServe L env cfg rt ms r w s"
    using found by (simp add: ServeMux_def)
  obtain new where new: "gb_attempts (gs_next (snd (gatewayServe L env cfg rt ms r w s))) = gb_attempts (gs_next s) @ new"
    "new \<noteq> [] \<longrightarrow> rt = ProxyRoute \<and> new = snd (snd ?res)"
    using gatewayServe_next [of L env cfg rt ms r w s] by blast
  then have "new \<noteq> []" using assms eq by auto
  then have proxy: "rt = ProxyRoute" "new = snd (snd ?res)" using new(2) by auto
  have pre: "p_prefix ?p = RoutePrefix (Routing cfg)" by (simp add: NewProxy_def NewRouteTable_def)
  obtain name remainder b where
    parse: "ParseServiceFromPath (normalizePrefix (RoutePrefix (Routing cfg))) (URL_Path r) = Some (name, remainder)"
    and routed: "routed (lib_tables L) (ge_attempts env) ?p r name remainder b"
    using \<open>new \<noteq> []\<close> proxy(2) pre
    by (auto simp: Proxy_ServeHTTP_def routed_def split: option.splits)
  have "list_all (faithful_attempt (lib_proxy L) r remainder) new"
    unfolding proxy(2) ServeHTTP_log [OF routed] by (rule faithful_loop) simp
  then show ?thesis
    using found eq new(1) proxy parse ServeHTTP_backends [of ?p r name remainder] pre by auto
qed

lemma gateway_attempts:
  assumes "fresh_writer w"
    and "gb_attempts (gs_next (snd (gateway L cfg mux env r w s))) \<noteq> gb_attempts (gs_next s)"
  shows "Method r \<noteq> ''OPTIONS'' \<and> admitted_by_limiter cfg (limiter_at (ge_times env)) r (gs_limiter s) \<and>
    authorized (lib_mac L) (lib_unmarshal L) (jwt_at (ge_times env)) (JWT cfg) r \<and>
    (\<exists>new ms name remainder. findHandler mux r = Found ProxyRoute ms \<and>
      gb_attempts (gs_next (snd (gateway L cfg mux env r w s))) = gb_attempts (gs_next s) @ new \<and>
      ParseServiceFromPath (normalizePrefix (RoutePrefix (Routing cfg))) (URL_Path r) = Some (name, remainder) \<and>
      list_all (faithful_attempt (lib_proxy L) r remainder) new \<and>
      list_all (looked_up (lib_tables L) (ge_attempts env) name \<circ> attempt_backend) new)"
proof -
  let ?mux = "ServeMux (lib_redirect L) (gatewayServe L env cfg) mux"
  have decided: "Method r \<noteq> ''OPTIONS''" "admitted_by_limiter cfg (limiter_at (ge_times env)) r (gs_limiter s)"
    "authorized (lib_mac L) (lib_unmarshal L) (jwt_at (ge_times env)) (JWT cfg) r"
    and "\<exists>w1 s1. gs_next s1 = gs_next s \<and>
      gs_next (snd (gateway L cfg mux env r w s)) = gs_next (snd (?mux r w1 s1))"
    using chain_admission [OF assms(1), of "lib_tables L" "lib_mac L" "lib_unmarshal L" "ge_times env" cfg ?mux r s]
      assms(2) by (auto simp: gateway_def Let_def split: if_splits)
  then obtain w1 s1 where s1: "gs_next s1 = gs_next s"
    "gs_next (snd (gateway L cfg mux env r w s)) = gs_next (snd (?mux r w1 s1))" by blast
  show ?thesis using decided mux_attempts [of "lib_redirect L" L env cfg mux r w1 s1] assms(2) s1 by simp
qed

text \<open>C7: The gateway shields the backends. Serving a request only ever adds to the log of upstream
  attempts, and when it adds anything then the request is no preflight, the rate limiter admitted
  its client, it carries a valid token or needs none, its path was dispatched to the proxy and
  names a service; every request sent upstream is the client's request with the rest of that
  path, and every attempt goes to an instance that was healthy in some answer of the registry
  and belongs to that service.\<close>

theorem gateway_shields_backends:
  assumes "fresh_writer w" and "\<And>k. table_from (lib_tables L) A (ae_routes (ge_attempts env k))"
  shows "\<exists>new. gb_attempts (gs_next (snd (gateway L cfg mux env r w s))) = gb_attempts (gs_next s) @ new \<and>
    (if new = [] then True
     else Method r \<noteq> ''OPTIONS'' \<and> admitted_by_limiter cfg (limiter_at (ge_times env)) r (gs_limiter s) \<and>
       authorized (lib_mac L) (lib_unmarshal L) (jwt_at (ge_times env)) (JWT cfg) r \<and>
       (\<exists>ms. findHandler mux r = Found ProxyRoute ms) \<and>
       (\<exists>name remainder.
          ParseServiceFromPath (normalizePrefix (RoutePrefix (Routing cfg))) (URL_Path r) = Some (name, remainder) \<and>
          list_all (\<lambda>a. faithful_attempt (lib_proxy L) r remainder a \<and>
            healthy_in (lib_tables L) A name (attempt_backend a)) new))"
proof (cases "gb_attempts (gs_next (snd (gateway L cfg mux env r w s))) = gb_attempts (gs_next s)")
  case True
  then show ?thesis by simp
next
  case False
  have healthy: "healthy_in (lib_tables L) A name b" if "looked_up (lib_tables L) (ge_attempts env) name b" for name b
    using that table_from_healthy [OF assms(2)] by (auto simp: looked_up_def)
  obtain new ms name remainder where new: "findHandler mux r = Found ProxyRoute ms"
    "gb_attempts (gs_next (snd (gateway L cfg mux env r w s))) = gb_attempts (gs_next s) @ new"
    "ParseServiceFromPath (normalizePrefix (RoutePrefix (Routing cfg))) (URL_Path r) = Some (name, remainder)"
    "list_all (faithful_attempt (lib_proxy L) r remainder) new"
    "list_all (looked_up (lib_tables L) (ge_attempts env) name \<circ> attempt_backend) new"
    using gateway_attempts [OF assms(1) False] by blast
  have "list_all (\<lambda>a. faithful_attempt (lib_proxy L) r remainder a \<and>
      healthy_in (lib_tables L) A name (attempt_backend a)) new"
    using new(4,5) healthy by (simp add: list_all_iff)
  then show ?thesis using gateway_attempts [OF assms(1) False] new(1-3)
    by (intro exI [of _ new]) simp
qed

definition demo_answer :: answer where
  "demo_answer =
     ([''api''], \<lambda>_. Inr [\<lparr>ServiceName = ''api'', ServiceID = ''api-1'', Address = ''10.0.0.1'', Port = 80,
        Status = HealthHealthy, Metadata = [], RegisteredAt = 0, LastHealthCheck = 0\<rparr>])"

definition demo_env :: "gw_env" where
  "demo_env =
     \<lparr>ge_times = \<lparr>start_at = 0, limiter_at = 5, jwt_at = 5, end_at = 9\<rparr>,
      ge_attempts = (\<lambda>_. (demo_attempt (Inl ''timeout''))
        \<lparr>ae_routes := refresh demo_utables (Inr (fst demo_answer)) (snd demo_answer)
           (NewRouteTable (Routing gw_DefaultConfig))\<rparr>),
      ge_dash = \<lparr>de_NewRequest = (\<lambda>_ _. None), de_Do = (\<lambda>_. Inl ''refused''), de_token = []\<rparr>,
      ge_services = Inr [], ge_instances = (\<lambda>_. Inr []), ge_now = 7\<rparr>"

definition demo_libs :: gw_libs where
  "demo_libs =
     \<lparr>lib_tables = demo_utables, lib_mac = (\<lambda>k m. k @ m), lib_unmarshal = (\<lambda>_. None), lib_marshal = (\<lambda>_. []),
      lib_proxy = demo_proxy_api, lib_redirect = (\<lambda>_ _. WriteHeader 301), lib_encode = (\<lambda>_. []),
      lib_RFC3339 = (\<lambda>_. []), lib_compact = (\<lambda>_. [])\<rparr>"

text \<open>A request that the chain lets through and the multiplexer gives to the proxy is sent.\<close>

lemma gateway_reaches:
  assumes "fresh_writer w" and "Method r \<noteq> ''OPTIONS''"
    and "admitted_by_limiter cfg (limiter_at (ge_times env)) r (gs_limiter s)"
    and "authorized (lib_mac L) (lib_unmarshal L) (jwt_at (ge_times env)) (JWT cfg) r"
    and "findHandler mux r = Found ProxyRoute ms"
    and "routed (lib_tables L) (ge_attempts env) (fst (NewProxy (NewRouteTable (Routing cfg)) (Resilience cfg))) r
      name remainder b"
    and "0 < wrap64 (RetryCount (Resilience cfg) + 1)"
  shows "gb_attempts (gs_next (snd (gateway L cfg mux env r w s))) \<noteq> gb_attempts (gs_next s)"
proof -
  obtain w1 s1 where s1: "gs_next s1 = gs_next s" "gs_next (snd (gateway L cfg mux env r w s)) =
      gs_next (snd (ServeMux (lib_redirect L) (gatewayServe L env cfg) mux r w1 s1))"
    using chain_admission [OF assms(1), of "lib_tables L" "lib_mac L" "lib_unmarshal L" "ge_times env" cfg
        "ServeMux (lib_redirect L) (gatewayServe L env cfg) mux" r s] assms(2-4) by (auto simp: gateway_def Let_def)
  have "snd (snd (Proxy_ServeHTTP (lib_tables L) (lib_proxy L) (ge_attempts env)
      (fst (NewProxy (NewRouteTable (Routing cfg)) (Resilience cfg))) r w1 (gb_breakers (gs_next s1)))) \<noteq> []"
    unfolding ServeHTTP_log [OF assms(6)] using assms(7) by (intro retryLoop_attempts) (simp add: NewProxy_def)
  then show ?thesis using s1 assms(5) by (simp add: ServeMux_def gatewayServe_def split_beta Let_def)
qed

theorem gateway_shields_backends_witness:
  "\<exists>new. new \<noteq> [] \<and> gb_attempts (gs_next (snd (gateway demo_libs gw_DefaultConfig (gatewayPatterns (pathPattern ''/api/''))
       demo_env (demo_req ''/api/api/x'') new_writer (newGateway gw_DefaultConfig)))) = new \<and>
     list_all (\<lambda>a. healthy_in demo_utables {demo_answer} ''api'' (attempt_backend a)) new"
proof -
  let ?r = "demo_req ''/api/api/x''" and ?s = "newGateway gw_DefaultConfig"
    and ?mux = "gatewayPatterns (pathPattern ''/api/'')"
  have tables: "table_from (lib_tables demo_libs) {demo_answer} (ae_routes (ge_attempts demo_env k))" for k
    using table_from.refreshed [OF table_from.initial, of "fst demo_answer" "snd demo_answer" "{demo_answer}"]
    by (simp add: demo_env_def demo_libs_def)
  have prefix: "RoutePrefix (Routing gw_DefaultConfig) = ''/api/''" by (simp add: gw_DefaultConfig_def)
  have start: "gb_attempts (gs_next ?s) = []" by (simp add: newGateway_def newGatewayState_def)
  have "admitted_by_limiter gw_DefaultConfig (limiter_at (ge_times demo_env)) ?r (gs_limiter ?s)"
    by (simp add: admitted_by_limiter_def newGateway_def newGatewayState_def NewRateLimiter_def allow_def Let_def
        gw_DefaultConfig_def)
  moreover have "authorized (lib_mac demo_libs) (lib_unmarshal demo_libs) (jwt_at (ge_times demo_env))
      (JWT gw_DefaultConfig) ?r"
    by (simp add: authorized_def gw_DefaultConfig_def)
  moreover have "findHandler ?mux ?r = Found ProxyRoute []"
  proof -
    have "plain_path ''/api/''" by (simp add: plain_path_def)
    moreover have "cleanPath ''/api/api/x'' = ''/api/api/x''" by (simp add: cleanPath_def cleanSegments_def)
    moreover have "pathSegs ''/api/api/x'' = [''api'', ''api'', ''x'']" by (simp add: pathSegs_def pathUnescape_def)
    moreover have "pathPattern ''/api/'' = [Lit ''api'', Multi]"
      by (simp add: pathPattern_def literalSegment_def pathUnescape_def)
    ultimately show ?thesis
      using gateway_find [of "''/api/''" ?r "''/api/api/x''"]
      by (simp add: demo_req_def dispatch_def dashSegs_def rooted_def matchedPath_def)
  qed
  moreover have "Lookup demo_utables ''api'' 0 (ae_routes (ge_attempts demo_env 0)) \<noteq> None" by code_simp
  then have "\<exists>b. routed (lib_tables demo_libs) (ge_attempts demo_env) (fst (NewProxy (NewRouteTable
      (Routing gw_DefaultConfig)) (Resilience gw_DefaultConfig))) ?r ''api'' ''/x'' b"
    using demo_parse prefix
    by (auto simp: routed_def NewProxy_def NewRouteTable_def demo_libs_def demo_req_def demo_env_def demo_attempt_def)
  moreover have "0 < wrap64 (RetryCount (Resilience gw_DefaultConfig) + 1)"
    by (simp add: gw_DefaultConfig_def wrap64_def)
  ultimately have "gb_attempts (gs_next (snd (gateway demo_libs gw_DefaultConfig ?mux demo_env ?r new_writer ?s))) \<noteq> []"
    using gateway_reaches [OF fresh_new, of ?r gw_DefaultConfig demo_env ?s demo_libs ?mux] start
    by (auto simp: demo_req_def)
  then show ?thesis
    using gateway_shields_backends [OF fresh_new, of demo_libs "{demo_answer}" demo_env gw_DefaultConfig ?mux ?r ?s]
      tables prefix start demo_parse
    by (auto simp: demo_libs_def list_all_iff split: if_splits)
qed

lemma Split_append: "c \<notin> set s \<Longrightarrow> Split (s @ t) c = (s @ hd (Split t c)) # tl (Split t c)"
  by (induction s) (auto simp: neq_Nil_conv)

lemma encoded_slash_segments:
  "\<exists>seg rest. pathSegs (''/api/dashboard%2F'' @ x) = ''api'' # seg # rest \<and> seg \<noteq> ''dashboard''"
proof -
  obtain p ps where ps: "Split x CHR ''/'' = p # ps" by (cases "Split x CHR ''/''") auto
  have split: "Split (''api/dashboard%2F'' @ x) CHR ''/'' = ''api'' # (''dashboard%2F'' @ p) # ps"
    using Split_append_sep [of "CHR ''/''" "''api''" "''dashboard%2F'' @ x"]
      Split_append [of "CHR ''/''" "''dashboard%2F''" x] ps by simp
  have "pathUnescape (''dashboard%2F'' @ p) \<noteq> ''dashboard''"
    by (simp add: pathUnescape_def hex_val_def byte_def split: option.splits)
  moreover have "pathUnescape ''api'' = ''api''" by (simp add: pathUnescape_def)
  ultimately show ?thesis using split by (simp add: pathSegs_def)
qed

text \<open>C35: A disagreement about encoded slashes. The token check looks at the decoded path and the
  multiplexer at the segments of the encoded one: a path under the default prefix whose second
  segment is \<^verbatim>\<open>dashboard%2F\<close> and anything else needs no token, because it decodes to a path of the
  dashboard, and yet is dispatched to the proxy, as a request to the service \<^verbatim>\<open>dashboard\<close>.\<close>

theorem encoded_slash_skips_token:
  assumes "EscapedPath r = ''/api/dashboard%2F'' @ x" and "URL_Path r = ''/api/dashboard/'' @ y"
    and "cleanPath (EscapedPath r) = EscapedPath r"
  shows "authorized mac unmarshal now cfg r \<and>
    (\<exists>mux. NewMux (gatewayRoutes ''/api/'') [] = Some mux \<and> findHandler mux r = Found ProxyRoute []) \<and>
    (\<exists>remainder. ParseServiceFromPath (normalizePrefix ''/api/'') (URL_Path r) = Some (''dashboard'', remainder))"
proof -
  have plain: "plain_path ''/api/''" by (simp add: plain_path_def)
  have pre: "pathPattern ''/api/'' = [Lit ''api'', Multi]"
    by (simp add: pathPattern_def literalSegment_def pathUnescape_def)
  obtain seg rest where segs: "pathSegs (EscapedPath r) = ''api'' # seg # rest" "seg \<noteq> ''dashboard''"
    using encoded_slash_segments [of x] assms(1) by auto
  have "dispatch [Lit ''api'', Multi] (Method r) (EscapedPath r) (URL_Path r) = Found ProxyRoute []"
    using segs by (simp add: dispatch_def dashSegs_def)
  then have "findHandler (gatewayPatterns [Lit ''api'', Multi]) r = Found ProxyRoute []"
    using gateway_find [OF plain _ refl] assms(1,3) by (simp add: pre dashSegs_def rooted_def matchedPath_def HasPrefix_def)
  moreover have "NewMux (gatewayRoutes ''/api/'') [] = Some (gatewayPatterns [Lit ''api'', Multi])"
    using gateway_mux [OF plain] by (simp add: pre dashSegs_def)
  moreover have "authorized mac unmarshal now cfg r"
    using assms(2) by (simp add: authorized_def jwtSkipPaths_def HasPrefix_def)
  moreover have "normalizePrefix ''/api/'' = ''/api/''"
    by (simp add: normalizePrefix_def HasPrefix_def HasSuffix_def)
  then have "\<exists>remainder. ParseServiceFromPath (normalizePrefix ''/api/'') (URL_Path r) = Some (''dashboard'', remainder)"
    using assms(2) by (auto simp: ParseServiceFromPath_Some)
  ultimately show ?thesis by blast
qed

theorem encoded_slash_skips_token_witness:
  "authorized (lib_mac demo_libs) (lib_unmarshal demo_libs) 0 (JWT gw_DefaultConfig\<lparr>SecretKey := ''s3cret''\<rparr>)
     ((demo_req ''/api/dashboard/x'')\<lparr>EscapedPath := ''/api/dashboard%2Fx''\<rparr>)"
  using encoded_slash_skips_token [of "(demo_req ''/api/dashboard/x'')\<lparr>EscapedPath := ''/api/dashboard%2Fx''\<rparr>"
      "''x''" "''x''"]
  by (simp add: demo_req_def cleanPath_def cleanSegments_def)

section \<open>The rate limit, seen from the backends\<close>

fun forwarded ::
  "gw_libs \<Rightarrow> gw_Config \<Rightarrow> gw_route pattern list \<Rightarrow> string \<Rightarrow> gw_event list \<Rightarrow> gw_back gw_state \<Rightarrow> time list" where
  "forwarded L cfg mux k [] s = []"
| "forwarded L cfg mux k (e # es) s =
     (let s' = gatewayStep L cfg mux e s
      in (case e of
            Serve env r \<Rightarrow>
              if clientIPAddress r = k \<and> gb_attempts (gs_next s') \<noteq> gb_attempts (gs_next s)
              then [limiter_at (ge_times env)] else []
          | EvictBuckets t \<Rightarrow> []) @ forwarded L cfg mux k es s')"

fun limiter_events :: "gw_event list \<Rightarrow> limiter_event list" where
  "limiter_events [] = []"
| "limiter_events (Serve env r # es) =
     (if Method r = ''OPTIONS'' then [] else [Request (limiter_at (ge_times env)) (clientIPAddress r)]) @
     limiter_events es"
| "limiter_events (EvictBuckets t # es) = Evict t # limiter_events es"

lemma gateway_limiter:
  "gs_limiter (snd (gateway L cfg mux env r w s)) =
    (if Method r = ''OPTIONS'' \<or> \<not> Enabled (RateLimit cfg) then gs_limiter s
     else snd (allow (limiter_at (ge_times env)) (clientIPAddress r) (gs_limiter s)))"
  unfolding gateway_def by (rule chain_limiter) (rule mux_limiter)

lemma forwarded_admitted:
  "Enabled (RateLimit cfg) \<Longrightarrow>
   among P (forwarded L cfg mux k es s) \<le> among P (admitted k (limiter_events es) (gs_limiter s))"
proof (induction es arbitrary: s)
  case (Cons e es)
  let ?s = "gatewayStep L cfg mux e s"
  have ih: "among P (forwarded L cfg mux k es ?s) \<le> among P (admitted k (limiter_events es) (gs_limiter ?s))"
    using Cons by simp
  show ?case
  proof (cases e)
    case (Serve env r)
    have lim: "gs_limiter ?s = (if Method r = ''OPTIONS'' then gs_limiter s
        else snd (allow (limiter_at (ge_times env)) (clientIPAddress r) (gs_limiter s)))"
      using Serve Cons.prems by (simp add: gatewayStep_def gateway_limiter)
    have "Method r \<noteq> ''OPTIONS'' \<and> fst (allow (limiter_at (ge_times env)) (clientIPAddress r) (gs_limiter s))"
      if "gb_attempts (gs_next ?s) \<noteq> gb_attempts (gs_next s)"
      using gateway_attempts [of new_writer L cfg mux env r s] that Cons.prems Serve
      by (simp add: gatewayStep_def admitted_by_limiter_def)
    then show ?thesis using ih Serve lim by (auto simp: Let_def)
  next
    case (EvictBuckets t)
    then show ?thesis using ih by (simp add: gatewayStep_def Let_def)
  qed
qed simp

text \<open>The rate limit protects the backends. However requests of many clients, preflights and
  eviction rounds follow each other, in any interval as long as the window no client gets more
  than twice the permit limit of its requests forwarded to backends.\<close>

theorem gateway_rate_bound:
  assumes "Enabled (RateLimit cfg)" and "is_int64 (PermitLimit (RateLimit cfg))"
    and "ordered_events (limiter_events es)"
  shows "among (\<lambda>t. t0 \<le> t \<and> t \<le> t0 + wrap64 (WindowSeconds (RateLimit cfg) * Second))
      (forwarded L cfg mux k es (newGateway cfg)) \<le> 2 * permits (PermitLimit (RateLimit cfg))"
proof -
  let ?rl = "gs_limiter (newGateway cfg)"
  have rl: "?rl = NewRateLimiter (PermitLimit (RateLimit cfg)) (WindowSeconds (RateLimit cfg))"
    by (simp add: newGateway_def newGatewayState_def)
  then have "limiter_wf ?rl" using limiter_wf_new assms(2) by simp
  from admitted_interval [OF this assms(3), of t0 k]
  have "among (\<lambda>t. t0 \<le> t \<and> t \<le> t0 + wrap64 (WindowSeconds (RateLimit cfg) * Second))
      (admitted k (limiter_events es) ?rl) \<le> 2 * permits (PermitLimit (RateLimit cfg))"
    by (simp add: rl NewRateLimiter_def)
  with forwarded_admitted [OF assms(1)] show ?thesis by (rule order_trans)
qed

theorem gateway_rate_bound_witness:
  "among (\<lambda>t. 0 \<le> t \<and> t \<le> 60000000000)
     (forwarded demo_libs gw_DefaultConfig (gatewayPatterns (pathPattern ''/api/'')) ''10.1.1.1''
        [Serve demo_env (demo_req ''/api/api/x''), EvictBuckets 6] (newGateway gw_DefaultConfig)) \<le> 200"
proof -
  let ?es = "[Serve demo_env (demo_req ''/api/api/x''), EvictBuckets 6]"
  have "ordered_events (limiter_events ?es)"
    by (simp add: ordered_events_def demo_env_def demo_req_def)
  moreover have "Enabled (RateLimit gw_DefaultConfig)" "PermitLimit (RateLimit gw_DefaultConfig) = 100"
    "wrap64 (WindowSeconds (RateLimit gw_DefaultConfig) * Second) = 60000000000"
    by (simp_all add: gw_DefaultConfig_def wrap64_def)
  ultimately show ?thesis
    using gateway_rate_bound [of gw_DefaultConfig ?es 0 demo_libs "gatewayPatterns (pathPattern ''/api/'')" "''10.1.1.1''"]
    by (simp add: permits_def int_range_defs)
qed

end
