(* ===== verification/Processes.thy ===== *)
theory Processes
  imports Discovery_Server Health_Worker Gateway_Server
begin

text \<open>
  The three processes: \<^verbatim>\<open>cmd/discovery/main.go\<close>, \<^verbatim>\<open>cmd/healthmonitor/main.go\<close> and the start of
  \<^verbatim>\<open>cmd/gateway/main.go\<close>. Each \<open>run\<close> reads the environment, opens what it needs, serves until it is
  told to stop and closes what it opened. \<^verbatim>\<open>net.Listen\<close>, \<^verbatim>\<open>Serve\<close> and \<^verbatim>\<open>ListenAndServe\<close> are arguments;
  while a process serves, the broker changes as \<open>serve\<close> says.
\<close>

section \<open>Discovery\<close>

definition discoveryRun ::
  "getenv \<Rightarrow> (string option \<Rightarrow> error option) \<Rightarrow> ('w, 'c, 'h) amqp \<Rightarrow> (string \<Rightarrow> error option)
     \<Rightarrow> (Registry \<Rightarrow> ('c, 'h) Publisher \<Rightarrow> 'w \<Rightarrow> error option \<times> 'w) \<Rightarrow> 'w \<Rightarrow> error option \<times> 'w" where
  "discoveryRun getenv newClient q listen serve w =
     (let port = envOr getenv ''DISCOVERY_PORT'' ''8080'';
          consulAddr = envOr getenv ''CONSUL_ADDRESS'' ''http://localhost:8500'';
          rabbitURL = getenv ''RABBITMQ_URL''
      in case openRegistry newClient consulAddr of
           Inl err \<Rightarrow> (Some (''consul registry: '' @ err), w)
         | Inr registry \<Rightarrow>
             (case NewPublisher q rabbitURL w of
                (Inl err, w1) \<Rightarrow> (Some (''rabbitmq publisher: '' @ err), w1)
              | (Inr publisher, w1) \<Rightarrow>
                  (case listen ('':'' @ port) of
                     Some err \<Rightarrow> (Some (''listen: '' @ err), snd (Publisher_Close q publisher w1))
                   | None \<Rightarrow>
                       (let (e, w2) = serve registry publisher w1
                        in (e, snd (Publisher_Close q publisher w2))))))"

section \<open>Health monitor\<close>

definition hm_loadConfig :: "getenv \<Rightarrow> hm_Config" where
  "hm_loadConfig getenv =
     (let d = hm_DefaultConfig;
          seconds = (\<lambda>key dflt. case envInt getenv key 1 of Some v \<Rightarrow> wrap64 (v * Second) | None \<Rightarrow> dflt)
      in d\<lparr>ProbeInterval := seconds ''HEALTHMONITOR_PROBE_INTERVAL_SECONDS'' (ProbeInterval d),
           HTTPTimeout := seconds ''HEALTHMONITOR_HTTP_TIMEOUT_SECONDS'' (HTTPTimeout d),
           TCPTimeout := seconds ''HEALTHMONITOR_TCP_TIMEOUT_SECONDS'' (TCPTimeout d),
           FailureThreshold :=
             (case envInt getenv ''HEALTHMONITOR_FAILURE_THRESHOLD'' 1 of
                Some v \<Rightarrow> v | None \<Rightarrow> FailureThreshold d)\<rparr>)"

datatype monitor_route = LivenessRoute | StatusRoute | ServiceRouteOf

definition monitorRoutes :: "(string \<times> monitor_route) list" where
  "monitorRoutes =
     [(''GET /health'', LivenessRoute), (''GET /api/status'', StatusRoute),
      (''GET /api/status/{serviceName}'', ServiceRouteOf)]"

text \<open>A slice is encoded with \<open>encode\<close>, and the nil slice that \<^verbatim>\<open>GetByService\<close> returns when there is no
  match as \<^verbatim>\<open>null\<close>.\<close>

definition monitorServe ::
  "(MonitoredInstance list \<Rightarrow> string) \<Rightarrow> Cache \<Rightarrow> monitor_route \<Rightarrow> string list \<Rightarrow> writer \<Rightarrow> writer" where
  "monitorServe encode cache rt ms w =
     (let w1 = on_header (Header_Set ''Content-Type'' ''application/json'') w
      in case rt of
           LivenessRoute \<Rightarrow> healthAnswer w
         | StatusRoute \<Rightarrow> Write (encode (GetAll cache)) w1
         | ServiceRouteOf \<Rightarrow>
             (let out = GetByService (hd ms) cache
              in Write (if out = [] then ''null'' @ [CHR 0x0A] else encode out) w1))"

definition monitorHandler ::
  "(string \<Rightarrow> request \<Rightarrow> writer \<Rightarrow> writer) \<Rightarrow> (MonitoredInstance list \<Rightarrow> string) \<Rightarrow> monitor_route pattern list
     \<Rightarrow> Cache \<Rightarrow> request \<Rightarrow> writer \<Rightarrow> writer" where
  "monitorHandler redirect encode mux cache r w =
     fst (ServeMux redirect (\<lambda>rt ms r w s. (monitorServe encode cache rt ms w, s)) mux r w ())"

text \<open>\<open>serve\<close> is \<^verbatim>\<open>ListenAndServe\<close> with the worker in the background; its error after a shutdown is
  \<^verbatim>\<open>ErrServerClosed\<close>.\<close>

definition monitorRun ::
  "getenv \<Rightarrow> (string option \<Rightarrow> error option) \<Rightarrow> ('w, 'c, 'h) amqp
     \<Rightarrow> (string \<Rightarrow> hm_Config \<Rightarrow> Registry \<Rightarrow> ('c, 'h) Publisher \<Rightarrow> 'w \<Rightarrow> error \<times> 'w) \<Rightarrow> 'w \<Rightarrow> error option \<times> 'w" where
  "monitorRun getenv newClient q serve w =
     (let port = envOr getenv ''HEALTHMONITOR_PORT'' ''8081'';
          consulAddr = envOr getenv ''CONSUL_ADDRESS'' ''http://localhost:8500'';
          rabbitURL = getenv ''RABBITMQ_URL'';
          cfg = hm_loadConfig getenv
      in case openRegistry newClient consulAddr of
           Inl err \<Rightarrow> (Some (''consul registry: '' @ err), w)
         | Inr registry \<Rightarrow>
             (case NewPublisher q rabbitURL w of
                (Inl err, w1) \<Rightarrow> (Some (''rabbitmq publisher: '' @ err), w1)
              | (Inr publisher, w1) \<Rightarrow>
                  (let (err, w2) = serve ('':'' @ port) cfg registry publisher w1
                   in (if err \<noteq> ''http: Server closed'' then Some (''http server: '' @ err) else None,
                       snd (Publisher_Close q publisher w2)))))"

section \<open>Gateway\<close>

text \<open>The start of the gateway, up to \<^verbatim>\<open>ListenAndServe\<close>: an error, the panic of the multiplexer, or the
  address, the handler's routing table and the state that it serves with.\<close>

datatype 'a start = Fails error | StartPanics | Serves string "gw_route pattern list" 'a

definition gatewayStart ::
  "getenv \<Rightarrow> (string option \<Rightarrow> error option) \<Rightarrow> (gw_Config \<times> gw_back gw_state) start" where
  "gatewayStart getenv newClient =
     (let cfg = loadConfig getenv
      in case openRegistry newClient (ConsulAddr cfg) of
           Inl err \<Rightarrow> Fails (''consul registry: '' @ err)
         | Inr registry \<Rightarrow>
             (case NewMux (gatewayRoutes (RoutePrefix (Routing cfg))) [] of
                None \<Rightarrow> StartPanics
              | Some mux \<Rightarrow> Serves ('':'' @ cfg_Port cfg) mux (cfg, newGateway cfg)))"

definition gatewayStop :: "error \<Rightarrow> error option" where
  "gatewayStop err = (if err \<noteq> ''http: Server closed'' then Some (''http server: '' @ err) else None)"

section \<open>Background loops\<close>

lemma Lookup_sound:
  assumes "Lookup u n r (refresh u (Inr names) gi rt) = Some b"
  shows "\<exists>s xs inst. s \<in> set names \<and> ToLower u s = ToLower u n \<and> \<not> EqualFold u s ''consul'' \<and>
    gi s = Inr xs \<and> inst \<in> set xs \<and> Status inst = HealthHealthy \<and> b = toBackend inst"
  using routes_are_healthy_instances [where u = u and n = n and r = r and names = names and gi = gi and rt = rt] assms
  by simp

text \<open>C28: The gateway and the health monitor follow the registry. Their loops poll it at once and then at
  every tick, and any of these rounds may fail to list the services. With positive periods,
  however many rounds have passed and whatever they answered, both the running and the cancelled
  loop stand at the last listing that succeeded, and nothing of earlier ones is left: a lookup
  returns only a healthy instance of a service in that listing, other than Consul itself, whose name
  agrees up to case; each such instance can be looked up, if no two listed names agree up to case;
  and the cache of the monitor has a report for exactly the IDs whose listing succeeded in that
  round. Until a listing has succeeded nothing can be looked up and nothing is cached; after that
  the old routes stay for as long as the listings fail.\<close>

theorem loops_follow_registry:
  assumes "0 < RefreshInterval cfg" and "0 < ProbeInterval (w_config w)"
    and "worker_wf w" and "w_cache w = NewCache"
    and "rt = loop_state (RouteTable_Run u first es (NewRouteTable cfg))"
    and "wk = loop_state (Worker_Run pub first' es' w)"
  shows "(\<forall>n r b. Lookup u n r rt = Some b \<longrightarrow>
      (\<exists>names gi s xs inst. latest (first # rounds es) = Some (names, gi) \<and> s \<in> set names \<and>
        ToLower u s = ToLower u n \<and> \<not> EqualFold u s ''consul'' \<and> gi s = Inr xs \<and> inst \<in> set xs \<and>
        Status inst = HealthHealthy \<and> b = toBackend inst)) \<and>
    (\<forall>names gi n xs inst. latest (first # rounds es) = Some (names, gi) \<and> distinct (map (ToLower u) names) \<and>
        n \<in> set names \<and> \<not> EqualFold u n ''consul'' \<and> gi n = Inr xs \<and> inst \<in> set xs \<and>
        Status inst = HealthHealthy \<longrightarrow> (\<exists>r. Lookup u n r rt = Some (toBackend inst))) \<and>
    (\<forall>j. Get j (w_cache wk) \<noteq> None \<longleftrightarrow>
      (\<exists>names gi envs. latest (first' # rounds es') = Some (names, gi, envs) \<and>
        j \<in> ServiceID ` set (listed gi names)))"
proof -
  let ?poll = "\<lambda>(services, gi). refresh u services gi"
  have "rt_config (?poll first (NewRouteTable cfg)) = cfg"
    by (cases first; cases "fst first") (simp_all add: refresh_def NewRouteTable_def)
  then have rt: "rt = fold ?poll (first # rounds es) (NewRouteTable cfg)"
    using assms(1,5) by (simp add: RouteTable_Run_def Let_def)
  have table: "case latest (first # rounds es) of None \<Rightarrow> rt = NewRouteTable cfg
      | Some (names, gi) \<Rightarrow> refresh u (Inr names) gi rt = rt"
    unfolding rt by (rule table_poll.latest_reflected) simp
  have sound: "\<exists>names gi s xs inst. latest (first # rounds es) = Some (names, gi) \<and> s \<in> set names \<and>
      ToLower u s = ToLower u n \<and> \<not> EqualFold u s ''consul'' \<and> gi s = Inr xs \<and> inst \<in> set xs \<and>
      Status inst = HealthHealthy \<and> b = toBackend inst" if b: "Lookup u n r rt = Some b" for n r b
  proof (cases "latest (first # rounds es)")
    case None
    then show ?thesis using table b by (simp add: Lookup_def NewRouteTable_def)
  next
    case (Some x)
    obtain names gi where x: "x = (names, gi)" by (cases x)
    then have "Lookup u n r (refresh u (Inr names) gi rt) = Some b" using Some table b by simp
    from Lookup_sound [OF this] show ?thesis using Some x by auto
  qed
  have complete: "\<exists>r. Lookup u n r rt = Some (toBackend inst)"
    if "latest (first # rounds es) = Some (names, gi)" "distinct (map (ToLower u) names)" "n \<in> set names"
      "\<not> EqualFold u n ''consul''" "gi n = Inr xs" "inst \<in> set xs" "Status inst = HealthHealthy" for names gi n xs inst
    using Lookup_complete [of u names n gi xs inst rt] that table by simp
  have wk: "wk = fold (\<lambda>(services, gi, envs). probeAll pub services gi envs) (first' # rounds es') w"
    using assms(2,6) by (simp add: Worker_Run_def Let_def)
  have cached: "Get j (w_cache wk) \<noteq> None \<longleftrightarrow>
      (\<exists>names gi envs. latest (first' # rounds es') = Some (names, gi, envs) \<and>
        j \<in> ServiceID ` set (listed gi names))" for j
    using worker_poll.latest_reflected [OF assms(3), of pub "first' # rounds es'", folded wk] assms(4)
    by (cases "latest (first' # rounds es')") (simp_all add: Get_def NewCache_def split_beta split_paired_all)
  show ?thesis using sound complete cached by blast
qed

theorem loops_follow_registry_witness:
  "\<exists>r. Lookup demo_utables ''api'' r (loop_state (RouteTable_Run demo_utables (Inl ''timeout'', snd demo_answer)
     [Tick (Inr (fst demo_answer), snd demo_answer), Tick (Inl ''timeout'', snd demo_answer), Cancelled]
     (NewRouteTable (Routing gw_DefaultConfig)))) =
     Some \<lparr>be_ServiceID = ''api-1'', be_Address = ''http://10.0.0.1:80''\<rparr>"
proof -
  let ?rt = "loop_state (RouteTable_Run demo_utables (Inl ''timeout'', snd demo_answer)
     [Tick (Inr (fst demo_answer), snd demo_answer), Tick (Inl ''timeout'', snd demo_answer), Cancelled]
     (NewRouteTable (Routing gw_DefaultConfig)))"
  let ?wk = "loop_state (Worker_Run record_event (Inl ''timeout'', \<lambda>_. Inl ''timeout'', \<lambda>_. demo_probe_env) [] demo_worker)"
  let ?inst = "\<lparr>ServiceName = ''api'', ServiceID = ''api-1'', Address = ''10.0.0.1'', Port = 80,
        Status = HealthHealthy, Metadata = [], RegisteredAt = 0, LastHealthCheck = 0\<rparr>"
  have "0 < RefreshInterval (Routing gw_DefaultConfig)" "0 < ProbeInterval (w_config demo_worker)"
      "w_cache demo_worker = NewCache"
    by (simp_all add: gw_DefaultConfig_def NewWorker_def hm_DefaultConfig_def)
  note run = loops_follow_registry [OF this(1,2) demo_worker_wf this(3) refl refl,
      of demo_utables "(Inl ''timeout'', snd demo_answer)"
      "[Tick (Inr (fst demo_answer), snd demo_answer), Tick (Inl ''timeout'', snd demo_answer), Cancelled]"]
  have "latest ((Inl ''timeout'', snd demo_answer) # rounds [Tick (Inr (fst demo_answer), snd demo_answer),
      Tick (Inl ''timeout'', snd demo_answer), Cancelled]) = Some ([''api''], snd demo_answer)"
    by (simp add: latest_def demo_answer_def)
  moreover have "\<not> EqualFold demo_utables ''api'' ''consul''" by code_simp
  moreover have "snd demo_answer ''api'' = Inr [?inst]" by (simp add: demo_answer_def)
  ultimately have "\<exists>r. Lookup demo_utables ''api'' r ?rt = Some (toBackend ?inst)"
    using run by fastforce
  moreover have "toBackend ?inst = \<lparr>be_ServiceID = ''api-1'', be_Address = ''http://10.0.0.1:80''\<rparr>" by code_simp
  ultimately show ?thesis by simp
qed

section \<open>Configuration\<close>

lemma hm_config_threshold:
  "1 \<le> FailureThreshold (hm_loadConfig getenv)" "is_int64 (FailureThreshold (hm_loadConfig getenv))"
  "RecoveryThreshold (hm_loadConfig getenv) = 2"
  by (auto simp: hm_loadConfig_def hm_DefaultConfig_def Let_def int_range_defs dest: envInt_range
      split: option.splits)

lemma envInt_Itoa: "getenv k = Itoa v \<Longrightarrow> is_int64 v \<Longrightarrow> 1 \<le> v \<Longrightarrow> envInt getenv k 1 = Some v"
  by (simp add: envInt_def Atoi_Itoa)

lemma wraps_negative:
  assumes "9223372036 < v" "v \<le> 18446744073"
  shows "wrap64 (v * Second) \<le> 0"
proof -
  let ?y = "v * 1000000000 + 9223372036854775808"
  have "?y mod 18446744073709551616 = (?y - 18446744073709551616) mod 18446744073709551616"
    by (rule minus_mod_self2 [symmetric])
  also have "\<dots> = ?y - 18446744073709551616" using assms by (intro mod_pos_pos_trivial) auto
  finally show ?thesis using assms by (simp add: wrap64_def)
qed

text \<open>C33: What the environment can set. Whatever it holds, the gateway gets a positive rate limit,
  window and breaker threshold, a retry count that is not negative, issuer and audience that are
  set and validated, and no empty allowed origin; and the health monitor gets positive
  thresholds. The periods of the loops are not checked for overflow: a number of seconds between
  9223372037 and 18446744073 becomes a negative period, and the loop panics.\<close>

theorem environment_configures:
  "config_ok (loadConfig getenv) \<and>
   1 \<le> FailureThreshold (hm_loadConfig getenv) \<and> is_int64 (FailureThreshold (hm_loadConfig getenv)) \<and>
   RecoveryThreshold (hm_loadConfig getenv) = 2 \<and>
   (if 9223372036 < v \<and> v \<le> 18446744073
    then (if getenv ''GATEWAY_ROUTE_REFRESH_SECONDS'' = Itoa v
          then \<exists>rt. RouteTable_Run u (sv, gi) es (NewRouteTable (Routing (loadConfig getenv))) = Panicked rt
          else True) \<and>
         (if getenv ''HEALTHMONITOR_PROBE_INTERVAL_SECONDS'' = Itoa v
          then Worker_Run pub first es' (NewWorker p NewCache (hm_loadConfig getenv)) =
             Panicked (NewWorker p NewCache (hm_loadConfig getenv))
          else True)
    else True)"
proof -
  have v: "is_int64 v \<and> 1 \<le> v" if "9223372036 < v" "v \<le> 18446744073"
    using that by (simp add: int_range_defs)
  have "RefreshInterval (Routing (loadConfig getenv)) = wrap64 (v * Second)"
    if "9223372036 < v" "v \<le> 18446744073" "getenv ''GATEWAY_ROUTE_REFRESH_SECONDS'' = Itoa v"
    using that v envInt_Itoa by (simp add: loadConfig_def Let_def)
  moreover have "ProbeInterval (hm_loadConfig getenv) = wrap64 (v * Second)"
    if "9223372036 < v" "v \<le> 18446744073" "getenv ''HEALTHMONITOR_PROBE_INTERVAL_SECONDS'' = Itoa v"
    using that v envInt_Itoa by (simp add: hm_loadConfig_def Let_def)
  moreover have "rt_config (refresh u sv gi rt) = rt_config rt" for rt by (cases sv) (simp_all add: refresh_def)
  ultimately show ?thesis
    using loadConfig_ok hm_config_threshold [of getenv] wraps_negative [of v]
    by (simp add: RouteTable_Run_def Worker_Run_def NewRouteTable_def NewWorker_def Let_def)
qed

section \<open>Connections\<close>

text \<open>
  What the AMQP client is relied on for: a successful dial opens one connection, closing it gives
  it back, also when the close reports an error, and nothing else opens or closes one.
\<close>

definition amqp_counts :: "('w, 'c, 'h) amqp \<Rightarrow> ('w \<Rightarrow> int) \<Rightarrow> bool" where
  "amqp_counts q conns \<longleftrightarrow>
     (\<forall>url w. case Dial q url w of
        (Inl _, w') \<Rightarrow> conns w' = conns w | (Inr _, w') \<Rightarrow> conns w' = conns w + 1) \<and>
     (\<forall>c w. conns (snd (Channel q c w)) = conns w) \<and>
     (\<forall>h w. conns (Channel_Close q h w) = conns w) \<and>
     (\<forall>c w. conns (snd (Connection_Close q c w)) = conns w - 1)"

definition publisher_conns :: "('c, 'h) Publisher \<Rightarrow> int" where
  "publisher_conns p = (case Publisher.conn p of None \<Rightarrow> 0 | Some _ \<Rightarrow> 1)"

lemma NewPublisher_conns:
  "amqp_counts q conns \<Longrightarrow>
   (case NewPublisher q url w of
      (Inl _, w') \<Rightarrow> conns w' = conns w
    | (Inr p, w') \<Rightarrow> conns w' = conns w + publisher_conns p)"
proof -
  assume law: "amqp_counts q conns"
  have dial: "conns (snd (Dial q url w)) = conns w + (case fst (Dial q url w) of Inl _ \<Rightarrow> 0 | Inr _ \<Rightarrow> 1)"
    using law [unfolded amqp_counts_def, THEN conjunct1, THEN spec [of _ url], THEN spec [of _ w]]
    by (simp add: split_beta split: sum.splits prod.splits)
  have chan: "conns (snd (Channel q c w1)) = conns w1" and close: "conns (snd (Connection_Close q c w1)) = conns w1 - 1"
    for c w1 using law by (auto simp: amqp_counts_def)
  show ?thesis
  proof (cases "Dial q url w")
    case (Pair d w1)
    show ?thesis
    proof (cases d)
      case (Inl err)
      then show ?thesis using Pair dial by (simp add: NewPublisher_def publisher_conns_def)
    next
      case (Inr c)
      then show ?thesis using Pair dial chan [of c w1] close
        by (cases "Channel q c w1") (auto simp: NewPublisher_def publisher_conns_def split: sum.splits)
    qed
  qed
qed

lemma Publisher_Close_conns:
  "amqp_counts q conns \<Longrightarrow> conns (snd (Publisher_Close q p w)) = conns w - publisher_conns p"
  by (auto simp: amqp_counts_def Publisher_Close_def publisher_conns_def Let_def split: option.splits)

text \<open>C29: No connection is leaked. Whichever step of the start fails, whether the server ends in an
  error or a shutdown and whether RabbitMQ is configured or not, when \<^verbatim>\<open>run\<close> of the discovery
  process or of the health monitor returns there are as many connections to the broker as
  before.\<close>

theorem no_connection_leaked:
  assumes "amqp_counts q conns"
    and "\<And>reg pub w. conns (snd (serve reg pub w)) = conns w"
    and "\<And>port cfg reg pub w. conns (snd (serve' port cfg reg pub w)) = conns w"
  shows "conns (snd (discoveryRun getenv newClient q listen serve w)) = conns w \<and>
    conns (snd (monitorRun getenv newClient q serve' w)) = conns w"
proof -
  let ?url = "getenv ''RABBITMQ_URL''"
  obtain res w1 where pub: "NewPublisher q ?url w = (res, w1)" by (cases "NewPublisher q ?url w")
  show ?thesis
  proof (cases res)
    case (Inl err)
    then show ?thesis using pub NewPublisher_conns [OF assms(1), where url = ?url and w = w]
      by (auto simp: discoveryRun_def monitorRun_def Let_def split: sum.splits)
  next
    case (Inr p)
    have w1: "conns w1 = conns w + publisher_conns p"
      using pub Inr NewPublisher_conns [OF assms(1), where url = ?url and w = w] by simp
    show ?thesis using pub Inr w1 assms(2,3)
      by (simp add: discoveryRun_def monitorRun_def Let_def Publisher_Close_conns [OF assms(1)] split_beta
          split: sum.splits option.splits)
  qed
qed

text \<open>A client library that only counts its connections and refuses every channel.\<close>

definition counting_amqp :: "(int, unit, unit) amqp" where
  "counting_amqp =
     \<lparr>Dial = (\<lambda>_ w. (Inr (), w + 1)), Channel = (\<lambda>_ w. (Inl ''channel limit'', w)),
      ExchangeDeclare = (\<lambda>_ _ _ w. (None, w)), PublishWithContext = (\<lambda>_ _ _ _ _ w. (None, w)),
      Channel_Close = (\<lambda>_ w. w), Connection_Close = (\<lambda>_ w. (None, w - 1))\<rparr>"

theorem no_connection_leaked_witness:
  "snd (discoveryRun (\<lambda>_. ''amqp://mq'') (\<lambda>_. None) counting_amqp (\<lambda>_. None) (\<lambda>_ _ w. (None, w)) 7) = 7"
  using no_connection_leaked [of counting_amqp id "\<lambda>_ _ w. (None, w)" "\<lambda>_ _ _ _ w. ([], w)"
      "\<lambda>_. ''amqp://mq''" "\<lambda>_. None" "\<lambda>_. None" 7]
  by (simp add: amqp_counts_def counting_amqp_def)

section \<open>The status interface\<close>

definition monitorPatterns :: "monitor_route pattern list" where
  "monitorPatterns =
     [\<lparr>pat_host = [], pat_method = ''GET'', pat_segments = [Lit ''health''], pat_route = LivenessRoute\<rparr>,
      \<lparr>pat_host = [], pat_method = ''GET'', pat_segments = [Lit ''api'', Lit ''status''], pat_route = StatusRoute\<rparr>,
      \<lparr>pat_host = [], pat_method = ''GET'', pat_segments = [Lit ''api'', Lit ''status'', Wild ''serviceName''],
       pat_route = ServiceRouteOf\<rparr>]"

lemma monitor_mux: "NewMux monitorRoutes [] = Some monitorPatterns"
proof -
  have "parsePattern ''GET /health'' x = \<lparr>pat_host = [], pat_method = ''GET'', pat_segments = [Lit ''health''], pat_route = x\<rparr>"
    "parsePattern ''GET /api/status'' x =
       \<lparr>pat_host = [], pat_method = ''GET'', pat_segments = [Lit ''api'', Lit ''status''], pat_route = x\<rparr>"
    "parsePattern ''GET /api/status/{serviceName}'' x =
       \<lparr>pat_host = [], pat_method = ''GET'', pat_segments = [Lit ''api'', Lit ''status'', Wild ''serviceName''], pat_route = x\<rparr>"
    for x :: monitor_route
    by (simp_all add: parsePattern_def splitPattern_def pathPattern_def literalSegment_def wildSegment_def
        HasSuffix_def pathUnescape_def)
  moreover have "validPattern ''GET /health''" "validPattern ''GET /api/status''"
    "validPattern ''GET /api/status/{serviceName}''" by code_simp+
  ultimately show ?thesis by (simp add: monitorRoutes_def monitorPatterns_def Handle_def conflicts_def)
qed

fun statusRoute :: "string list \<Rightarrow> (monitor_route \<times> string list) option" where
  "statusRoute [a] = (if a = ''health'' then Some (LivenessRoute, []) else None)"
| "statusRoute [a, b] = (if a = ''api'' \<and> b = ''status'' then Some (StatusRoute, []) else None)"
| "statusRoute [a, b, n] =
     (if a = ''api'' \<and> b = ''status'' \<and> n \<noteq> ''/'' then Some (ServiceRouteOf, [n]) else None)"
| "statusRoute _ = None"

lemma statusRoute_slash: "segs \<noteq> [] \<Longrightarrow> statusRoute (segs @ [''/'']) = None"
  by (cases segs rule: statusRoute.cases) simp_all

lemma statusRoute_slash_path:
  assumes "hd path = CHR ''/''" "path \<noteq> []" "\<not> HasSuffix path ''/''"
  shows "statusRoute (pathSegs (path @ ''/'')) = None"
proof -
  have "pathSegs path \<noteq> []" using assms by (simp add: pathSegs_def Let_def)
  then show ?thesis using assms statusRoute_slash by (simp add: pathSegs_slash HasSuffix_byte)
qed

lemma unescape_Nil: "unescape s = Some [] \<Longrightarrow> s = []"
  by (cases s) (auto split: if_splits list.splits option.splits)

lemma last_pathSegs: "path \<noteq> [] \<Longrightarrow> last (pathSegs path) \<noteq> []"
  using unescape_Nil by (auto simp: pathSegs_def Let_def pathUnescape_def split: option.splits)

lemma match_end: "matchSegs [([], p)] ss ms = (if ss = [] then Some (p, ms) else None)"
  by (cases ss) (simp_all add: matchSegs.simps below_def List.map_filter_def)

lemma match_service:
  "ss = [] \<or> last ss \<noteq> [] \<Longrightarrow> matchSegs [([], p), ([Wild n], q)] ss ms =
     (case ss of [] \<Rightarrow> Some (p, ms) | [s] \<Rightarrow> if s = ''/'' then None else Some (q, ms @ [s]) | _ \<Rightarrow> None)"
proof (cases ss)
  case (Cons s rest)
  assume "ss = [] \<or> last ss \<noteq> []"
  moreover have "below s [([], p), ([Wild n], q)] = (if s = [] then [([], q)] else [])"
    by (simp add: below_def List.map_filter_def)
  moreover have "below [] [([], p), ([Wild n], q)] = [([], q)]" "[([], p), ([Wild n], q)] = ([], p) # [([Wild n], q)]"
    by (simp_all add: below_def List.map_filter_def)
  ultimately show ?thesis using Cons by (auto simp: matchSegs.simps(2) [of _ s rest] match_end split: list.splits)
qed (simp add: matchSegs.simps)

lemma match_status:
  "a \<noteq> [] \<Longrightarrow> matchSegs [([Lit a], p), ([Lit a, Wild n], q)] ss ms =
     (case ss of [] \<Rightarrow> None | s # rest \<Rightarrow>
        if s = a then matchSegs [([], p), ([Wild n], q)] rest ms else None)"
proof (cases ss)
  case (Cons s rest)
  assume "a \<noteq> []"
  moreover have "below s [([Lit a], p), ([Lit a, Wild n], q)] = (if s = a then [([], p), ([Wild n], q)] else [])" for s
    by (simp add: below_def List.map_filter_def)
  ultimately show ?thesis using Cons by (auto simp: matchSegs.simps split: option.splits)
qed (simp add: matchSegs.simps)

lemma match_root:
  assumes "a \<noteq> b" "a \<noteq> []" "b \<noteq> []"
  shows "matchSegs [([Lit a], o1), ([Lit b, Lit c], p), ([Lit b, Lit c, Wild n], q)] ss ms =
     (case ss of [] \<Rightarrow> None | s # rest \<Rightarrow>
        if s = a then matchSegs [([], o1)] rest ms
        else if s = b then matchSegs [([Lit c], p), ([Lit c, Wild n], q)] rest ms else None)"
proof (cases ss)
  case (Cons s rest)
  have "below s [([Lit a], o1), ([Lit b, Lit c], p), ([Lit b, Lit c, Wild n], q)] =
      (if s = a then [([], o1)] else if s = b then [([Lit c], p), ([Lit c, Wild n], q)] else [])" for s
    using assms by (auto simp: below_def List.map_filter_def)
  then show ?thesis using Cons assms by (auto simp: matchSegs.simps split: option.splits)
qed (simp add: matchSegs.simps)

lemma monitor_match:
  "segs = [] \<or> last segs \<noteq> [] \<Longrightarrow> map_option (\<lambda>(p, ms). (pat_route p, ms)) (matchSegs (tree ''GET'' monitorPatterns) segs []) = statusRoute segs"
  by (cases segs rule: statusRoute.cases)
    (auto simp: tree_def monitorPatterns_def match_root match_status match_service match_end split: list.splits)

lemma monitor_method:
  "path \<noteq> [] \<Longrightarrow> map_option (\<lambda>(p, ms). (pat_route p, ms)) (matchMethod monitorPatterns meth path) =
     (if meth = ''GET'' \<or> meth = ''HEAD'' then statusRoute (pathSegs path) else None)"
proof -
  have "tree m monitorPatterns = []" if "m \<noteq> ''GET''" for m
    using that by (simp add: tree_def monitorPatterns_def)
  moreover assume "path \<noteq> []"
  ultimately show ?thesis
    unfolding matchMethod_def monitor_match [OF disjI2 [OF last_pathSegs [OF \<open>path \<noteq> []\<close>]], symmetric] Let_def
    by (auto split: option.splits)
qed

lemma monitor_exact: "path \<noteq> [] \<Longrightarrow> exactMatch (matchMethod monitorPatterns meth path) path \<longleftrightarrow>
    (meth = ''GET'' \<or> meth = ''HEAD'') \<and> statusRoute (pathSegs path) \<noteq> None"
proof (cases "matchMethod monitorPatterns meth path")
  case None
  moreover assume "path \<noteq> []"
  ultimately show ?thesis using monitor_method [of path meth] by (auto simp: exactMatch_def split: if_splits)
next
  assume path: "path \<noteq> []"
  case (Some r)
  obtain m where "matchSegs (tree m monitorPatterns) (pathSegs path) [] = Some r"
    using Some by (auto simp: matchMethod_def Let_def split: option.splits if_splits)
  then have "\<exists>xs. (xs, fst r) \<in> set (tree m monitorPatterns)" by (rule matchSegs_from)
  then have "last (pat_segments (fst r)) \<noteq> Multi"
    by (auto simp: tree_def monitorPatterns_def split: if_splits)
  then have "exactMatch (matchMethod monitorPatterns meth path) path"
    using Some by (simp add: exactMatch_def split_beta)
  moreover have "map_option (\<lambda>(p, ms). (pat_route p, ms)) (matchMethod monitorPatterns meth path) \<noteq> None"
    using Some by simp
  ultimately show ?thesis unfolding monitor_method [OF path] by (simp split: if_splits)
qed

lemma monitor_hostless: "hostless monitorPatterns"
  by (simp add: hostless_def monitorPatterns_def)

lemma monitor_methods:
  assumes "hd path = CHR ''/''" "path \<noteq> []"
  shows "matchingMethods monitorPatterns [] path =
    (if statusRoute (pathSegs path) \<noteq> None then [''GET'', ''HEAD''] else [])"
proof -
  have at_path: "methodsAt monitorPatterns q =
      (if statusRoute (pathSegs q) \<noteq> None then [''GET'', ''GET'', ''GET''] else [])" if "q \<noteq> []" for q
    unfolding monitor_match [OF disjI2 [OF last_pathSegs [OF that]], symmetric] by (simp add: methodsAt_def monitorPatterns_def)
  show ?thesis using get_head_sorted statusRoute_slash_path [OF assms] assms
    by (simp add: matchingMethods_def methodsOrSlash_def at_host_hostless [OF monitor_hostless] at_path)
qed

lemma monitor_find:
  assumes "rooted r"
  shows "findHandler monitorPatterns r =
    (if matchedPath r \<noteq> EscapedPath r then Redirect (cleanPath (EscapedPath r))
     else (case statusRoute (pathSegs (EscapedPath r)) of
       None \<Rightarrow> Missing
     | Some (rt, ms) \<Rightarrow>
         if Method r = ''GET'' \<or> Method r = ''HEAD'' then Found rt ms else NotAllowed [''GET'', ''HEAD'']))"
proof -
  let ?path = "matchedPath r"
  have root: "hd ?path = CHR ''/''" "?path \<noteq> []" using rooted_path [OF assms] by auto
  have "\<not> (\<not> HasSuffix ?path ''/'' \<and> exactMatch (matchMethod monitorPatterns (Method r) (?path @ ''/'')) (?path @ ''/''))"
    using statusRoute_slash_path [OF root] by (auto simp: monitor_exact)
  then have "findHandler monitorPatterns r =
      (if ?path \<noteq> EscapedPath r then Redirect ?path
       else (case map_option (\<lambda>(p, ms). (pat_route p, ms)) (matchMethod monitorPatterns (Method r) ?path) of
         Some (rt, ms) \<Rightarrow> Found rt ms
       | None \<Rightarrow> (case matchingMethods monitorPatterns [] ?path of [] \<Rightarrow> Missing | ms \<Rightarrow> NotAllowed ms)))"
    unfolding findHandler_hostless [OF monitor_hostless] Let_def by (auto split: option.splits)
  moreover have "?path \<noteq> EscapedPath r \<Longrightarrow> ?path = cleanPath (EscapedPath r)" by (auto simp: matchedPath_def)
  ultimately show ?thesis
    unfolding monitor_method [OF root(2)] monitor_methods [OF root] by (auto split: option.splits)
qed

text \<open>C27: The interface of the health monitor, for every request (a \<^verbatim>\<open>CONNECT\<close> request only when its path
  starts with a slash; its path is not cleaned). After a cycle, \<^verbatim>\<open>GET /api/status\<close> answers with one report for
  each instance ID that the registry listed in it and for no other, and \<^verbatim>\<open>GET /api/status/{serviceName}\<close>
  with those of the service, for every name of one segment but the escaped slash alone, unescaped;
  without any it answers \<^verbatim>\<open>null\<close> and status 200. Other methods on the three paths are 405 with the
  methods allowed. A path that is not clean is redirected to the clean one, and every other path is
  404, \<^verbatim>\<open>/api/status/\<close> and \<^verbatim>\<open>/api/status/%2F\<close> included.\<close>

theorem monitor_api:
  assumes "worker_wf w" and "rooted r"
    and "cache = w_cache (probeAll pub (Inr names) getInstances envs w)"
  shows "(\<exists>mux. NewMux monitorRoutes [] = Some mux \<and>
      monitorHandler redirect encode mux cache r rw =
        (if matchedPath r \<noteq> EscapedPath r then redirect (cleanPath (EscapedPath r)) r rw
         else (case statusRoute (pathSegs (EscapedPath r)) of
           None \<Rightarrow> NotFound rw
         | Some (rt, ms) \<Rightarrow>
             if Method r \<noteq> ''GET'' \<and> Method r \<noteq> ''HEAD''
             then http_Error ''Method Not Allowed'' 405 (on_header (Header_Set ''Allow'' ''GET, HEAD'') rw)
             else if rt = LivenessRoute then healthAnswer rw
             else (let reports = (if rt = StatusRoute then GetAll cache
                                  else filter (\<lambda>m. mi_ServiceName m = hd ms) (GetAll cache))
                   in Write (if rt \<noteq> StatusRoute \<and> reports = [] then ''null'' @ [CHR 0x0A] else encode reports)
                        (on_header (Header_Set ''Content-Type'' ''application/json'') rw))))) \<and>
    mi_ServiceID ` set (GetAll cache) = ServiceID ` set (listed getInstances names) \<and>
    distinct (map mi_ServiceID (GetAll cache))"
    (is "(\<exists>mux. _ mux \<and> _ mux = ?reply) \<and> _ \<and> _")
proof (intro conjI exI [of _ monitorPatterns])
  have "cache_wf cache" using worker_wf_probeAll [OF assms(1)] assms(3) by (simp add: worker_wf_def)
  then show "distinct (map mi_ServiceID (GetAll cache))" by (rule distinct_GetAll)
  show "mi_ServiceID ` set (GetAll cache) = ServiceID ` set (listed getInstances names)"
    unfolding assms(3) by (rule probeAll_IDs [OF assms(1)])
  have "filter (\<lambda>m. mi_ServiceName m = hd ms) (GetAll cache) = GetByService (hd ms) cache" for ms
    by (simp add: GetAll_def GetByService_def)
  then show "monitorHandler redirect encode monitorPatterns cache r rw = ?reply"
    by (auto simp: monitorHandler_def ServeMux_def monitor_find [OF assms(2)] monitorServe_def Let_def
        split: option.splits monitor_route.splits)
qed (rule monitor_mux)

theorem monitor_api_witness:
  "\<exists>mux. NewMux monitorRoutes [] = Some mux \<and>
     monitorHandler (\<lambda>_ _ w. w) (\<lambda>ms. concat (map mi_ServiceID ms)) mux
       (w_cache (probeAll record_event (Inr [''api'']) (\<lambda>_. Inr [demo_target ''a'' []]) (\<lambda>_. demo_probe_env) demo_worker))
       (demo_req ''/api/status/web'') new_writer =
     Write (''null'' @ [CHR 0x0A]) (on_header (Header_Set ''Content-Type'' ''application/json'') new_writer)"
proof -
  let ?cache = "w_cache (probeAll record_event (Inr [''api'']) (\<lambda>_. Inr [demo_target ''a'' []])
    (\<lambda>_. demo_probe_env) demo_worker)"
  have clean: "cleanPath ''/api/status/web'' = ''/api/status/web''" by (simp add: cleanPath_def cleanSegments_def)
  have segs: "pathSegs ''/api/status/web'' = [''api'', ''status'', ''web'']" by (simp add: pathSegs_def pathUnescape_def)
  have "filter (\<lambda>m. mi_ServiceName m = ''web'') (GetAll ?cache) = []" by code_simp
  then show ?thesis
    using monitor_api [OF demo_worker_wf, of "demo_req ''/api/status/web''" ?cache record_event "[''api'']"
        "\<lambda>_. Inr [demo_target ''a'' []]" "\<lambda>_. demo_probe_env" "\<lambda>_ _ w. w" "\<lambda>ms. concat (map mi_ServiceID ms)" new_writer]
      clean segs
    by (simp add: demo_req_def rooted_def matchedPath_def)
qed

end
