(* ===== verification/Process_Lifecycle.thy ===== *)
theory Process_Lifecycle
  imports Processes
begin

text \<open>
  How the processes of \<^verbatim>\<open>cmd\<close> live and die: \<^verbatim>\<open>main\<close>, the servers that \<^verbatim>\<open>run\<close> configures, and what happens
  from the moment at which \<^verbatim>\<open>run\<close> watches for signals to the exit. Three parties act: the goroutine that waits for the signal and
  then shuts the server down, the main goroutine in \<^verbatim>\<open>ListenAndServe\<close> or \<^verbatim>\<open>Serve\<close>, and the handlers of the
  requests in progress, which end with the process at the latest.

  Of \<^verbatim>\<open>net/http\<close> this uses what its documentation says of \<^verbatim>\<open>Shutdown\<close>: it closes the listeners, waits
  for the requests in progress as long as its context allows, and \<^verbatim>\<open>ListenAndServe\<close> returns
  \<^verbatim>\<open>ErrServerClosed\<close> at once when \<^verbatim>\<open>Shutdown\<close> is called, also when it has not listened yet. The server of
  gRPC is a library, and \<open>waits\<close> stands for what differs: its \<^verbatim>\<open>Serve\<close> returns only when \<^verbatim>\<open>GracefulStop\<close> is
  done, and returns \<^verbatim>\<open>ErrServerStopped\<close> when it is called after \<^verbatim>\<open>GracefulStop\<close>. A process can also fail to
  bind its port, fail to accept connections later on, and panic at any time (in a goroutine that
  nothing recovers, such as a background loop); a panic ends it with code 2.
\<close>

section \<open>Servers and exit codes\<close>

record http_Server =
  srv_Addr :: string
  srv_ReadTimeout :: duration
  srv_WriteTimeout :: duration
  srv_IdleTimeout :: duration

definition gatewayServer :: "gw_Config \<Rightarrow> http_Server" where
  "gatewayServer cfg =
     \<lparr>srv_Addr = '':'' @ cfg_Port cfg, srv_ReadTimeout = 15 * Second, srv_WriteTimeout = 30 * Second,
      srv_IdleTimeout = 60 * Second\<rparr>"

definition monitorServer :: "string \<Rightarrow> http_Server" where
  "monitorServer port =
     \<lparr>srv_Addr = '':'' @ port, srv_ReadTimeout = 10 * Second, srv_WriteTimeout = 10 * Second,
      srv_IdleTimeout = 60 * Second\<rparr>"

text \<open>How long \<^verbatim>\<open>Shutdown\<close> may take.\<close>

definition gatewayGrace :: duration where "gatewayGrace = 10 * Second"
definition monitorGrace :: duration where "monitorGrace = 5 * Second"

definition exitCode :: "error option \<Rightarrow> int" where
  "exitCode err = (case err of None \<Rightarrow> 0 | Some _ \<Rightarrow> 1)"

definition discoveryMain ::
  "getenv \<Rightarrow> (string option \<Rightarrow> error option) \<Rightarrow> ('w, 'c, 'h) amqp \<Rightarrow> (string \<Rightarrow> error option)
     \<Rightarrow> (Registry \<Rightarrow> ('c, 'h) Publisher \<Rightarrow> 'w \<Rightarrow> error option \<times> 'w) \<Rightarrow> 'w \<Rightarrow> int \<times> 'w" where
  "discoveryMain getenv newClient q listen serve w =
     (let (err, w') = discoveryRun getenv newClient q listen serve w in (exitCode err, w'))"

definition monitorMain ::
  "getenv \<Rightarrow> (string option \<Rightarrow> error option) \<Rightarrow> ('w, 'c, 'h) amqp
     \<Rightarrow> (string \<Rightarrow> hm_Config \<Rightarrow> Registry \<Rightarrow> ('c, 'h) Publisher \<Rightarrow> 'w \<Rightarrow> error \<times> 'w) \<Rightarrow> 'w \<Rightarrow> int \<times> 'w" where
  "monitorMain getenv newClient q serve w =
     (let (err, w') = monitorRun getenv newClient q serve w in (exitCode err, w'))"

text \<open>\<open>serve\<close> is \<^verbatim>\<open>ListenAndServe\<close>; a panic ends the process with code 2.\<close>

definition gatewayMain ::
  "getenv \<Rightarrow> (string option \<Rightarrow> error option) \<Rightarrow> (http_Server \<Rightarrow> gw_route pattern list \<Rightarrow> error) \<Rightarrow> int" where
  "gatewayMain getenv newClient serve =
     (case gatewayStart getenv newClient of
        Fails err \<Rightarrow> exitCode (Some err)
      | StartPanics \<Rightarrow> 2
      | Serves addr mux (cfg, s) \<Rightarrow> exitCode (gatewayStop (serve (gatewayServer cfg) mux)))"

section \<open>The life of a process\<close>

datatype listener = Unbound | Accepting | ListenerClosed | ListenerFailed

datatype watcher = Watching | ShuttingDown "time option" | WatcherDone

datatype main_pc = InServe | RunReturned "error option" | Exited int

record life =
  lf_now :: time
  lf_signalled :: bool
  lf_listener :: listener
  lf_served :: bool
  lf_watcher :: watcher
  lf_main :: main_pc
  lf_active :: "nat list"
  lf_answered :: "nat list"
  lf_cut :: "nat list"

definition newLife :: "time \<Rightarrow> life" where
  "newLife t =
     \<lparr>lf_now = t, lf_signalled = False, lf_listener = Unbound, lf_served = False, lf_watcher = Watching,
      lf_main = InServe, lf_active = [], lf_answered = [], lf_cut = []\<rparr>"

definition exited :: "life \<Rightarrow> bool" where
  "exited l \<longleftrightarrow> (\<exists>c. lf_main l = Exited c)"

text \<open>What the outside does: time passes, a signal arrives, the server starts to accept or cannot bind its
  port (also when it is being shut down and has not accepted before), accepting fails, requests come
  on the connections that have been accepted and are answered, a goroutine panics.\<close>

inductive outside :: "life \<Rightarrow> life \<Rightarrow> bool" where
  passes: "\<not> exited l \<Longrightarrow> 0 \<le> d \<Longrightarrow> outside l (l\<lparr>lf_now := lf_now l + d\<rparr>)"
| signal: "\<not> exited l \<Longrightarrow> outside l (l\<lparr>lf_signalled := True\<rparr>)"
| bound: "lf_main l = InServe \<Longrightarrow> lf_listener l = Unbound \<Longrightarrow>
    outside l (l\<lparr>lf_listener := Accepting, lf_served := True\<rparr>)"
| refused: "lf_main l = InServe \<Longrightarrow> \<not> lf_served l \<Longrightarrow> outside l (l\<lparr>lf_main := RunReturned (Some err)\<rparr>)"
| accept_fails: "lf_main l = InServe \<Longrightarrow> lf_listener l = Accepting \<Longrightarrow>
    outside l (l\<lparr>lf_listener := ListenerFailed, lf_main := RunReturned (Some err)\<rparr>)"
| request: "\<not> exited l \<Longrightarrow> lf_served l \<Longrightarrow> lf_watcher l \<noteq> WatcherDone \<Longrightarrow> r \<notin> set (lf_active l) \<Longrightarrow>
    outside l (l\<lparr>lf_active := r # lf_active l\<rparr>)"
| answer: "\<not> exited l \<Longrightarrow> r \<in> set (lf_active l) \<Longrightarrow>
    outside l (l\<lparr>lf_active := remove1 r (lf_active l), lf_answered := r # lf_answered l\<rparr>)"
| panics: "\<not> exited l \<Longrightarrow> outside l (l\<lparr>lf_main := Exited 2, lf_cut := lf_active l, lf_active := []\<rparr>)"

text \<open>What the process does by itself.\<close>

inductive inside :: "bool \<Rightarrow> duration option \<Rightarrow> life \<Rightarrow> life \<Rightarrow> bool" for waits grace where
  shutdown: "\<not> exited l \<Longrightarrow> lf_signalled l \<Longrightarrow> lf_watcher l = Watching \<Longrightarrow>
    inside waits grace l
      (l\<lparr>lf_listener := (if lf_listener l = ListenerFailed then ListenerFailed else ListenerClosed),
         lf_watcher := ShuttingDown (map_option (\<lambda>d. lf_now l + d) grace)\<rparr>)"
| drained: "\<not> exited l \<Longrightarrow> lf_watcher l = ShuttingDown d \<Longrightarrow> lf_active l = [] \<Longrightarrow>
    inside waits grace l (l\<lparr>lf_watcher := WatcherDone\<rparr>)"
| expired: "\<not> exited l \<Longrightarrow> lf_watcher l = ShuttingDown (Some t) \<Longrightarrow> t \<le> lf_now l \<Longrightarrow>
    inside waits grace l (l\<lparr>lf_watcher := WatcherDone\<rparr>)"
| serve_returns: "lf_main l = InServe \<Longrightarrow> lf_listener l = ListenerClosed \<Longrightarrow>
    waits \<and> lf_served l \<longrightarrow> lf_watcher l = WatcherDone \<Longrightarrow>
    inside waits grace l
      (l\<lparr>lf_main := RunReturned (if waits \<and> \<not> lf_served l then Some ''grpc: the server has been stopped'' else None)\<rparr>)"
| exits: "lf_main l = RunReturned err \<Longrightarrow>
    inside waits grace l
      (l\<lparr>lf_main := Exited (exitCode err), lf_cut := lf_active l, lf_active := []\<rparr>)"

inductive_cases insideE: "inside waits grace l l'"
inductive_cases outsideE: "outside l l'"

inductive living :: "bool \<Rightarrow> duration option \<Rightarrow> time \<Rightarrow> life \<Rightarrow> bool" for waits grace t0 where
  born: "living waits grace t0 (newLife t0)"
| outer: "living waits grace t0 l \<Longrightarrow> outside l l' \<Longrightarrow> living waits grace t0 l'"
| inner: "living waits grace t0 l \<Longrightarrow> inside waits grace l l' \<Longrightarrow> living waits grace t0 l'"

text \<open>The three processes.\<close>

abbreviation gateway_living :: "time \<Rightarrow> life \<Rightarrow> bool" where
  "gateway_living \<equiv> living False (Some gatewayGrace)"

abbreviation monitor_living :: "time \<Rightarrow> life \<Rightarrow> bool" where
  "monitor_living \<equiv> living False (Some monitorGrace)"

abbreviation discovery_living :: "time \<Rightarrow> life \<Rightarrow> bool" where
  "discovery_living \<equiv> living True None"

section \<open>Invariants\<close>

text \<open>What is known when \<^verbatim>\<open>run\<close> has returned. With \<open>waits\<close> and no limit to the shutdown no call is left when
  it is done.\<close>

definition returned_ok :: "bool \<Rightarrow> error option \<Rightarrow> life \<Rightarrow> bool" where
  "returned_ok waits err l \<longleftrightarrow>
     (case err of
        None \<Rightarrow> lf_signalled l \<and> lf_listener l = ListenerClosed \<and> (waits \<longrightarrow> lf_served l \<and> lf_watcher l = WatcherDone)
      | Some _ \<Rightarrow> (if lf_served l then lf_listener l = ListenerFailed else True))"

definition exited_ok :: "bool \<Rightarrow> int \<Rightarrow> life \<Rightarrow> bool" where
  "exited_ok waits c l \<longleftrightarrow> c = 2 \<or> (\<exists>err. c = exitCode err \<and> returned_ok waits err l)"

definition listener_ok :: "life \<Rightarrow> bool" where
  "listener_ok l \<longleftrightarrow>
     (lf_watcher l = Watching \<longrightarrow> lf_listener l \<noteq> ListenerClosed) \<and>
     (lf_watcher l \<noteq> Watching \<longrightarrow> (lf_listener l = ListenerClosed \<or> lf_listener l = ListenerFailed) \<and> lf_signalled l) \<and>
     (lf_listener l = Unbound \<longrightarrow> \<not> lf_served l) \<and>
     (lf_listener l = Accepting \<or> lf_listener l = ListenerFailed \<longrightarrow> lf_served l) \<and>
     (lf_main l = InServe \<longrightarrow> lf_listener l \<noteq> ListenerFailed)"

definition requests_ok :: "life \<Rightarrow> bool" where
  "requests_ok l \<longleftrightarrow> (\<not> lf_served l \<longrightarrow> lf_active l = [] \<and> lf_answered l = [] \<and> lf_cut l = []) \<and>
     (if exited l then lf_active l = [] else lf_cut l = [])"

definition main_ok :: "bool \<Rightarrow> life \<Rightarrow> bool" where
  "main_ok waits l \<longleftrightarrow>
     (case lf_main l of
        InServe \<Rightarrow> True
      | RunReturned err \<Rightarrow> returned_ok waits err l
      | Exited c \<Rightarrow> exited_ok waits c l)"

definition drain_ok :: "life \<Rightarrow> bool" where
  "drain_ok l \<longleftrightarrow>
     (lf_watcher l = WatcherDone \<longrightarrow> lf_active l = []) \<and> (\<forall>d. lf_watcher l \<noteq> ShuttingDown (Some d)) \<and>
     (lf_cut l \<noteq> [] \<longrightarrow> lf_main l = Exited 2 \<or> lf_main l = Exited 1 \<and> lf_listener l = ListenerFailed)"

definition life_ok :: "bool \<Rightarrow> duration option \<Rightarrow> life \<Rightarrow> bool" where
  "life_ok waits grace l \<longleftrightarrow>
     listener_ok l \<and> requests_ok l \<and> main_ok waits l \<and> (waits \<and> grace = None \<longrightarrow> drain_ok l)"

lemma listener_outside: "listener_ok l \<Longrightarrow> outside l l' \<Longrightarrow> listener_ok l'"
  by (erule outsideE) (auto simp: listener_ok_def)

lemma listener_inside: "listener_ok l \<Longrightarrow> inside waits grace l l' \<Longrightarrow> listener_ok l'"
  by (erule insideE) (auto simp: listener_ok_def)

lemma requests_outside: "requests_ok l \<Longrightarrow> outside l l' \<Longrightarrow> requests_ok l'"
  by (erule outsideE) (auto simp: requests_ok_def exited_def)

lemma requests_inside: "requests_ok l \<Longrightarrow> inside waits grace l l' \<Longrightarrow> requests_ok l'"
  by (erule insideE) (auto simp: requests_ok_def exited_def)

lemma main_outside: "listener_ok l \<Longrightarrow> main_ok waits l \<Longrightarrow> outside l l' \<Longrightarrow> main_ok waits l'"
  by (erule outsideE) (auto simp: main_ok_def exited_def exited_ok_def returned_ok_def split: main_pc.splits option.splits)

lemma main_inside:
  assumes "listener_ok l" and "main_ok waits l" and "inside waits grace l l'"
  shows "main_ok waits l'"
  using assms(3)
proof cases
  case shutdown
  show ?thesis
  proof (cases "lf_main l")
    case (RunReturned err)
    then have "returned_ok waits err l" using assms(2) by (simp add: main_ok_def)
    moreover have "lf_listener l \<noteq> ListenerClosed" using assms(1) shutdown by (simp add: listener_ok_def)
    ultimately have "returned_ok waits err l'" using shutdown by (cases err) (simp_all add: returned_ok_def)
    then show ?thesis using RunReturned shutdown by (simp add: main_ok_def)
  qed (use shutdown in \<open>simp_all add: main_ok_def exited_def\<close>)
next
  case (drained d)
  then show ?thesis using assms(2)
    by (auto simp: main_ok_def exited_def returned_ok_def split: main_pc.splits option.splits)
next
  case (expired t)
  then show ?thesis using assms(2)
    by (auto simp: main_ok_def exited_def returned_ok_def split: main_pc.splits option.splits)
next
  case serve_returns
  then show ?thesis using assms(1) by (auto simp: main_ok_def listener_ok_def returned_ok_def)
next
  case (exits err)
  have "returned_ok waits err l" using assms(2) exits by (simp add: main_ok_def)
  moreover have "returned_ok waits err l' = returned_ok waits err l" using exits by (cases err) (simp_all add: returned_ok_def)
  ultimately show ?thesis using exits by (auto simp: main_ok_def exited_ok_def)
qed

lemma drain_outside: "listener_ok l \<Longrightarrow> requests_ok l \<Longrightarrow> drain_ok l \<Longrightarrow> outside l l' \<Longrightarrow> drain_ok l'"
  by (erule outsideE) (auto simp: drain_ok_def requests_ok_def exited_def)

lemma drain_inside:
  "requests_ok l \<Longrightarrow> main_ok True l \<Longrightarrow> drain_ok l \<Longrightarrow> inside True None l l' \<Longrightarrow> drain_ok l'"
  by (erule insideE)
    (auto simp: drain_ok_def requests_ok_def main_ok_def returned_ok_def exitCode_def exited_def split: option.splits if_splits)

lemma life_ok_outside: "life_ok waits grace l \<Longrightarrow> outside l l' \<Longrightarrow> life_ok waits grace l'"
  unfolding life_ok_def by (blast intro: listener_outside requests_outside main_outside drain_outside)

lemma life_ok_inside: "life_ok waits grace l \<Longrightarrow> inside waits grace l l' \<Longrightarrow> life_ok waits grace l'"
  unfolding life_ok_def by (auto intro: listener_inside requests_inside main_inside drain_inside)

lemmas life_parts = life_ok_def listener_ok_def requests_ok_def main_ok_def drain_ok_def

lemma living_ok: "living waits grace t0 l \<Longrightarrow> life_ok waits grace l"
proof (induction rule: living.induct)
  case born
  then show ?case by (simp add: life_parts newLife_def exited_def)
qed (auto intro: life_ok_outside life_ok_inside)

text \<open>How many own steps are left at most.\<close>

definition rank :: "life \<Rightarrow> nat" where
  "rank l = (case lf_main l of InServe \<Rightarrow> 2 | RunReturned _ \<Rightarrow> 1 | Exited _ \<Rightarrow> 0) +
     (case lf_watcher l of Watching \<Rightarrow> 2 | ShuttingDown _ \<Rightarrow> 1 | WatcherDone \<Rightarrow> 0)"

lemma rank_inside: "inside waits grace l l' \<Longrightarrow> rank l' < rank l"
  by (erule insideE) (auto simp: rank_def)

lemma rank_outside: "outside l l' \<Longrightarrow> rank l' \<le> rank l \<and> (lf_signalled l \<longrightarrow> lf_signalled l')"
  by (erule outsideE) (auto simp: rank_def)

text \<open>The way out: the server is shut down, \<^verbatim>\<open>ListenAndServe\<close> returns, and the process exits.\<close>

lemma exit_from_return: "lf_main l = RunReturned err \<Longrightarrow> \<exists>l'. inside waits grace l l' \<and> exited l'"
  by (auto simp: exited_def intro!: exI [of _ "l\<lparr>lf_main := Exited (exitCode err), lf_cut := lf_active l, lf_active := []\<rparr>"]
      inside.exits)

lemma exit_from_closed:
  assumes "lf_main l = InServe" "lf_listener l = ListenerClosed"
  shows "\<exists>l'. (inside False grace ^^ 2) l l' \<and> exited l'"
proof -
  let ?l = "l\<lparr>lf_main := RunReturned None\<rparr>"
  have "inside False grace l ?l" using inside.serve_returns [OF assms, of False grace] by simp
  moreover obtain l' where "inside False grace ?l l'" "exited l'" using exit_from_return [of ?l None] by auto
  ultimately show ?thesis by (auto simp: numeral_2_eq_2)
qed

lemma exit_from_signal:
  assumes "life_ok False grace l" "lf_signalled l" "\<not> exited l"
  shows "\<exists>n l'. n \<le> 3 \<and> 0 < n \<and> (inside False grace ^^ n) l l' \<and> exited l'"
proof (cases "lf_main l")
  case (RunReturned err)
  then obtain l' where "inside False grace l l'" "exited l'" using exit_from_return by blast
  then show ?thesis by (intro exI [of _ 1] exI [of _ l']) auto
next
  case InServe
  show ?thesis
  proof (cases "lf_watcher l = Watching")
    case True
    let ?l = "l\<lparr>lf_listener := ListenerClosed, lf_watcher := ShuttingDown (map_option (\<lambda>d. lf_now l + d) grace)\<rparr>"
    have "lf_listener l \<noteq> ListenerFailed" using assms(1) InServe by (auto simp: life_ok_def listener_ok_def)
    then have "inside False grace l ?l" using inside.shutdown [OF assms(3,2) True, of False grace] by simp
    moreover obtain l' where "(inside False grace ^^ 2) ?l l'" "exited l'"
      using exit_from_closed [of ?l grace] InServe by auto
    ultimately have "(inside False grace ^^ Suc 2) l l'" by (intro relpowp_Suc_I2)
    then show ?thesis using \<open>exited l'\<close> by (intro exI [of _ 3] exI [of _ l']) (simp add: eval_nat_numeral)
  next
    case False
    then have "lf_listener l = ListenerClosed" using assms(1) InServe by (auto simp: life_ok_def listener_ok_def)
    then show ?thesis using exit_from_closed [OF InServe] by (intro exI [of _ 2]) auto
  qed
next
  case (Exited c)
  then show ?thesis using assms(3) by (simp add: exited_def)
qed

section \<open>Properties\<close>

text \<open>C30: A signal stops the gateway and the health monitor. At any time after it, whatever has happened
  before, the process can exit by at most three steps of its own; every own step brings it
  closer to the end, and nothing that the outside does undoes the progress or the signal.\<close>

theorem signal_stops_process:
  assumes "living False grace t0 l" and "lf_signalled l" and "\<not> exited l"
  shows "(\<exists>n l'. 0 < n \<and> n \<le> 3 \<and> (inside False grace ^^ n) l l' \<and> exited l') \<and>
    (\<forall>l'. inside False grace l l' \<longrightarrow> rank l' < rank l) \<and>
    (\<forall>l'. outside l l' \<longrightarrow> rank l' \<le> rank l \<and> lf_signalled l')"
  using exit_from_signal [OF living_ok [OF assms(1)] assms(2,3)] rank_inside rank_outside assms(2) by blast

lemma signalled_at_once: "living waits grace t0 ((newLife t0)\<lparr>lf_signalled := True\<rparr>)"
  by (intro living.outer [OF living.born] outside.signal) (simp add: newLife_def exited_def)

theorem signal_stops_process_witness:
  "\<exists>n l'. n \<le> 3 \<and> (inside False (Some gatewayGrace) ^^ n) ((newLife 0)\<lparr>lf_signalled := True\<rparr>) l' \<and> exited l'"
  using signal_stops_process [OF signalled_at_once [of False "Some gatewayGrace" 0]]
  by (auto simp: newLife_def exited_def)

text \<open>A process in which a request is in progress when the signal comes.\<close>

definition busyLife :: "time \<Rightarrow> nat \<Rightarrow> life" where
  "busyLife t r = (newLife t)\<lparr>lf_listener := Accepting, lf_served := True, lf_active := [r], lf_signalled := True\<rparr>"

lemma busy_living: "living waits grace t0 (busyLife t0 r)"
proof -
  have "living waits grace t0 ((newLife t0)\<lparr>lf_listener := Accepting, lf_served := True\<rparr>)"
    by (intro living.outer [OF living.born] outside.bound) (simp_all add: newLife_def)
  then have "living waits grace t0 ((newLife t0)\<lparr>lf_listener := Accepting, lf_served := True, lf_active := [r]\<rparr>)"
    by (rule living.outer) (use outside.request [of "(newLife t0)\<lparr>lf_listener := Accepting, lf_served := True\<rparr>" r] in
      \<open>simp add: newLife_def exited_def\<close>)
  then show ?thesis
    by (rule living.outer) (use outside.signal [of "(newLife t0)\<lparr>lf_listener := Accepting, lf_served := True, lf_active := [r]\<rparr>"] in
      \<open>simp add: busyLife_def newLife_def exited_def\<close>)
qed

lemma busy_cut:
  "\<exists>l. living False (Some d) t0 l \<and> lf_main l = Exited 0 \<and> lf_cut l = [r] \<and> lf_now l = t0 \<and>
     lf_watcher l = ShuttingDown (Some (t0 + d))"
proof -
  let ?l1 = "(busyLife t0 r)\<lparr>lf_listener := ListenerClosed, lf_watcher := ShuttingDown (Some (t0 + d))\<rparr>"
  let ?l2 = "?l1\<lparr>lf_main := RunReturned None\<rparr>"
  have "inside False (Some d) (busyLife t0 r) ?l1"
    using inside.shutdown [of "busyLife t0 r" False "Some d"] by (simp add: busyLife_def newLife_def exited_def)
  then have "living False (Some d) t0 ?l1" by (rule living.inner [OF busy_living])
  moreover have "inside False (Some d) ?l1 ?l2"
    using inside.serve_returns [of ?l1 False "Some d"] by (simp add: busyLife_def newLife_def)
  ultimately have l2: "living False (Some d) t0 ?l2" by (rule living.inner)
  have "inside False (Some d) ?l2 (?l2\<lparr>lf_main := Exited (exitCode None), lf_cut := lf_active ?l2, lf_active := []\<rparr>)"
    by (rule inside.exits) simp
  from living.inner [OF l2 this] show ?thesis
    by (intro exI [of _ "?l2\<lparr>lf_main := Exited (exitCode None), lf_cut := lf_active ?l2, lf_active := []\<rparr>"])
      (simp add: exitCode_def busyLife_def newLife_def)
qed

text \<open>C31: The graceful shutdown is not waited for. The gateway and the health monitor can exit, with
  code 0 and at the very moment of the signal, while a request is in progress and \<^verbatim>\<open>Shutdown\<close> has
  all of its ten or five seconds left: \<^verbatim>\<open>run\<close> returns as soon as \<^verbatim>\<open>ListenAndServe\<close> does, and nobody waits
  for the goroutine that called \<^verbatim>\<open>Shutdown\<close>.\<close>

theorem shutdown_cuts_requests:
  "(\<exists>l. gateway_living t0 l \<and> lf_main l = Exited 0 \<and> lf_cut l = [r] \<and> lf_now l = t0 \<and>
      lf_watcher l = ShuttingDown (Some (t0 + 10 * Second))) \<and>
   (\<exists>l. monitor_living t0 l \<and> lf_main l = Exited 0 \<and> lf_cut l = [r] \<and> lf_now l = t0 \<and>
      lf_watcher l = ShuttingDown (Some (t0 + 5 * Second)))"
  using busy_cut [of gatewayGrace t0 r] busy_cut [of monitorGrace t0 r]
  by (simp add: gatewayGrace_def monitorGrace_def)

lemma early_stop:
  "\<exists>l. discovery_living t0 l \<and> lf_main l = Exited 1 \<and> lf_signalled l \<and> lf_listener l = ListenerClosed"
proof -
  let ?l0 = "(newLife t0)\<lparr>lf_signalled := True\<rparr>"
  let ?l1 = "?l0\<lparr>lf_listener := ListenerClosed, lf_watcher := ShuttingDown None\<rparr>"
  let ?l2 = "?l1\<lparr>lf_main := RunReturned (Some ''grpc: the server has been stopped'')\<rparr>"
  have "inside True None ?l0 ?l1"
    using inside.shutdown [of ?l0 True None] by (simp add: newLife_def exited_def)
  then have "discovery_living t0 ?l1" by (rule living.inner [OF signalled_at_once])
  moreover have "inside True None ?l1 ?l2"
    using inside.serve_returns [of ?l1 True None] by (simp add: newLife_def)
  ultimately have "discovery_living t0 ?l2" by (rule living.inner)
  from living.inner [OF this inside.exits [of ?l2]] show ?thesis
    by (intro exI [of _ "?l2\<lparr>lf_main := Exited 1, lf_cut := lf_active ?l2, lf_active := []\<rparr>"]) (simp add: exitCode_def)
qed

text \<open>C32: How the processes end, once they watch for signals, if nobody kills them. Until the exit no
  request is cut off. The code is 0, 1 or 2: code 0 means that a signal came and the server was shut
  down, and for the discovery server that it had served and its graceful stop was complete; code 1
  means that the server never accepted a connection (and then no request is answered or
  cut off) or that accepting failed later on; code 2 is a panic. The discovery server, whose \<^verbatim>\<open>Serve\<close>
  returns when all calls are done, cuts calls off only when accepting fails or when it panics. A
  signal that comes before its \<^verbatim>\<open>Serve\<close> is called can make it exit with code 1 although nothing has
  failed.\<close>

theorem process_exits:
  assumes "living waits grace t0 l"
  shows "(case lf_main l of
      Exited c \<Rightarrow> lf_active l = [] \<and>
        (c = 0 \<and> lf_signalled l \<and> lf_listener l = ListenerClosed \<and>
           (if waits then lf_served l \<and> lf_watcher l = WatcherDone else True) \<or>
         c = 1 \<and> (if lf_served l then lf_listener l = ListenerFailed else lf_answered l = [] \<and> lf_cut l = []) \<or>
         c = 2)
    | _ \<Rightarrow> lf_cut l = []) \<and>
    (if waits \<and> grace = None \<and> lf_cut l \<noteq> []
     then lf_main l = Exited 2 \<or> lf_main l = Exited 1 \<and> lf_listener l = ListenerFailed else True) \<and>
    (\<exists>l. discovery_living t0 l \<and> lf_main l = Exited 1 \<and> lf_signalled l \<and> lf_listener l = ListenerClosed)"
proof (intro conjI)
  have ok: "life_ok waits grace l" using assms by (rule living_ok)
  then show "case lf_main l of
      Exited c \<Rightarrow> lf_active l = [] \<and>
        (c = 0 \<and> lf_signalled l \<and> lf_listener l = ListenerClosed \<and>
           (if waits then lf_served l \<and> lf_watcher l = WatcherDone else True) \<or>
         c = 1 \<and> (if lf_served l then lf_listener l = ListenerFailed else lf_answered l = [] \<and> lf_cut l = []) \<or>
         c = 2)
    | _ \<Rightarrow> lf_cut l = []"
    by (auto simp: life_parts exited_def exited_ok_def returned_ok_def exitCode_def split: main_pc.splits option.splits)
  show "if waits \<and> grace = None \<and> lf_cut l \<noteq> []
     then lf_main l = Exited 2 \<or> lf_main l = Exited 1 \<and> lf_listener l = ListenerFailed else True"
    using ok by (simp add: life_ok_def drain_ok_def)
qed (rule early_stop)

theorem process_exits_witness:
  "\<exists>l. gateway_living 0 l \<and> lf_main l = Exited 0 \<and> lf_cut l = [7] \<and> lf_signalled l \<and> lf_listener l = ListenerClosed"
proof -
  obtain l where l: "gateway_living 0 l" "lf_main l = Exited 0" "lf_cut l = [7]"
    using busy_cut [of gatewayGrace 0 7] by auto
  from process_exits [OF l(1)] show ?thesis using l by (intro exI [of _ l]) simp
qed

end
