(* ===== verification/Interleaving.thy ===== *)
theory Interleaving
  imports Main "HOL-Library.Multiset"
begin

text \<open>
  Threads over a shared state. A thread is a value that holds its program counter and its local
  variables, and \<open>step\<close> is what it does atomically: it goes on to its next point and changes the
  shared state. In an interleaving one thread after the other takes its next step, in any order.

  The locale \<open>conserved\<close> is the argument that the counters of the program share: every step moves
  as much from the thread to the shared state as it takes from it, so that the sum over all
  threads is kept whatever the schedule; in \<open>charged\<close> it takes at most that much. The locale
  \<open>mutual_exclusion\<close> is what a mutex gives. The locale \<open>thread_progress\<close> says when every thread ends.
\<close>

inductive interleaved :: "('t \<Rightarrow> 's \<Rightarrow> 't \<times> 's) \<Rightarrow> 't list \<Rightarrow> 's \<Rightarrow> 't list \<Rightarrow> 's \<Rightarrow> bool"
  for step ts0 s0 where
  here: "interleaved step ts0 s0 ts0 s0"
| turn: "interleaved step ts0 s0 ts s \<Longrightarrow> k < length ts \<Longrightarrow> step (ts ! k) s = (t', s') \<Longrightarrow>
    interleaved step ts0 s0 (ts[k := t']) s'"

lemma interleaved_length: "interleaved step ts0 s0 ts s \<Longrightarrow> length ts = length ts0"
  by (induction rule: interleaved.induct) auto

lemma interleaved_trans:
  "interleaved step ts1 s1 ts2 s2 \<Longrightarrow> interleaved step ts0 s0 ts1 s1 \<Longrightarrow> interleaved step ts0 s0 ts2 s2"
  by (induction rule: interleaved.induct) (auto intro: interleaved.turn)

text \<open>What no step of a thread changes.\<close>

lemma interleaved_constant:
  assumes "interleaved step ts0 s0 ts s" and "\<And>t s t' s'. step t s = (t', s') \<Longrightarrow> h t' = h t"
  shows "map h ts = map h ts0"
  using assms(1)
proof (induction rule: interleaved.induct)
  case (turn ts s k t' s')
  have "map h (ts[k := t']) = map h ts"
    by (rule nth_equalityI) (use assms(2) [OF turn.hyps(3)] turn.hyps(2) in \<open>auto simp: nth_list_update\<close>)
  then show ?case using turn.IH by simp
qed simp

text \<open>A schedule, given by whose turn it is.\<close>

fun scheduled :: "('t \<Rightarrow> 's \<Rightarrow> 't \<times> 's) \<Rightarrow> nat list \<Rightarrow> 't list \<times> 's \<Rightarrow> 't list \<times> 's" where
  "scheduled step [] x = x"
| "scheduled step (k # ks) x =
     scheduled step ks
       (if k < length (fst x)
        then (case step (fst x ! k) (snd x) of (t', s') \<Rightarrow> ((fst x)[k := t'], s')) else x)"

lemma scheduled_interleaved:
  "interleaved step ts0 s0 (fst (scheduled step ks (ts0, s0))) (snd (scheduled step ks (ts0, s0)))"
proof -
  have "interleaved step ts0 s0 (fst x) (snd x) \<Longrightarrow>
      interleaved step ts0 s0 (fst (scheduled step ks x)) (snd (scheduled step ks x))" for x
  proof (induction ks arbitrary: x)
    case (Cons k ks)
    obtain t' s' where t': "step (fst x ! k) (snd x) = (t', s')" by (cases "step (fst x ! k) (snd x)")
    show ?case
    proof (cases "k < length (fst x)")
      case True
      then show ?thesis using Cons.IH [of "((fst x)[k := t'], s')"] interleaved.turn [OF Cons.prems True t'] t' by simp
    qed (use Cons in simp)
  qed simp
  then show ?thesis by (simp add: interleaved.here)
qed

text \<open>One thread alone, run for some steps.\<close>

fun run_alone :: "('t \<Rightarrow> 's \<Rightarrow> 't \<times> 's) \<Rightarrow> nat \<Rightarrow> 't \<times> 's \<Rightarrow> 't \<times> 's" where
  "run_alone step 0 x = x"
| "run_alone step (Suc n) x = run_alone step n (step (fst x) (snd x))"

lemma run_alone_add: "run_alone step (m + n) x = run_alone step n (run_alone step m x)"
  by (induction step m x rule: run_alone.induct) auto

lemma run_alone_step: "step t s = x \<Longrightarrow> run_alone step (Suc n) (t, s) = run_alone step n x"
  by simp

text \<open>An invariant of the shared state together with what holds of each thread by itself.\<close>

lemma interleaved_invariant:
  assumes "interleaved step ts0 s0 ts s" and "I s0" and "list_all J ts0"
    and "\<And>t s t' s'. I s \<Longrightarrow> J t \<Longrightarrow> step t s = (t', s') \<Longrightarrow> I s' \<and> J t'"
  shows "I s \<and> list_all J ts"
  using assms(1)
proof (induction rule: interleaved.induct)
  case (turn ts s k t' s')
  then have "I s' \<and> J t'" using assms(4) [of s "ts ! k"] by (simp add: list_all_length)
  then show ?case using turn by (simp add: list_all_length nth_list_update)
qed (use assms(2,3) in simp)

lemma list_all_update: "list_all P xs \<Longrightarrow> P x \<Longrightarrow> list_all P (xs[k := x])"
  using set_update_subset_insert [of xs k x] by (auto simp: list_all_iff)

lemma sum_list_move:
  "k < length ts \<Longrightarrow> sum_list (map g (ts[k := t'])) + g (ts ! k) = sum_list (map g ts) + (g t' :: 'a :: comm_monoid_add)"
proof (induction ts arbitrary: k)
  case (Cons t ts)
  show ?case
  proof (cases k)
    case (Suc j)
    then show ?thesis using Cons by (simp add: ac_simps)
  qed (simp add: ac_simps)
qed simp

lemma length_filter_sum: "length (filter P ts) = sum_list (map (\<lambda>t. of_bool (P t)) ts)"
  by (induction ts) auto

locale conserved =
  fixes step :: "'t \<Rightarrow> 's \<Rightarrow> 't \<times> 's"
    and I :: "'s \<Rightarrow> bool"
    and J :: "'t \<Rightarrow> bool"
    and f :: "'s \<Rightarrow> 'a :: cancel_comm_monoid_add"
    and g :: "'t \<Rightarrow> 'a"
  assumes step_inv: "I s \<Longrightarrow> J t \<Longrightarrow> step t s = (t', s') \<Longrightarrow> I s' \<and> J t'"
    and step_moves: "I s \<Longrightarrow> J t \<Longrightarrow> step t s = (t', s') \<Longrightarrow> f s' + g t = f s + g t'"
begin

lemma interleaved_inv:
  "interleaved step ts0 s0 ts s \<Longrightarrow> I s0 \<Longrightarrow> list_all J ts0 \<Longrightarrow> I s \<and> list_all J ts"
  using step_inv by (intro interleaved_invariant)

lemma interleaved_sum:
  "interleaved step ts0 s0 ts s \<Longrightarrow> I s0 \<Longrightarrow> list_all J ts0 \<Longrightarrow>
     f s + sum_list (map g ts0) = f s0 + sum_list (map g ts)"
proof (induction rule: interleaved.induct)
  case (turn ts s k t' s')
  have ok: "I s" "J (ts ! k)" using interleaved_inv [OF turn.hyps(1) turn.prems] turn.hyps(2)
    by (auto simp: list_all_length)
  have "f s' + sum_list (map g ts0) + g (ts ! k) = (f s' + g (ts ! k)) + sum_list (map g ts0)"
    by (simp add: ac_simps)
  also have "\<dots> = f s + g t' + sum_list (map g ts0)" using step_moves [OF ok turn.hyps(3)] by simp
  also have "\<dots> = (f s + sum_list (map g ts0)) + g t'" by (simp add: ac_simps)
  also have "\<dots> = f s0 + (sum_list (map g ts) + g t')" using turn.IH [OF turn.prems] by (simp add: add.assoc)
  also have "\<dots> = f s0 + sum_list (map g (ts[k := t'])) + g (ts ! k)"
    using sum_list_move [OF turn.hyps(2), of g t'] by (simp add: ac_simps)
  finally show ?case by simp
qed simp

end

text \<open>A budget: what the threads hold together has been charged to the shared state.\<close>

locale charged =
  fixes step :: "'t \<Rightarrow> 's \<Rightarrow> 't \<times> 's"
    and I :: "'s \<Rightarrow> bool"
    and spent :: "'s \<Rightarrow> nat"
    and gained :: "'t \<Rightarrow> nat"
  assumes step_keeps: "I s \<Longrightarrow> step t s = (t', s') \<Longrightarrow> I s'"
    and step_charges: "I s \<Longrightarrow> step t s = (t', s') \<Longrightarrow> gained t' + spent s \<le> gained t + spent s'"
begin

lemma interleaved_keeps: "interleaved step ts0 s0 ts s \<Longrightarrow> I s0 \<Longrightarrow> I s"
  by (induction rule: interleaved.induct) (auto intro: step_keeps)

lemma interleaved_charged:
  "interleaved step ts0 s0 ts s \<Longrightarrow> I s0 \<Longrightarrow>
     sum_list (map gained ts) + spent s0 \<le> sum_list (map gained ts0) + spent s"
proof (induction rule: interleaved.induct)
  case (turn ts s k t' s')
  then show ?case
    using sum_list_move [OF turn.hyps(2), of gained t'] step_charges [OF interleaved_keeps turn.hyps(3)] by fastforce
qed simp

end

text \<open>A mutex: a thread that does not hold it gets it only while nobody does.\<close>

locale mutual_exclusion =
  fixes step :: "'t \<Rightarrow> 's \<Rightarrow> 't \<times> 's"
    and held :: "'s \<Rightarrow> bool"
    and holds :: "'t \<Rightarrow> bool"
  assumes acquires: "step t s = (t', s') \<Longrightarrow> \<not> holds t \<Longrightarrow>
      if holds t' then \<not> held s \<and> held s' else held s' = held s"
    and releases: "step t s = (t', s') \<Longrightarrow> holds t \<Longrightarrow> if holds t' then held s' = held s else \<not> held s'"
begin

lemma exclusive:
  "interleaved step ts0 s0 ts s \<Longrightarrow> \<not> held s0 \<Longrightarrow> list_all (\<lambda>t. \<not> holds t) ts0 \<Longrightarrow>
     (held s \<longleftrightarrow> (\<exists>k < length ts. holds (ts ! k))) \<and>
     (\<forall>j < length ts. \<forall>k < length ts. holds (ts ! j) \<longrightarrow> holds (ts ! k) \<longrightarrow> j = k)"
proof (induction rule: interleaved.induct)
  case here
  then show ?case by (auto simp: list_all_length)
next
  case (turn ts s k t' s')
  note IH = turn.IH [OF turn.prems]
  show ?case
  proof (cases "holds (ts ! k)")
    case True
    then have "holds (ts ! j) \<longleftrightarrow> j = k" if "j < length ts" for j using IH turn.hyps(2) that by blast
    moreover have "held s" using True IH turn.hyps(2) by blast
    ultimately show ?thesis using releases [OF turn.hyps(3) True] turn.hyps(2)
      by (cases "holds t'") (auto simp: nth_list_update)
  next
    case False
    show ?thesis
    proof (cases "holds t'")
      case True
      then have "\<not> held s" "held s'" using acquires [OF turn.hyps(3) False] by simp_all
      then have "\<not> holds (ts ! j)" if "j < length ts" for j using IH that by blast
      then show ?thesis using \<open>held s'\<close> True turn.hyps(2) by (auto simp: nth_list_update)
    next
      case no: False
      then have same: "held s' = held s" using acquires [OF turn.hyps(3) False] by simp
      have "holds (ts[k := t'] ! j) \<longleftrightarrow> holds (ts ! j)" if "j < length ts" for j
        using no False that by (cases "j = k") auto
      then show ?thesis using IH same by auto
    qed
  qed
qed

end

text \<open>Every turn brings a thread that is not done closer to its end, whatever the others do.\<close>

locale thread_progress =
  fixes step :: "'t \<Rightarrow> 's \<Rightarrow> 't \<times> 's"
    and left :: "'t \<Rightarrow> nat"
  assumes step_left: "step t s = (t', s') \<Longrightarrow> left t' \<le> left t - 1"
begin

lemma alone_left: "left (fst (run_alone step n (t, s))) \<le> left t - n"
proof (induction n arbitrary: t s)
  case (Suc n)
  obtain t' s' where "step t s = (t', s')" by (cases "step t s")
  then show ?case using Suc [of t' s'] step_left [of t s t' s'] by simp
qed simp

lemma scheduled_left:
  "k < length (fst x) \<Longrightarrow> left (fst (scheduled step ks x) ! k) \<le> left (fst x ! k) - count_list ks k"
proof (induction ks arbitrary: x)
  case (Cons j ks)
  obtain t' s' where st: "step (fst x ! j) (snd x) = (t', s')" by (cases "step (fst x ! j) (snd x)")
  let ?x = "if j < length (fst x) then ((fst x)[j := t'], s') else x"
  have "left (fst (scheduled step ks ?x) ! k) \<le> left (fst ?x ! k) - count_list ks k"
    using Cons.IH [of ?x] Cons.prems by simp
  moreover have "left (fst ?x ! k) \<le> left (fst x ! k) - (if j = k then 1 else 0)"
    using step_left [OF st] Cons.prems by auto
  ultimately show ?case using st by (auto split: if_splits)
qed simp

end

end
