(* ===== verification/Balancer_Threads.thy ===== *)
theory Balancer_Threads
  imports Load_Balancer Interleaving
begin

text \<open>
  The load balancer under concurrent callers (\<^verbatim>\<open>internal/router/balancer.go\<close>). The maps are
  guarded by \<^verbatim>\<open>lb.mu\<close>, but the counters in them are \<^verbatim>\<open>atomic.Int64\<close>s that \<^verbatim>\<open>Select\<close> reads and adds to
  after it has released the mutex, so that a selection is several atomic steps: looking up a
  counter (under the mutex), loading it or adding to it (without), recording the request (under
  the mutex). A report holds the mutex while it loads and decrements one counter after the other,
  and selections add to the same counters meanwhile. A thread that needs the mutex while another
  holds it waits: its turn changes nothing.

  The lemmas show that a call alone does what the sequential model does, that the rotations stay
  fair, and that the connection counts stay exact, whatever the schedule.
\<close>

section \<open>Steps\<close>

datatype lb_call =
    SelectCall string "error + Instance list" Context nat
  | ReportCall string RequestResult
  | StatsCall string

datatype lb_return = Selected "(error + Instance option) outcome" | Reported | StatsOf Stats

text \<open>Where a call is: \<open>Counting\<close> has the pointer to a rotation counter, \<open>Scanning\<close> has the instances
  still to be compared with the best one so far, \<open>Loading\<close> and \<open>Adding\<close> have the pointer to a
  connection counter, \<open>Chose\<close> has to record the request. \<open>Releasing\<close> and \<open>Dropping\<close> hold the mutex.\<close>

datatype lb_pc =
    Begin
  | Counting string "Instance list"
  | Scanning "Instance list" "Instance option" int
  | Loading Instance "Instance list" "Instance option" int
  | Adding Instance
  | Chose Instance
  | Releasing "string list"
  | Dropping string "string list"
  | Done lb_return

type_synonym lb_thread = "lb_call \<times> lb_pc"

record shared_lb =
  lb_mu :: bool
  lb_data :: LoadBalancer

definition free_lb :: "LoadBalancer \<Rightarrow> shared_lb" where
  "free_lb lb = \<lparr>lb_mu = False, lb_data = lb\<rparr>"

text \<open>A critical section that loads no counter another thread may add to is one step.\<close>

definition locked :: "lb_pc \<Rightarrow> lb_pc \<Rightarrow> (LoadBalancer \<Rightarrow> LoadBalancer) \<Rightarrow> shared_lb \<Rightarrow> lb_pc \<times> shared_lb" where
  "locked here there f s = (if lb_mu s then (here, s) else (there, s\<lparr>lb_data := f (lb_data s)\<rparr>))"

definition touchCounter :: "string \<Rightarrow> string \<Rightarrow> LoadBalancer \<Rightarrow> LoadBalancer" where
  "touchCounter name i lb =
     lb\<lparr>connectionCount :=
       gm_set name (snd (getOrCreateCounter i (lb_counts lb name))) (connectionCount lb)\<rparr>"

definition addCounter :: "string \<Rightarrow> string \<Rightarrow> int64 \<Rightarrow> LoadBalancer \<Rightarrow> LoadBalancer" where
  "addCounter name i d lb =
     lb\<lparr>connectionCount :=
       gm_set name (gm_set i (gm_get_or 0 (lb_counts lb name) i + d) (lb_counts lb name))
         (connectionCount lb)\<rparr>"

definition addRoundRobin :: "string \<Rightarrow> LoadBalancer \<Rightarrow> int64 \<times> LoadBalancer" where
  "addRoundRobin k lb =
     (let n = rr_counter lb k + 1 in (n, lb\<lparr>roundRobinIdx := gm_set k n (roundRobinIdx lb)\<rparr>))"

fun chosen :: "Instance outcome \<Rightarrow> lb_pc" where
  "chosen Panics = Done (Selected Panics)"
| "chosen (Returns inst) = Chose inst"

fun select_step ::
  "unicode_tables \<Rightarrow> string \<Rightarrow> error + Instance list \<Rightarrow> Context \<Rightarrow> nat \<Rightarrow> lb_pc \<Rightarrow> shared_lb
     \<Rightarrow> lb_pc \<times> shared_lb" where
  "select_step u name answer ctx r Begin s =
     (case answer of
        Inl err \<Rightarrow> (Done (Selected (Returns (Inl err))), s)
      | Inr instances \<Rightarrow>
          (let cs = candidates instances
           in if length cs = 0 then (Done (Selected (Returns (Inr None))), s)
              else (case resolveStrategy u cs of
                      LeastConnections \<Rightarrow>
                        locked Begin (Scanning cs None (- 1)) (\<lambda>lb. snd (getConnectionCounts name lb)) s
                    | WeightedRoundRobin \<Rightarrow>
                        locked Begin (Counting (name @ ''-weighted'') (expandWeights cs))
                          (\<lambda>lb. snd (getRoundRobinIdx (name @ ''-weighted'') lb)) s
                    | IPHash \<Rightarrow> (chosen (selectIPHash cs ctx r), s)
                    | Random \<Rightarrow> (chosen (selectRandom cs r), s)
                    | RoundRobin \<Rightarrow>
                        locked Begin (Counting name cs) (\<lambda>lb. snd (getRoundRobinIdx name lb)) s)))"
| "select_step u name answer ctx r (Counting k instances) s =
     (let (n, lb) = addRoundRobin k (lb_data s)
      in (chosen (if length instances = 0 then Panics
                  else index instances (sint (abs64 n) smod int (length instances))),
          s\<lparr>lb_data := lb\<rparr>))"
| "select_step u name answer ctx r (Scanning (inst # rest) best bestCount) s =
     locked (Scanning (inst # rest) best bestCount) (Loading inst rest best bestCount)
       (touchCounter name (ServiceID inst)) s"
| "select_step u name answer ctx r (Loading inst rest best bestCount) s =
     (let v = sint (gm_get_or 0 (lb_counts (lb_data s) name) (ServiceID inst))
      in (if bestCount < 0 \<or> v < bestCount then Scanning rest (Some inst) v
          else Scanning rest best bestCount, s))"
| "select_step u name answer ctx r (Scanning [] (Some b) bestCount) s =
     locked (Scanning [] (Some b) bestCount) (Adding b) (touchCounter name (ServiceID b)) s"
| "select_step u name answer ctx r (Scanning [] None bestCount) s = (Done (Selected (Returns (Inr None))), s)"
| "select_step u name answer ctx r (Adding b) s =
     (Chose b, s\<lparr>lb_data := addCounter name (ServiceID b) 1 (lb_data s)\<rparr>)"
| "select_step u name answer ctx r (Chose inst) s =
     locked (Chose inst) (Done (Selected (Returns (Inr (Some inst))))) (recordRequest name inst) s"
| "select_step u name answer ctx r pc s = (pc, s)"

definition reportStats :: "string \<Rightarrow> RequestResult \<Rightarrow> LoadBalancer \<Rightarrow> LoadBalancer" where
  "reportStats i result lb =
     (case gm_get (stats lb) i of
        None \<Rightarrow> lb
      | Some st \<Rightarrow> lb\<lparr>stats := gm_set i (serviceStats_report result st) (stats lb)\<rparr>)"

fun report_step :: "string \<Rightarrow> RequestResult \<Rightarrow> lb_pc \<Rightarrow> shared_lb \<Rightarrow> lb_pc \<times> shared_lb" where
  "report_step i result Begin s =
     (if lb_mu s then (Begin, s)
      else (Releasing (map fst (connectionCount (lb_data s))), s\<lparr>lb_mu := True\<rparr>))"
| "report_step i result (Releasing (n # ns)) s =
     (case gm_get (lb_counts (lb_data s) n) i of
        None \<Rightarrow> (Releasing ns, s)
      | Some c \<Rightarrow> (if 0 < sint c then Dropping n ns else Releasing ns, s))"
| "report_step i result (Dropping n ns) s =
     (Releasing ns, s\<lparr>lb_data := addCounter n i (- 1) (lb_data s)\<rparr>)"
| "report_step i result (Releasing []) s =
     (Done Reported, s\<lparr>lb_mu := False, lb_data := reportStats i result (lb_data s)\<rparr>)"
| "report_step i result pc s = (pc, s)"

fun stats_step :: "string \<Rightarrow> lb_pc \<Rightarrow> shared_lb \<Rightarrow> lb_pc \<times> shared_lb" where
  "stats_step name Begin s =
     locked Begin (Done (StatsOf (LoadBalancer_Stats name (lb_data s)))) (\<lambda>lb. lb) s"
| "stats_step name pc s = (pc, s)"

fun balancer_step :: "unicode_tables \<Rightarrow> lb_thread \<Rightarrow> shared_lb \<Rightarrow> lb_thread \<times> shared_lb" where
  "balancer_step u (SelectCall name answer ctx r, pc) s =
     (case select_step u name answer ctx r pc s of (pc', s') \<Rightarrow> ((SelectCall name answer ctx r, pc'), s'))"
| "balancer_step u (ReportCall i result, pc) s =
     (case report_step i result pc s of (pc', s') \<Rightarrow> ((ReportCall i result, pc'), s'))"
| "balancer_step u (StatsCall name, pc) s =
     (case stats_step name pc s of (pc', s') \<Rightarrow> ((StatsCall name, pc'), s'))"

text \<open>What the call returns, and how it leaves the balancer, when nothing else runs.\<close>

fun call_result :: "unicode_tables \<Rightarrow> lb_call \<Rightarrow> LoadBalancer \<Rightarrow> lb_return" where
  "call_result u (SelectCall name answer ctx r) lb = Selected (fst (Select u (\<lambda>_. answer) name ctx r lb))"
| "call_result u (ReportCall i result) lb = Reported"
| "call_result u (StatsCall name) lb = StatsOf (LoadBalancer_Stats name lb)"

fun call_after :: "unicode_tables \<Rightarrow> lb_call \<Rightarrow> LoadBalancer \<Rightarrow> LoadBalancer" where
  "call_after u (SelectCall name answer ctx r) lb = snd (Select u (\<lambda>_. answer) name ctx r lb)"
| "call_after u (ReportCall i result) lb = ReportResult i result lb"
| "call_after u (StatsCall name) lb = lb"

fun call_size :: "lb_call \<Rightarrow> nat" where
  "call_size (SelectCall name (Inr instances) ctx r) = length (candidates instances)"
| "call_size _ = 0"

section \<open>One call alone\<close>

lemma gm_set_set [simp]: "gm_set k v (gm_set k w m) = gm_set k v m"
  by (simp add: gm_set_def)

lemma gm_set_same: "gm_get m k = Some v \<Longrightarrow> gm_set k v m = m"
  by (simp add: gm_set_def gm_get_def update_triv)

lemma run_alone_Done [simp]:
  "run_alone (balancer_step u) n ((c, Done x), s) = ((c, Done x), s)"
proof (induction n)
  case (Suc n)
  then show ?case by (cases c) simp_all
qed simp

lemma run_alone_more:
  assumes "run_alone (balancer_step u) k x = ((c, Done y), s)" and "k \<le> n"
  shows "run_alone (balancer_step u) n x = ((c, Done y), s)"
proof -
  have "run_alone (balancer_step u) (k + (n - k)) x = ((c, Done y), s)"
    by (simp add: run_alone_add assms(1))
  then show ?thesis using assms(2) by simp
qed

abbreviation select_alone where
  "select_alone u name answer ctx r n pc s \<equiv>
     run_alone (balancer_step u) n ((SelectCall name answer ctx r, pc), s)"

lemma lb_counts_set [simp]:
  "lb_counts (lb\<lparr>connectionCount := gm_set name counts m\<rparr>) n =
     (if n = name then counts else gm_get_or [] m n)"
  by (simp add: lb_counts_def gm_get_or_def gm_simps)

lemma scan_alone:
  assumes "gm_get (connectionCount lb) name = Some counts"
  shows "\<exists>v. select_alone u name answer ctx r (2 * length cs) (Scanning cs best n) (free_lb lb) =
    ((SelectCall name answer ctx r, Scanning [] (fst (leastLoop cs best n counts)) v),
     free_lb (lb\<lparr>connectionCount := gm_set name (snd (leastLoop cs best n counts)) (connectionCount lb)\<rparr>))"
  using assms
proof (induction cs arbitrary: best n lb counts)
  case Nil
  then show ?case by (simp add: gm_set_same)
next
  case (Cons i cs)
  obtain c counts1 where g: "getOrCreateCounter (ServiceID i) counts = (c, counts1)" by fastforce
  have lc: "lb_counts lb name = counts" using Cons.prems by (simp add: lb_counts_def gm_get_or_def)
  have c: "gm_get_or 0 counts1 (ServiceID i) = c"
    using ctr.goc_same [of "ServiceID i" counts] g by (simp add: gm_get_or_def)
  let ?lb = "lb\<lparr>connectionCount := gm_set name counts1 (connectionCount lb)\<rparr>"
  have t: "touchCounter name (ServiceID i) lb = ?lb" by (simp add: touchCounter_def lc g)
  have k: "gm_get (connectionCount ?lb) name = Some counts1" by (simp add: gm_simps)
  show ?case
    using Cons.IH [OF k, of "Some i" "sint c"] Cons.IH [OF k, of best n] g c t
    by (auto simp: locked_def free_lb_def Let_def)
qed

lemma least_alone:
  assumes "gm_get (connectionCount lb) name = Some counts" and "leastLoop cs None (- 1) counts = (Some b, counts1)"
  shows "select_alone u name answer ctx r (2 * length cs + 3) (Scanning cs None (- 1)) (free_lb lb) =
    ((SelectCall name answer ctx r, Done (Selected (Returns (Inr (Some b))))),
     free_lb (recordRequest name b (snd (selectLeastConnections name cs lb))))"
proof -
  let ?lb = "lb\<lparr>connectionCount := gm_set name counts1 (connectionCount lb)\<rparr>"
  obtain v where "select_alone u name answer ctx r (2 * length cs) (Scanning cs None (- 1)) (free_lb lb) =
      ((SelectCall name answer ctx r, Scanning [] (Some b) v), free_lb ?lb)"
    using scan_alone [OF assms(1), where u = u and answer = answer and ctx = ctx and r = r and cs = cs and best = None and n = "- 1"]
      assms(2) by auto
  then have "select_alone u name answer ctx r (2 * length cs + 3) (Scanning cs None (- 1)) (free_lb lb) =
      select_alone u name answer ctx r 3 (Scanning [] (Some b) v) (free_lb ?lb)"
    by (simp only: run_alone_add)
  also have "\<dots> = ((SelectCall name answer ctx r, Done (Selected (Returns (Inr (Some b))))),
      free_lb (recordRequest name b
        (addCounter name (ServiceID b) 1 (touchCounter name (ServiceID b) ?lb))))"
    by (simp add: numeral_3_eq_3 locked_def free_lb_def)
  also have "addCounter name (ServiceID b) 1 (touchCounter name (ServiceID b) ?lb) =
      snd (selectLeastConnections name cs lb)"
  proof -
    obtain c counts2 where g: "getOrCreateCounter (ServiceID b) counts1 = (c, counts2)" by fastforce
    then have "gm_get_or 0 counts2 (ServiceID b) = c"
      using ctr.goc_same [of "ServiceID b" counts1] by (simp add: gm_get_or_def)
    then show ?thesis using assms g
      by (simp add: addCounter_def touchCounter_def selectLeastConnections_def getConnectionCounts_def Let_def)
  qed
  finally show ?thesis .
qed

lemma addRoundRobin_get:
  "addRoundRobin k (snd (getRoundRobinIdx k lb)) =
     (rr_counter lb k + 1, snd (selectRoundRobin k cs lb))"
  by (auto simp: addRoundRobin_def selectRoundRobin_def getRoundRobinIdx_def rr_counter_def gm_get_or_def
      gm_simps Let_def split: option.splits)

lemma counting_alone:
  assumes "cs \<noteq> []" and "fst (selectRoundRobin k cs lb) = Returns b"
  shows "select_alone u name answer ctx r 2 (Counting k cs) (free_lb (snd (getRoundRobinIdx k lb))) =
    ((SelectCall name answer ctx r, Done (Selected (Returns (Inr (Some b))))),
     free_lb (recordRequest name b (snd (selectRoundRobin k cs lb))))"
  using assms selectRoundRobin_result [OF assms(1), of k lb] round_robin_index [OF assms(1)]
  by (simp add: numeral_2_eq_2 addRoundRobin_get [of k lb cs] locked_def free_lb_def)

lemma chosen_alone:
  "select_alone u name answer ctx r (Suc 0) (chosen x) (free_lb lb) =
     ((SelectCall name answer ctx r, Done (Selected (case x of Panics \<Rightarrow> Panics | Returns b \<Rightarrow> Returns (Inr (Some b))))),
      free_lb (case x of Panics \<Rightarrow> lb | Returns b \<Rightarrow> recordRequest name b lb))"
  by (cases x) (simp_all add: locked_def free_lb_def)

lemma Select_selectBy:
  assumes "candidates xs \<noteq> []" and "selectBy (resolveStrategy u (candidates xs)) name (candidates xs) ctx r lb = (x, lb')"
  shows "Select u (\<lambda>_. Inr xs) name ctx r lb =
    (case x of Panics \<Rightarrow> (Panics, lb') | Returns None \<Rightarrow> (Returns (Inr None), lb')
       | Returns (Some b) \<Rightarrow> (Returns (Inr (Some b)), recordRequest name b lb'))"
  using assms by (auto simp: Select_def split: outcome.splits option.splits)

lemma select_least_alone:
  assumes "candidates xs \<noteq> []" and "resolveStrategy u (candidates xs) = LeastConnections"
  shows "select_alone u name (Inr xs) ctx r (Suc (2 * length (candidates xs) + 3)) Begin (free_lb lb) =
    ((SelectCall name (Inr xs) ctx r, Done (Selected (fst (Select u (\<lambda>_. Inr xs) name ctx r lb)))),
     free_lb (snd (Select u (\<lambda>_. Inr xs) name ctx r lb)))"
proof -
  let ?cs = "candidates xs" and ?lb = "snd (getConnectionCounts name lb)"
  have k: "gm_get (connectionCount ?lb) name = Some (lb_counts lb name)"
    by (auto simp: getConnectionCounts_def lb_counts_def gm_get_or_def gm_simps split: option.splits)
  have same: "selectLeastConnections name ?cs ?lb = selectLeastConnections name ?cs lb"
    by (auto simp: selectLeastConnections_def getConnectionCounts_def gm_simps split: option.splits)
  obtain b counts1 where l: "leastLoop ?cs None (- 1) (lb_counts lb name) = (Some b, counts1)"
    using leastLoop_some [OF assms(1), of "lb_counts lb name"] by (metis prod.collapse)
  have sel: "selectBy (resolveStrategy u ?cs) name ?cs ctx r lb =
      (Returns (Some b), snd (selectLeastConnections name ?cs lb))"
    using selectLeastConnections_best [of name ?cs lb] l assms(2) by (simp add: selectBy_def split_beta)
  have "select_alone u name (Inr xs) ctx r (Suc (2 * length ?cs + 3)) Begin (free_lb lb) =
      select_alone u name (Inr xs) ctx r (2 * length ?cs + 3) (Scanning ?cs None (- 1)) (free_lb ?lb)"
    by (rule run_alone_step) (use assms in \<open>simp add: locked_def free_lb_def\<close>)
  then show ?thesis
    using least_alone [OF k l, where u = u and answer = "Inr xs" and ctx = ctx and r = r] same Select_selectBy [OF assms(1) sel] by simp
qed

lemma select_rotation_alone:
  assumes "candidates xs \<noteq> []" and "resolveStrategy u (candidates xs) = st"
    and "st = RoundRobin \<or> st = WeightedRoundRobin"
  shows "select_alone u name (Inr xs) ctx r 3 Begin (free_lb lb) =
    ((SelectCall name (Inr xs) ctx r, Done (Selected (fst (Select u (\<lambda>_. Inr xs) name ctx r lb)))),
     free_lb (snd (Select u (\<lambda>_. Inr xs) name ctx r lb)))"
proof -
  obtain k ys where rot: "rotation st name (candidates xs) = (k, ys)" by fastforce
  then have ys: "ys \<noteq> []" using assms(1) by (auto simp: rotation_def split: if_splits)
  obtain b where b: "fst (selectRoundRobin k ys lb) = Returns b"
    using selectRoundRobin_member [OF ys, of k lb] by blast
  have sel: "selectBy (resolveStrategy u (candidates xs)) name (candidates xs) ctx r lb =
      (Returns (Some b), snd (selectRoundRobin k ys lb))"
    using assms(2,3) rot b
    by (auto simp: selectBy_def rotation_def selectWeightedRoundRobin_def split_beta split: if_splits)
  have "select_alone u name (Inr xs) ctx r (Suc 2) Begin (free_lb lb) =
      select_alone u name (Inr xs) ctx r 2 (Counting k ys) (free_lb (snd (getRoundRobinIdx k lb)))"
    by (rule run_alone_step) (use assms rot in \<open>auto simp: locked_def free_lb_def rotation_def split: if_splits\<close>)
  then show ?thesis
    using counting_alone [OF ys b, where u = u and name = name and answer = "Inr xs" and ctx = ctx and r = r]
      Select_selectBy [OF assms(1) sel] by simp
qed

lemma select_pure_alone:
  assumes "candidates xs \<noteq> []" and "resolveStrategy u (candidates xs) = st" and "st = IPHash \<or> st = Random"
  shows "select_alone u name (Inr xs) ctx r (Suc (Suc 0)) Begin (free_lb lb) =
    ((SelectCall name (Inr xs) ctx r, Done (Selected (fst (Select u (\<lambda>_. Inr xs) name ctx r lb)))),
     free_lb (snd (Select u (\<lambda>_. Inr xs) name ctx r lb)))"
proof -
  define x where "x = (if st = IPHash then selectIPHash (candidates xs) ctx r else selectRandom (candidates xs) r)"
  have sel: "selectBy (resolveStrategy u (candidates xs)) name (candidates xs) ctx r lb = (ptr x, lb)"
    using assms(2,3) by (auto simp: selectBy_def x_def)
  have "select_alone u name (Inr xs) ctx r (Suc (Suc 0)) Begin (free_lb lb) =
      select_alone u name (Inr xs) ctx r (Suc 0) (chosen x) (free_lb lb)"
    by (rule run_alone_step) (use assms in \<open>auto simp: x_def\<close>)
  then show ?thesis unfolding chosen_alone using Select_selectBy [OF assms(1) sel]
    by (cases x) (simp_all del: run_alone.simps)
qed

lemma select_call_alone:
  assumes "2 * call_size (SelectCall name answer ctx r) + 4 \<le> n"
  shows "select_alone u name answer ctx r n Begin (free_lb lb) =
    ((SelectCall name answer ctx r, Done (Selected (fst (Select u (\<lambda>_. answer) name ctx r lb)))),
     free_lb (snd (Select u (\<lambda>_. answer) name ctx r lb)))"
proof (cases answer)
  case (Inl e)
  show ?thesis by (rule run_alone_more [of _ 1]) (use Inl assms in \<open>simp_all add: Select_def\<close>)
next
  case (Inr xs)
  show ?thesis
  proof (cases "candidates xs = []")
    case True
    show ?thesis by (rule run_alone_more [of _ 1]) (use Inr True assms in \<open>simp_all add: Select_def\<close>)
  next
    case False
    have n: "Suc (2 * length (candidates xs) + 3) \<le> n" using assms Inr by simp
    show ?thesis unfolding Inr
    proof (cases "resolveStrategy u (candidates xs)")
      case LeastConnections
      from run_alone_more [OF select_least_alone [OF False this] n]
      show "select_alone u name (Inr xs) ctx r n Begin (free_lb lb) =
        ((SelectCall name (Inr xs) ctx r, Done (Selected (fst (Select u (\<lambda>_. Inr xs) name ctx r lb)))),
         free_lb (snd (Select u (\<lambda>_. Inr xs) name ctx r lb)))" .
    qed (use n in \<open>auto intro: run_alone_more [OF select_rotation_alone [OF False]]
        run_alone_more [OF select_pure_alone [OF False]]\<close>)
  qed
qed

lemma gm_set_mid: "k \<notin> fst ` set pre \<Longrightarrow> gm_set k v (pre @ (k, w) # post) = pre @ (k, v) # post"
  by (induction pre) (auto simp: gm_set_def)

lemma gm_get_mid: "k \<notin> fst ` set pre \<Longrightarrow> gm_get (pre @ (k, w) # post) k = Some w"
  by (induction pre) (auto simp: gm_get_def)

abbreviation report_alone where
  "report_alone u i res n pc s \<equiv> run_alone (balancer_step u) n ((ReportCall i res, pc), s)"

abbreviation held_lb :: "LoadBalancer \<Rightarrow> shared_lb" where
  "held_lb lb \<equiv> \<lparr>lb_mu = True, lb_data = lb\<rparr>"

text \<open>One service of the loop of \<^verbatim>\<open>ReportResult\<close>: one step, or two when there is something to take off.\<close>

lemma release_one:
  assumes "gm_get (connectionCount lb) n = Some counts"
  shows "\<exists>j \<le> 2. \<forall>k. report_alone u i res (j + k) (Releasing (n # ns)) (held_lb lb) =
    report_alone u i res k (Releasing ns)
      (held_lb (lb\<lparr>connectionCount := gm_set n (releaseConnection i counts) (connectionCount lb)\<rparr>))"
proof -
  have lc: "lb_counts lb n = counts" using assms by (simp add: lb_counts_def gm_get_or_def)
  show ?thesis
  proof (cases "\<exists>c. gm_get counts i = Some c \<and> 0 < sint c")
    case True
    then show ?thesis using lc
      by (intro exI [of _ 2]) (auto simp: numeral_2_eq_2 addCounter_def releaseConnection_def gm_get_or_def)
  next
    case False
    then have "releaseConnection i counts = counts"
      by (auto simp: releaseConnection_def split: option.splits)
    then show ?thesis using lc False gm_set_same [OF assms]
      by (intro exI [of _ 1]) (auto split: option.splits)
  qed
qed

lemma release_all:
  assumes "connectionCount lb = pre @ post" and "gm_wf (pre @ post)"
  shows "\<exists>j \<le> 2 * length post. \<forall>k.
    report_alone u i res (j + k) (Releasing (map fst post)) (held_lb lb) =
    report_alone u i res k (Releasing []) (held_lb (lb\<lparr>connectionCount := pre @ gm_map (releaseConnection i) post\<rparr>))"
  using assms
proof (induction post arbitrary: pre lb)
  case Nil
  then have "lb\<lparr>connectionCount := pre\<rparr> = lb" by simp
  then show ?case by (simp add: gm_map_def)
next
  case (Cons e post)
  obtain n counts where e: "e = (n, counts)" by (cases e)
  have n: "n \<notin> fst ` set pre" using Cons.prems(2) e by (auto simp: gm_wf_def)
  let ?e = "(n, releaseConnection i counts)"
  let ?lb = "lb\<lparr>connectionCount := (pre @ [?e]) @ post\<rparr>"
  have get: "gm_get (connectionCount lb) n = Some counts" using Cons.prems(1) e gm_get_mid [OF n] by simp
  have set: "lb\<lparr>connectionCount := gm_set n (releaseConnection i counts) (connectionCount lb)\<rparr> = ?lb"
    using Cons.prems(1) e gm_set_mid [OF n] by simp
  obtain j where j: "j \<le> 2" "\<And>k. report_alone u i res (j + k) (Releasing (n # map fst post)) (held_lb lb) =
      report_alone u i res k (Releasing (map fst post)) (held_lb ?lb)"
    using release_one [OF get, of u i res "map fst post"] set by auto
  have "gm_wf ((pre @ [?e]) @ post)" using Cons.prems(2) e by (simp add: gm_wf_def)
  from Cons.IH [OF _ this, of ?lb] obtain l where l: "l \<le> 2 * length post"
    "\<And>k. report_alone u i res (l + k) (Releasing (map fst post)) (held_lb ?lb) =
      report_alone u i res k (Releasing [])
        (held_lb (lb\<lparr>connectionCount := (pre @ [?e]) @ gm_map (releaseConnection i) post\<rparr>))"
    by auto
  have "report_alone u i res ((j + l) + k) (Releasing (map fst (e # post))) (held_lb lb) =
      report_alone u i res k (Releasing [])
        (held_lb (lb\<lparr>connectionCount := pre @ gm_map (releaseConnection i) (e # post)\<rparr>))" for k
    using j(2) [of "l + k"] l(2) [of k] e by (simp add: add.assoc gm_map_def)
  moreover have "j + l \<le> 2 * length (e # post)" using j(1) l(1) by simp
  ultimately show ?case by blast
qed

lemma report_call_alone:
  assumes "gm_wf (connectionCount lb)" and "2 * length (connectionCount lb) + 2 \<le> n"
  shows "report_alone u i res n Begin (free_lb lb) =
    ((ReportCall i res, Done Reported), free_lb (ReportResult i res lb))"
proof -
  let ?lb = "lb\<lparr>connectionCount := gm_map (releaseConnection i) (connectionCount lb)\<rparr>"
  obtain j where j: "j \<le> 2 * length (connectionCount lb)"
    "\<And>k. report_alone u i res (j + k) (Releasing (map fst (connectionCount lb))) (held_lb lb) =
      report_alone u i res k (Releasing []) (held_lb ?lb)"
    using release_all [of lb "[]" "connectionCount lb" u i res] assms(1) by auto
  have "report_alone u i res (Suc (j + 1)) Begin (free_lb lb) =
      report_alone u i res (j + 1) (Releasing (map fst (connectionCount lb))) (held_lb lb)"
    by (rule run_alone_step) (simp add: free_lb_def)
  also have "\<dots> = report_alone u i res 1 (Releasing []) (held_lb ?lb)" by (rule j(2))
  also have "\<dots> = ((ReportCall i res, Done Reported), free_lb (ReportResult i res lb))"
    by (auto simp: free_lb_def reportStats_def ReportResult_def split: option.splits)
  finally show ?thesis by (rule run_alone_more) (use j(1) assms(2) in simp)
qed

section \<open>What a step leaves alone\<close>

definition conn_word :: "LoadBalancer \<Rightarrow> string \<Rightarrow> string \<Rightarrow> int64" where
  "conn_word lb name i = gm_get_or 0 (lb_counts lb name) i"

lemma conn_count_word: "conn_count (lb_counts lb name) i = sint (conn_word lb name i)"
  by (simp add: conn_count_def conn_word_def)

lemma conn_word_cong: "connectionCount lb = connectionCount lb' \<Longrightarrow> conn_word lb = conn_word lb'"
  by (simp add: conn_word_def lb_counts_def fun_eq_iff)

lemma connectionCount_frames [simp]:
  "connectionCount (snd (getRoundRobinIdx k lb)) = connectionCount lb"
  "connectionCount (snd (addRoundRobin k lb)) = connectionCount lb"
  "connectionCount (reportStats i res lb) = connectionCount lb"
  by (simp_all add: getRoundRobinIdx_def addRoundRobin_def reportStats_def Let_def split: option.splits)

lemma conn_word_frames [simp]:
  "conn_word (snd (getRoundRobinIdx k lb)) = conn_word lb"
  "conn_word (snd (addRoundRobin k lb)) = conn_word lb"
  "conn_word (recordRequest n inst lb) = conn_word lb"
  "conn_word (reportStats i res lb) = conn_word lb"
  by (rule conn_word_cong; simp)+

lemma conn_word_getConnectionCounts [simp]: "conn_word (snd (getConnectionCounts n lb)) = conn_word lb"
  by (auto simp: fun_eq_iff conn_word_def lb_counts_def getConnectionCounts_def gm_get_or_def gm_simps
      split: option.splits)

lemma conn_word_touch [simp]: "conn_word (touchCounter n j lb) = conn_word lb"
  by (auto simp: fun_eq_iff conn_word_def lb_counts_def touchCounter_def getOrCreateCounter_def
      gm_get_or_def gm_simps split: option.splits)

lemma conn_word_add [simp]:
  "conn_word (addCounter n j d lb) name i = conn_word lb name i + (if n = name \<and> j = i then d else 0)"
  by (auto simp: conn_word_def lb_counts_def addCounter_def gm_get_or_def gm_simps split: option.splits)

lemma rr_counter_thread_frames [simp]:
  "rr_counter (snd (getConnectionCounts n lb)) = rr_counter lb"
  "rr_counter (touchCounter n j lb) = rr_counter lb"
  "rr_counter (addCounter n j d lb) = rr_counter lb"
  "rr_counter (reportStats i res lb) = rr_counter lb"
  by (rule rr_counter_cong; simp add: getConnectionCounts_def touchCounter_def addCounter_def reportStats_def
      split: option.splits)+

lemma rr_counter_get [simp]: "rr_counter (snd (getRoundRobinIdx k lb)) = rr_counter lb"
  by (auto simp: fun_eq_iff rr_counter_def getRoundRobinIdx_def gm_get_or_def gm_simps split: option.splits)

lemma rr_counter_add:
  "rr_counter (snd (addRoundRobin k lb)) j = rr_counter lb j + (if j = k then 1 else 0)"
  by (auto simp: rr_counter_def addRoundRobin_def gm_get_or_def gm_simps Let_def)

lemma fst_addRoundRobin [simp]: "fst (addRoundRobin k lb) = rr_counter lb k + 1"
  by (simp add: addRoundRobin_def Let_def)

section \<open>The mutex\<close>

fun holds_mu :: "lb_thread \<Rightarrow> bool" where
  "holds_mu (c, Releasing ns) \<longleftrightarrow> True"
| "holds_mu (c, Dropping n ns) \<longleftrightarrow> True"
| "holds_mu (c, pc) \<longleftrightarrow> False"

lemma holds_mu_chosen [simp]: "\<not> holds_mu (c, chosen x)"
  by (cases x) simp_all

interpretation lb_mutex: mutual_exclusion "balancer_step u" lb_mu holds_mu for u
proof unfold_locales
  fix t s t' s'
  assume st: "balancer_step u t s = (t', s')"
  obtain c pc where t: "t = (c, pc)" by (cases t)
  have sel: "select_step u n a ctx r pc s = (pc', s'') \<Longrightarrow>
      lb_mu s'' = lb_mu s \<and> (holds_mu (SelectCall n a ctx r, pc') \<longleftrightarrow> holds_mu (SelectCall n a ctx r, pc))"
    for n a ctx r pc' s''
    by (induction u n a ctx r pc s rule: select_step.induct)
      (auto simp: locked_def Let_def split_beta split: sum.splits Strategy.splits if_splits)
  have stat: "stats_step n pc s = (pc', s'') \<Longrightarrow>
      lb_mu s'' = lb_mu s \<and> (holds_mu (StatsCall n, pc') \<longleftrightarrow> holds_mu (StatsCall n, pc))" for n pc' s''
    by (induction n pc s rule: stats_step.induct) (auto simp: locked_def split: if_splits)
  have rep: "report_step i res pc s = (pc', s'') \<Longrightarrow>
      (if holds_mu (ReportCall i res, pc)
       then if holds_mu (ReportCall i res, pc') then lb_mu s'' = lb_mu s else \<not> lb_mu s''
       else if holds_mu (ReportCall i res, pc') then \<not> lb_mu s \<and> lb_mu s'' else lb_mu s'' = lb_mu s)"
    for i res pc' s''
    by (induction i res pc s rule: report_step.induct) (auto split: option.splits if_splits)
  show "\<not> holds_mu t \<Longrightarrow> if holds_mu t' then \<not> lb_mu s \<and> lb_mu s' else lb_mu s' = lb_mu s"
    using st sel stat rep t by (cases c) (auto split: prod.splits if_splits)
  show "holds_mu t \<Longrightarrow> if holds_mu t' then lb_mu s' = lb_mu s else \<not> lb_mu s'"
    using st sel stat rep t by (cases c) (auto split: prod.splits if_splits)
qed

section \<open>Connection counts\<close>

fun by_least :: "unicode_tables \<Rightarrow> error + Instance list \<Rightarrow> bool" where
  "by_least u (Inl e) \<longleftrightarrow> False"
| "by_least u (Inr xs) \<longleftrightarrow> resolveStrategy u (candidates xs) = LeastConnections"

fun least_call :: "unicode_tables \<Rightarrow> string \<Rightarrow> lb_call \<Rightarrow> bool" where
  "least_call u name (SelectCall n a ctx r) \<longleftrightarrow> n = name \<and> by_least u a"
| "least_call u name _ \<longleftrightarrow> False"

fun chosen_of :: "lb_pc \<Rightarrow> Instance option" where
  "chosen_of (Chose b) = Some b"
| "chosen_of (Done (Selected (Returns (Inr (Some b))))) = Some b"
| "chosen_of _ = None"

text \<open>The thread has counted a connection to the instance.\<close>

definition opened :: "unicode_tables \<Rightarrow> string \<Rightarrow> string \<Rightarrow> lb_thread \<Rightarrow> bool" where
  "opened u name i t \<longleftrightarrow> least_call u name (fst t) \<and> map_option ServiceID (chosen_of (snd t)) = Some i"

text \<open>The thread is about to take one off.\<close>

fun drops :: "string \<Rightarrow> string \<Rightarrow> lb_thread \<Rightarrow> bool" where
  "drops name i (ReportCall j res, Dropping n ns) \<longleftrightarrow> j = i \<and> n = name"
| "drops name i _ \<longleftrightarrow> False"

text \<open>Where a call can be: only selections by least connections scan, and only reports release.\<close>

fun pc_ok :: "bool \<Rightarrow> lb_pc \<Rightarrow> bool" where
  "pc_ok least (Scanning cs best n) \<longleftrightarrow> least"
| "pc_ok least (Loading inst cs best n) \<longleftrightarrow> least"
| "pc_ok least (Adding b) \<longleftrightarrow> least"
| "pc_ok least (Counting k cs) \<longleftrightarrow> \<not> least"
| "pc_ok least _ \<longleftrightarrow> True"

fun lb_ok :: "unicode_tables \<Rightarrow> lb_thread \<Rightarrow> bool" where
  "lb_ok u (SelectCall n a ctx r, pc) \<longleftrightarrow> pc_ok (by_least u a) pc"
| "lb_ok u _ \<longleftrightarrow> True"

lemma pc_ok_chosen [simp]: "pc_ok l (chosen x)"
  by (cases x) simp_all

lemma chosen_of_chosen: "chosen_of (chosen x) = (case x of Panics \<Rightarrow> None | Returns b \<Rightarrow> Some b)"
  by (cases x) simp_all

lemma select_step_counts:
  assumes "select_step u n a ctx r pc s = (pc', s')" and "lb_ok u (SelectCall n a ctx r, pc)"
  shows "lb_ok u (SelectCall n a ctx r, pc')"
    and "conn_word (lb_data s') name i + of_bool (opened u name i (SelectCall n a ctx r, pc)) =
      conn_word (lb_data s) name i + of_bool (opened u name i (SelectCall n a ctx r, pc'))"
    and "opened u name i (SelectCall n a ctx r, pc) \<Longrightarrow> opened u name i (SelectCall n a ctx r, pc')"
  using assms
  by (induction u n a ctx r pc s rule: select_step.induct)
    (auto simp: locked_def Let_def split_beta opened_def chosen_of_chosen
      split: sum.splits Strategy.splits if_splits outcome.splits)

lemma report_step_counts:
  assumes "report_step j res pc s = (pc', s')"
  shows "conn_word (lb_data s') name i = conn_word (lb_data s) name i - of_bool (drops name i (ReportCall j res, pc))"
  using assms by (induction j res pc s rule: report_step.induct) (auto split: option.splits if_splits)

lemma report_step_drops:
  assumes "report_step j res pc s = (pc', s')" and "drops name i (ReportCall j res, pc')"
  shows "0 < sint (conn_word (lb_data s) name i) \<and> \<not> drops name i (ReportCall j res, pc)"
  using assms by (induction j res pc s rule: report_step.induct)
    (auto simp: conn_word_def gm_get_or_def split: option.splits if_splits)

lemma stats_step_data: "stats_step n pc s = (pc', s') \<Longrightarrow> s' = s"
  by (induction n pc s rule: stats_step.induct) (auto simp: locked_def split: if_splits)

text \<open>What one step of any call does to a connection count.\<close>

lemma balancer_step_counts:
  assumes "balancer_step u t s = (t', s')" and "lb_ok u t"
  shows "fst t' = fst t \<and> lb_ok u t' \<and>
      conn_word (lb_data s') name i + of_bool (opened u name i t) + of_bool (drops name i t) =
      conn_word (lb_data s) name i + of_bool (opened u name i t') \<and>
      (drops name i t' \<longrightarrow> 0 < sint (conn_word (lb_data s) name i)) \<and>
      (opened u name i t \<longrightarrow> opened u name i t') \<and>
      (drops name i t \<longrightarrow> \<not> opened u name i t' \<and> \<not> drops name i t')"
proof -
  obtain c pc where t: "t = (c, pc)" by (cases t)
  show ?thesis
  proof (cases c)
    case (SelectCall n a ctx r)
    obtain pc' where "t' = (c, pc')" "select_step u n a ctx r pc s = (pc', s')"
      using assms(1) t SelectCall by (auto split: prod.splits)
    then show ?thesis using assms(2) t SelectCall select_step_counts(1)
        select_step_counts(2,3) [where name = name and i = i] by auto
  next
    case (ReportCall j res)
    obtain pc' where "t' = (c, pc')" "report_step j res pc s = (pc', s')"
      using assms(1) t ReportCall by (auto split: prod.splits)
    then show ?thesis using t ReportCall report_step_counts [of j res pc s pc' s' name i]
        report_step_drops [of j res pc s pc' s' name i] by (auto simp: opened_def)
  next
    case (StatsCall n)
    then show ?thesis using assms t stats_step_data [of n pc s] by (auto simp: opened_def split: prod.splits)
  qed
qed

text \<open>Without reports of the instance the count and the threads that opened a connection go together.\<close>

definition reports :: "string \<Rightarrow> lb_call \<Rightarrow> bool" where
  "reports i c \<longleftrightarrow> (\<exists>res. c = ReportCall i res)"

interpretation lb_conns: conserved "balancer_step u" "\<lambda>s. True" "\<lambda>t. lb_ok u t \<and> \<not> reports i (fst t)"
  "\<lambda>s. conn_word (lb_data s) name i" "\<lambda>t. of_bool (opened u name i t)" for u name i
proof unfold_locales
  fix s t t' s'
  assume ok: "lb_ok u t \<and> \<not> reports i (fst t)" and st: "balancer_step u t s = (t', s')"
  have "\<not> drops name i t" using ok by (cases "(name, i, t)" rule: drops.cases) (auto simp: reports_def)
  then show "conn_word (lb_data s') name i + of_bool (opened u name i t) =
      conn_word (lb_data s) name i + of_bool (opened u name i t')"
    and "True \<and> lb_ok u t' \<and> \<not> reports i (fst t')"
    using balancer_step_counts [OF st, of name i] ok by simp_all
qed

lemma length_filter_move:
  "k < length ts \<Longrightarrow> length (filter P (ts[k := t'])) + of_bool (P (ts ! k)) = length (filter P ts) + of_bool (P t')"
  unfolding length_filter_sum by (rule sum_list_move)

lemma drops_holds: "drops name i t \<Longrightarrow> holds_mu t"
  by (cases "(name, i, t)" rule: drops.cases) auto

lemma starts_ok: "list_all (lb_ok u) (map (\<lambda>c. (c, Begin)) calls)"
    "list_all (\<lambda>t. \<not> holds_mu t) (map (\<lambda>c. (c, Begin)) calls)"
proof -
  have "lb_ok u (c, Begin)" for c by (cases c) simp_all
  then show "list_all (lb_ok u) (map (\<lambda>c. (c, Begin)) calls)"
    "list_all (\<lambda>t. \<not> holds_mu t) (map (\<lambda>c. (c, Begin)) calls)" by (simp_all add: list_all_iff)
qed

lemma threads_ok:
  assumes "interleaved (balancer_step u) (map (\<lambda>c. (c, Begin)) calls) (free_lb lb) ts s"
  shows "list_all (lb_ok u) ts"
  using interleaved_invariant [OF assms, of "\<lambda>s. True" "lb_ok u"] starts_ok(1) balancer_step_counts by blast

text \<open>Only one report is about to take a connection off.\<close>

lemma drops_once:
  assumes "interleaved (balancer_step u) (map (\<lambda>c. (c, Begin)) calls) (free_lb lb) ts s"
    and "drops name i (ts ! k)" and "k < length ts" and "drops name i (ts ! j)" and "j < length ts"
  shows "j = k"
  using lb_mutex.exclusive [OF assms(1) _ starts_ok(2)] drops_holds assms(2-5) by (simp add: free_lb_def)

lemma counts_bounded:
  assumes "interleaved (balancer_step u) (map (\<lambda>c. (c, Begin)) calls) (free_lb lb) ts s"
    and "0 \<le> c0" and "sint (conn_word lb name i) = c0" and "c0 + int (length calls) \<le> maxInt64"
  shows "0 \<le> sint (conn_word (lb_data s) name i) \<and>
    sint (conn_word (lb_data s) name i) \<le> c0 + int (length (filter (opened u name i) ts)) \<and>
    ((\<exists>k < length ts. drops name i (ts ! k)) \<longrightarrow> 0 < sint (conn_word (lb_data s) name i))"
  using assms(1)
proof (induction rule: interleaved.induct)
  case here
  then show ?case using assms(2,3) by (auto simp: free_lb_def)
next
  case (turn ts s k t' s')
  let ?w = "sint (conn_word (lb_data s) name i)" and ?w' = "sint (conn_word (lb_data s') name i)"
  let ?A = "length (filter (opened u name i) ts)" and ?A' = "length (filter (opened u name i) (ts[k := t']))"
  have ok: "lb_ok u (ts ! k)" using threads_ok [OF turn.hyps(1)] turn.hyps(2) by (simp add: list_all_length)
  note st = balancer_step_counts [OF turn.hyps(3) ok, of name i]
  have pos: "drops name i t' \<Longrightarrow> 0 < ?w" using st by blast
  have len: "?A' \<le> length calls"
    using interleaved_length [OF turn.hyps(1)] length_filter_le [of "opened u name i" "ts[k := t']"] by simp
  have move: "?A' + of_bool (opened u name i (ts ! k)) = ?A + of_bool (opened u name i t')"
    using turn.hyps(2) by (rule length_filter_move)
  have one: "\<not> drops name i (ts[k := t'] ! j)" if "drops name i (ts ! k)" "j < length ts" for j
  proof (cases "j = k")
    case True
    then show ?thesis using st that by simp
  next
    case False
    then show ?thesis using drops_once [OF turn.hyps(1) that(1) turn.hyps(2), of j] that(2) by auto
  qed
  have "0 \<le> ?w' \<and> ?w' \<le> c0 + int ?A' \<and> ((\<exists>j < length ts. drops name i (ts[k := t'] ! j)) \<longrightarrow> 0 < ?w')"
  proof (cases "drops name i (ts ! k)")
    case True
    then have "conn_word (lb_data s') name i = conn_word (lb_data s) name i - 1" and "?A' = ?A" and "0 < ?w"
      using st move turn.IH turn.hyps(2) by (auto simp: algebra_simps)
    then have "?w' = ?w - 1" by (simp add: sint_pred64 int_range_defs)
    then show ?thesis using \<open>0 < ?w\<close> \<open>?A' = ?A\<close> turn.IH one [OF True] by auto
  next
    case False
    show ?thesis
    proof (cases "opened u name i t' \<and> \<not> opened u name i (ts ! k)")
      case True
      then have "conn_word (lb_data s') name i = conn_word (lb_data s) name i + 1" and "?A' = ?A + 1"
        using st move False by simp_all
      moreover have "?w < maxInt64" using turn.IH len assms(4) \<open>?A' = ?A + 1\<close> by linarith
      ultimately have "?w' = ?w + 1" by (simp add: sint_Suc64)
      then show ?thesis using \<open>?A' = ?A + 1\<close> turn.IH by auto
    next
      case same: False
      then have "?w' = ?w" and "?A' = ?A" using st move False by auto
      moreover have "0 < ?w" if "j < length ts" "drops name i (ts[k := t'] ! j)" for j
        using that pos turn.IH by (cases "j = k") auto
      ultimately show ?thesis using turn.IH by auto
    qed
  qed
  then show ?case by simp
qed

lemma counts_exact:
  assumes "interleaved (balancer_step u) (map (\<lambda>c. (c, Begin)) calls) (free_lb lb) ts s"
    and "list_all (\<lambda>c. \<not> reports i c) calls"
  shows "conn_word (lb_data s) name i = conn_word lb name i + of_nat (length (filter (opened u name i) ts))"
proof -
  let ?ts = "map (\<lambda>c. (c, Begin)) calls"
  have ok: "list_all (\<lambda>t. lb_ok u t \<and> \<not> reports i (fst t)) ?ts"
    using starts_ok(1) [of u calls] assms(2) by (simp add: list_all_iff)
  have "(\<Sum>t\<leftarrow>?ts. of_bool (opened u name i t)) = (0 :: int64)"
    by (induction calls) (auto simp: opened_def)
  moreover have "(\<Sum>t\<leftarrow>ts. of_bool (opened u name i t)) = (of_nat (length (filter (opened u name i) ts)) :: int64)"
    by (induction ts) auto
  ultimately show ?thesis
    using lb_conns.interleaved_sum [OF assms(1) _ ok, of name] by (simp add: free_lb_def)
qed

section \<open>Rotations\<close>

definition took :: "string \<Rightarrow> lb_thread \<Rightarrow> Instance multiset" where
  "took name t =
     (case (fst t, chosen_of (snd t)) of
        (SelectCall n a ctx r, Some b) \<Rightarrow> if n = name then {#b#} else {#}
      | _ \<Rightarrow> {#})"

text \<open>Every call for the service gets the same instances and no other call uses the counter.\<close>

fun rotates :: "string \<Rightarrow> Instance list \<Rightarrow> string \<Rightarrow> lb_call \<Rightarrow> bool" where
  "rotates name xs k (SelectCall n a ctx r) \<longleftrightarrow>
     (if n = name then a = Inr xs else n \<noteq> k \<and> n @ ''-weighted'' \<noteq> k)"
| "rotates name xs k _ \<longleftrightarrow> True"

fun for_service :: "string \<Rightarrow> lb_call \<Rightarrow> bool" where
  "for_service name (SelectCall n a ctx r) \<longleftrightarrow> n = name"
| "for_service name _ \<longleftrightarrow> False"

text \<open>Where such a call can be.\<close>

definition rotation_ok :: "string \<Rightarrow> Instance list \<Rightarrow> string \<Rightarrow> Instance list \<Rightarrow> lb_thread \<Rightarrow> bool" where
  "rotation_ok name xs k ys t \<longleftrightarrow> rotates name xs k (fst t) \<and>
     (if for_service name (fst t)
      then snd t = Begin \<or> snd t = Counting k ys \<or> chosen_of (snd t) \<noteq> None
      else \<forall>zs. snd t \<noteq> Counting k zs)"

lemma select_step_rotation:
  assumes "select_step u name (Inr xs) ctx r pc s = (pc', s')"
    and "candidates xs \<noteq> []" and "resolveStrategy u (candidates xs) = st" and "st = RoundRobin \<or> st = WeightedRoundRobin"
    and "rotation st name (candidates xs) = (k, ys)"
    and "pc = Begin \<or> pc = Counting k ys \<or> chosen_of pc \<noteq> None"
  shows "(pc' = Begin \<or> pc' = Counting k ys \<or> chosen_of pc' \<noteq> None) \<and>
    (if pc = Counting k ys
     then rr_counter (lb_data s') k = rr_counter (lb_data s) k + 1 \<and>
       chosen_of pc' = Some (ys ! nat (sint (abs64 (rr_counter (lb_data s) k + 1)) mod int (length ys)))
     else rr_counter (lb_data s') k = rr_counter (lb_data s) k \<and> chosen_of pc' = chosen_of pc)"
proof -
  have ys: "ys \<noteq> []" using assms(2,5) by (auto simp: rotation_def split: if_splits)
  consider "pc = Begin" | "pc = Counting k ys" | b where "pc = Chose b"
    | b where "pc = Done (Selected (Returns (Inr (Some b))))"
    using assms(6) by (cases pc rule: chosen_of.cases) auto
  then show ?thesis
  proof cases
    case 1
    then show ?thesis using assms(1-5) by (auto simp: locked_def rotation_def split: if_splits)
  next
    case 2
    then show ?thesis using assms(1) ys round_robin_index [OF ys]
      by (auto simp: split_beta rr_counter_add)
  next
    case 3
    then show ?thesis using assms(1) by (auto simp: locked_def split: if_splits)
  next
    case 4
    then show ?thesis using assms(1) by auto
  qed
qed

lemma chosen_not_Counting [simp]: "chosen x \<noteq> Counting k zs"
  by (cases x) simp_all

lemma select_step_other:
  assumes "select_step u n a ctx r pc s = (pc', s')" and "n \<noteq> k" and "n @ ''-weighted'' \<noteq> k"
    and "\<forall>zs. pc \<noteq> Counting k zs"
  shows "rr_counter (lb_data s') k = rr_counter (lb_data s) k \<and> (\<forall>zs. pc' \<noteq> Counting k zs)"
  using assms
  by (induction u n a ctx r pc s rule: select_step.induct)
    (auto simp: locked_def Let_def split_beta rr_counter_add
      split: sum.splits Strategy.splits if_splits)

lemma report_step_rotation:
  "report_step i res pc s = (pc', s') \<Longrightarrow>
   rr_counter (lb_data s') = rr_counter (lb_data s) \<and> (pc' = Counting k zs \<longrightarrow> pc = Counting k zs)"
  by (induction i res pc s rule: report_step.induct) (auto split: option.splits if_splits)

lemma stats_step_rotation: "stats_step n pc s = (pc', s') \<Longrightarrow> pc' = Counting k zs \<Longrightarrow> pc = Counting k zs"
  by (induction n pc s rule: stats_step.induct) (auto simp: locked_def split: if_splits)

text \<open>A step either leaves the counter and what the thread took alone, or it advances the counter
  and takes the instance that the new value points to.\<close>

lemma balancer_step_rotation:
  assumes "balancer_step u t s = (t', s')"
    and "candidates xs \<noteq> []" and "resolveStrategy u (candidates xs) = st" and "st = RoundRobin \<or> st = WeightedRoundRobin"
    and "rotation st name (candidates xs) = (k, ys)" and "rotation_ok name xs k ys t"
  shows "rotation_ok name xs k ys t' \<and> fst t' = fst t \<and>
    (rr_counter (lb_data s') k = rr_counter (lb_data s) k \<and> took name t' = took name t \<or>
     rr_counter (lb_data s') k = rr_counter (lb_data s) k + 1 \<and> took name t = {#} \<and>
       took name t' = {#ys ! nat (sint (abs64 (rr_counter (lb_data s) k + 1)) mod int (length ys))#})"
proof -
  obtain c pc where t: "t = (c, pc)" by (cases t)
  show ?thesis
  proof (cases c)
    case (SelectCall n a ctx r)
    obtain pc' where p: "t' = (c, pc')" "select_step u n a ctx r pc s = (pc', s')"
      using assms(1) t SelectCall by (auto split: prod.splits)
    show ?thesis
    proof (cases "n = name")
      case True
      then have "a = Inr xs" and "pc = Begin \<or> pc = Counting k ys \<or> chosen_of pc \<noteq> None"
        using assms(6) t SelectCall by (simp_all add: rotation_ok_def)
      then show ?thesis
        using select_step_rotation [OF _ assms(2-5), of ctx r pc s pc' s'] p t True SelectCall
        by (cases "pc = Counting k ys") (auto simp: rotation_ok_def took_def)
    next
      case False
      then show ?thesis using select_step_other [OF p(2), of k] assms(6) p(1) t SelectCall
        by (auto simp: rotation_ok_def took_def split: option.splits)
    qed
  next
    case (ReportCall j res)
    obtain pc' where "t' = (c, pc')" "report_step j res pc s = (pc', s')"
      using assms(1) t ReportCall by (auto split: prod.splits)
    then show ?thesis using report_step_rotation [of j res pc s pc' s' k] assms(6) t ReportCall
      by (auto simp: rotation_ok_def took_def)
  next
    case (StatsCall n)
    obtain pc' where "t' = (c, pc')" "stats_step n pc s = (pc', s')"
      using assms(1) t StatsCall by (auto split: prod.splits)
    then show ?thesis using stats_step_rotation [of n pc s pc' s' k] stats_step_data [of n pc s pc' s'] assms(6) t StatsCall
      by (auto simp: rotation_ok_def took_def)
  qed
qed

lemma sint_add_nat: "sint (w :: int64) = int c \<Longrightarrow> int (c + n) \<le> maxInt64 \<Longrightarrow> sint (w + of_nat n) = int (c + n)"
proof (induction n)
  case (Suc n)
  then have "sint (w + of_nat n) = int (c + n)" by simp
  then have "sint (w + of_nat n + 1) = int (c + n) + 1" using Suc.prems(2) by (subst sint_Suc64) auto
  then show ?case by (simp add: ac_simps)
qed simp

abbreviation taken :: "string \<Rightarrow> lb_thread list \<Rightarrow> Instance multiset" where
  "taken name ts \<equiv> sum_list (map (took name) ts)"

lemma took_size: "size (took name t) \<le> of_bool (for_service name (fst t))"
  by (cases "fst t") (auto simp: took_def split: option.splits)

lemma taken_size: "size (taken name ts) \<le> length (filter (for_service name) (map fst ts))"
proof (induction ts)
  case (Cons t ts)
  then show ?case using took_size [of name t] by (cases "for_service name (fst t)") simp_all
qed simp

lemma balancer_step_fst: "balancer_step u t s = (t', s') \<Longrightarrow> fst t' = fst t"
  by (cases "(u, t, s)" rule: balancer_step.cases) (auto split: prod.splits)

lemma interleaved_calls:
  "interleaved (balancer_step u) ts0 s0 ts s \<Longrightarrow> map fst ts = map fst ts0"
  by (rule interleaved_constant) (auto intro: balancer_step_fst)

lemma rotation_interleaved:
  assumes run: "interleaved (balancer_step u) (map (\<lambda>c. (c, Begin)) calls) (free_lb lb) ts s"
    and rot: "candidates xs \<noteq> []" "resolveStrategy u (candidates xs) = st" "st = RoundRobin \<or> st = WeightedRoundRobin"
      "rotation st name (candidates xs) = (k, ys)"
    and calls: "list_all (rotates name xs k) calls"
    and c: "sint (rr_counter lb k) = int c" "int (c + length (filter (for_service name) calls)) \<le> maxInt64"
  shows "list_all (rotation_ok name xs k ys) ts \<and>
    rr_counter (lb_data s) k = rr_counter lb k + of_nat (size (taken name ts)) \<and>
    taken name ts = mset (map (\<lambda>j. ys ! ((Suc c + j) mod length ys)) [0..<size (taken name ts)])"
  using run
proof (induction rule: interleaved.induct)
  case here
  have "taken name (map (\<lambda>c. (c, Begin)) calls) = {#}"
    by (induction calls) (auto simp: took_def split: lb_call.splits)
  moreover have "list_all (rotation_ok name xs k ys) (map (\<lambda>c. (c, Begin)) calls)"
    using calls by (auto simp: list_all_iff rotation_ok_def)
  ultimately show ?case by (simp add: free_lb_def)
next
  case (turn ts s j t' s')
  let ?n = "size (taken name ts)" and ?ts = "ts[j := t']"
  have ok: "rotation_ok name xs k ys (ts ! j)" using turn.IH turn.hyps(2) by (simp add: list_all_length)
  note st = balancer_step_rotation [OF turn.hyps(3) rot ok]
  have all: "list_all (rotation_ok name xs k ys) ?ts"
    using turn.IH st by (blast intro: list_all_update)
  have move: "taken name ?ts + took name (ts ! j) = taken name ts + took name t'"
    by (rule sum_list_move [OF turn.hyps(2)])
  have cnt: "rr_counter (lb_data s) k = rr_counter lb k + of_nat ?n" using turn.IH by blast
  show ?case
  proof (cases "took name t' = took name (ts ! j) \<and> rr_counter (lb_data s') k = rr_counter (lb_data s) k")
    case True
    then have "taken name ?ts = taken name ts" using move by simp
    then show ?thesis using all turn.IH True by presburger
  next
    case False
    let ?b = "ys ! nat (sint (abs64 (rr_counter (lb_data s) k + 1)) mod int (length ys))"
    have ts: "taken name ?ts = taken name ts + {#?b#}"
      and rr: "rr_counter (lb_data s') k = rr_counter (lb_data s) k + 1"
      using False st move by auto
    have "Suc ?n \<le> length (filter (for_service name) calls)"
      using taken_size [of name ?ts] interleaved_calls [OF interleaved.turn [OF turn.hyps]] ts by (simp add: comp_def)
    then have "sint (rr_counter lb k + of_nat (Suc ?n)) = int (c + Suc ?n)"
      using c by (intro sint_add_nat) simp_all
    then have "sint (rr_counter (lb_data s) k + 1) = int (Suc c + ?n)" using cnt by (simp add: ac_simps)
    then have b: "?b = ys ! ((Suc c + ?n) mod length ys)" by (simp add: abs64_pos nat_int_mod del: of_nat_Suc of_nat_add)
    have "taken name ts + {#?b#} =
        mset (map (\<lambda>i. ys ! ((Suc c + i) mod length ys)) [0..<?n]) + {#ys ! ((Suc c + ?n) mod length ys)#}"
      by (rule arg_cong2 [where f = "(+)"], rule conjunct2 [OF conjunct2 [OF turn.IH]], simp only: b)
    then have "taken name ?ts = mset (map (\<lambda>i. ys ! ((Suc c + i) mod length ys)) [0..<Suc ?n])"
      unfolding ts by simp
    moreover have "size (taken name ?ts) = Suc ?n" using ts by simp
    moreover have "rr_counter (lb_data s') k = rr_counter lb k + of_nat (Suc ?n)" using cnt rr by simp
    ultimately show ?thesis using all by metis
  qed
qed

lemma rotation_done:
  assumes "list_all (rotation_ok name xs k ys) ts" and "list_all (\<lambda>t. \<exists>x. snd t = Done x) ts"
  shows "mset (map snd (filter (\<lambda>t. for_service name (fst t)) ts)) =
    image_mset (\<lambda>b. Done (Selected (Returns (Inr (Some b))))) (taken name ts)"
  using assms
proof (induction ts)
  case (Cons t ts)
  obtain c x where t: "t = (c, Done x)" using Cons.prems(2) by (cases t) auto
  have "if for_service name c then \<exists>b. x = Selected (Returns (Inr (Some b))) \<and> took name t = {#b#} else took name t = {#}"
    using Cons.prems(1) t
    by (cases c; cases "Done x" rule: chosen_of.cases) (auto simp: rotation_ok_def took_def split: option.splits)
  then show ?case using Cons t by (auto split: if_splits)
qed simp

section \<open>Properties\<close>

text \<open>C23: A call of the balancer that runs alone is the sequential model's. However many services
  have connection counts, the atomic steps of \<^verbatim>\<open>Select\<close>, of \<^verbatim>\<open>ReportResult\<close> and of \<^verbatim>\<open>Stats\<close> end within a
  number of turns that is linear in the candidates and in the services, release the mutex, and
  leave the balancer and the result that the sequential definitions give.\<close>

theorem balancer_call_alone:
  assumes "gm_wf (connectionCount lb)" and "2 * call_size c + 2 * length (connectionCount lb) + 4 \<le> n"
  shows "run_alone (balancer_step u) n ((c, Begin), free_lb lb) =
    ((c, Done (call_result u c lb)), free_lb (call_after u c lb))"
proof (cases c)
  case (SelectCall name answer ctx r)
  then show ?thesis using select_call_alone [of name answer ctx r n u lb] assms(2) by simp
next
  case (ReportCall i res)
  then show ?thesis using report_call_alone [OF assms(1), of n u i res] assms(2) by simp
next
  case (StatsCall name)
  show ?thesis by (rule run_alone_more [of _ 1]) (use StatsCall assms(2) in \<open>simp_all add: locked_def free_lb_def\<close>)
qed

theorem balancer_call_alone_witness:
  "run_alone (balancer_step demo_tables) 6 ((ReportCall ''a'' \<lparr>rr_ServiceID = ''a'', Success = True,
      ResponseTime = 1, StatusCode = 200, ErrorMessage = []\<rparr>, Begin),
      free_lb (NewLoadBalancer\<lparr>connectionCount := [(''api'', [(''a'', 1)])]\<rparr>)) =
   ((ReportCall ''a'' \<lparr>rr_ServiceID = ''a'', Success = True,
      ResponseTime = 1, StatusCode = 200, ErrorMessage = []\<rparr>, Done Reported),
    free_lb (NewLoadBalancer\<lparr>connectionCount := [(''api'', [(''a'', 0)])]\<rparr>))"
  using balancer_call_alone [of "NewLoadBalancer\<lparr>connectionCount := [(''api'', [(''a'', 1)])]\<rparr>"
      "ReportCall ''a'' \<lparr>rr_ServiceID = ''a'', Success = True,
        ResponseTime = 1, StatusCode = 200, ErrorMessage = []\<rparr>" 6 demo_tables]
  by (simp add: gm_wf_def ReportResult_def NewLoadBalancer_def gm_map_def releaseConnection_def gm_get_def gm_set_def)

text \<open>C14: Rotations stay fair under concurrency. Whatever the schedule of the concurrent calls, once
  all of them have returned, the selections of a service balanced by round robin or by weighted
  round robin that make up m rounds have returned every entry of the rotation exactly m times: no
  turn of the counter is lost or given twice. The other calls may be reports, statistics and
  selections of services that use other counters, and the 64-bit counter must not overflow.\<close>

theorem concurrent_rotation_fair:
  assumes "interleaved (balancer_step u) (map (\<lambda>c. (c, Begin)) calls) (free_lb lb) ts s"
    and "list_all (\<lambda>t. \<exists>x. snd t = Done x) ts"
    and "candidates xs \<noteq> []" and "resolveStrategy u (candidates xs) = st" and "st = RoundRobin \<or> st = WeightedRoundRobin"
    and "rotation st name (candidates xs) = (k, ys)"
    and "list_all (rotates name xs k) calls"
    and "0 \<le> sint (rr_counter lb k)"
    and "length (filter (for_service name) calls) = m * length ys"
    and "sint (rr_counter lb k) + int (m * length ys) \<le> maxInt64"
  shows "mset (map snd (filter (\<lambda>t. for_service name (fst t)) ts)) =
    repeat_mset m (image_mset (\<lambda>b. Done (Selected (Returns (Inr (Some b))))) (mset ys))"
proof -
  let ?c = "nat (sint (rr_counter lb k))"
  have inv: "list_all (rotation_ok name xs k ys) ts"
    "taken name ts = mset (map (\<lambda>j. ys ! ((Suc ?c + j) mod length ys)) [0..<size (taken name ts)])"
    using rotation_interleaved [OF assms(1,3-7), of ?c] assms(8-10) by simp_all
  have "map fst ts = calls" using interleaved_calls [OF assms(1)] by (simp add: comp_def)
  then have "length (filter (\<lambda>t. for_service name (fst t)) ts) = m * length ys"
    using assms(9) by (auto simp: filter_map comp_def)
  then have "size (taken name ts) = m * length ys"
    using arg_cong [OF rotation_done [OF inv(1) assms(2)], of size]
    by (simp only: size_mset length_map size_image_mset)
  then have "taken name ts = repeat_mset m (mset ys)" using inv(2) cyclic_rounds by metis
  then show ?thesis using rotation_done [OF inv(1) assms(2)] by (simp add: image_mset_repeat)
qed

definition demo_call :: lb_call where
  "demo_call = SelectCall ''api''
     (Inr [demo_instance ''a'' HealthHealthy [], demo_instance ''b'' HealthHealthy []]) (demo_ctx []) 0"

theorem concurrent_rotation_fair_witness:
  "mset (map snd (filter (\<lambda>t. for_service ''api'' (fst t))
     (fst (scheduled (balancer_step demo_tables) [0, 1, 1, 0, 0, 1]
       (map (\<lambda>c. (c, Begin)) [demo_call, demo_call], free_lb NewLoadBalancer))))) =
   repeat_mset 1 (image_mset (\<lambda>b. Done (Selected (Returns (Inr (Some b)))))
     (mset [demo_instance ''a'' HealthHealthy [], demo_instance ''b'' HealthHealthy []]))"
proof (rule concurrent_rotation_fair [OF scheduled_interleaved])
  let ?xs = "[demo_instance ''a'' HealthHealthy [], demo_instance ''b'' HealthHealthy []]"
  have c: "candidates ?xs = ?xs" by (simp add: demo_instance_def candidates_def filterHealthy_def)
  show "candidates ?xs \<noteq> []" by (simp add: c)
  show "resolveStrategy demo_tables (candidates ?xs) = RoundRobin"
    by (simp add: c) (simp add: demo_instance_def meta_nonempty_def gm_get_def)
  show "rotation RoundRobin ''api'' (candidates ?xs) = (''api'', ?xs)" by (simp add: rotation_def c)
  have "fst (scheduled (balancer_step demo_tables) [0, 1, 1, 0, 0, 1]
      (map (\<lambda>c. (c, Begin)) [demo_call, demo_call], free_lb NewLoadBalancer)) =
      [(demo_call, Done (Selected (Returns (Inr (Some (?xs ! 0)))))), (demo_call, Done (Selected (Returns (Inr (Some (?xs ! 1))))))]"
    by code_simp
  then show "list_all (\<lambda>t. \<exists>x. snd t = Done x) (fst (scheduled (balancer_step demo_tables) [0, 1, 1, 0, 0, 1]
      (map (\<lambda>c. (c, Begin)) [demo_call, demo_call], free_lb NewLoadBalancer)))"
    by (simp only: list.pred_inject snd_conv) blast
qed (simp_all add: demo_call_def rr_counter_def NewLoadBalancer_def gm_get_or_def maxInt64_def)

text \<open>C15: Connection counts are exact under concurrency. Whatever the schedule of the concurrent
  calls, also while a report holds the mutex and selections add to the counters that it
  decrements, no connection count of a service and an instance goes below zero or above what it
  was plus the selections that have counted a connection to the instance; as long as no report of
  the instance is among the calls it is exactly that, and every report that is about to take a
  connection off still finds one.\<close>

theorem concurrent_connections:
  assumes "interleaved (balancer_step u) (map (\<lambda>c. (c, Begin)) calls) (free_lb lb) ts s"
    and "0 \<le> conn_count (lb_counts lb name) i"
    and "conn_count (lb_counts lb name) i + int (length calls) \<le> maxInt64"
  shows "0 \<le> conn_count (lb_counts (lb_data s) name) i \<and>
    conn_count (lb_counts (lb_data s) name) i \<le>
      conn_count (lb_counts lb name) i + int (length (filter (opened u name i) ts)) \<and>
    (list_all (\<lambda>c. \<not> reports i c) calls \<longrightarrow>
      conn_count (lb_counts (lb_data s) name) i =
        conn_count (lb_counts lb name) i + int (length (filter (opened u name i) ts))) \<and>
    ((\<exists>k < length ts. drops name i (ts ! k)) \<longrightarrow> 0 < conn_count (lb_counts (lb_data s) name) i)"
proof -
  let ?c = "conn_count (lb_counts lb name) i" and ?n = "length (filter (opened u name i) ts)"
  have n: "?n \<le> length calls"
    using interleaved_length [OF assms(1)] length_filter_le [of "opened u name i" ts] by simp
  have "conn_count (lb_counts (lb_data s) name) i = ?c + int ?n" if "list_all (\<lambda>c. \<not> reports i c) calls"
    using counts_exact [OF assms(1) that, of name] n assms(2,3)
      sint_add_nat [of "conn_word lb name i" "nat ?c" ?n] by (simp add: conn_count_word)
  then show ?thesis using counts_bounded [OF assms(1,2), of name i] assms(3) by (simp add: conn_count_word)
qed

text \<open>A report has seen one connection; a selection that compares the instances meanwhile still sees it.\<close>

definition demo_race :: "lb_call list" where
  "demo_race = [ReportCall ''a'' \<lparr>rr_ServiceID = ''a'', Success = True, ResponseTime = 1, StatusCode = 200,
      ErrorMessage = []\<rparr>,
    SelectCall ''api'' (Inr [demo_instance ''a'' HealthHealthy [(''lb_strategy'', ''least_connections'')]])
      (demo_ctx []) 0]"

definition demo_open :: LoadBalancer where
  "demo_open = NewLoadBalancer\<lparr>connectionCount := [(''api'', [(''a'', 1)])]\<rparr>"

theorem concurrent_connections_witness:
  "fst (scheduled (balancer_step demo_tables) [1, 1, 1, 1, 0, 0, 1, 0]
      (map (\<lambda>c. (c, Begin)) demo_race, free_lb demo_open)) \<noteq> [] \<and>
   0 \<le> conn_count (lb_counts (lb_data (snd (scheduled (balancer_step demo_tables) [1, 1, 1, 1, 0, 0, 1, 0]
      (map (\<lambda>c. (c, Begin)) demo_race, free_lb demo_open)))) ''api'') ''a'' \<and>
   conn_count (lb_counts (lb_data (snd (scheduled (balancer_step demo_tables) [1, 1, 1, 1, 0, 0, 1, 0]
      (map (\<lambda>c. (c, Begin)) demo_race, free_lb demo_open)))) ''api'') ''a'' \<le> 1 + 1"
proof -
  define x where "x = scheduled (balancer_step demo_tables) [1, 1, 1, 1, 0, 0, 1, 0]
      (map (\<lambda>c. (c, Begin)) demo_race, free_lb demo_open)"
  have run: "interleaved (balancer_step demo_tables) (map (\<lambda>c. (c, Begin)) demo_race) (free_lb demo_open) (fst x) (snd x)"
    unfolding x_def by (rule scheduled_interleaved)
  have n: "length (filter (opened demo_tables ''api'' ''a'') (fst x)) = 1" unfolding x_def by code_simp
  have c: "conn_count (lb_counts demo_open ''api'') ''a'' = 1"
    by (simp add: demo_open_def conn_count_def lb_counts_def gm_get_or_def gm_get_def)
  have l: "length demo_race = 2" by (simp add: demo_race_def)
  have "fst x \<noteq> []" using n by auto
  then show ?thesis unfolding x_def [symmetric]
    using concurrent_connections [OF run, of "''api''" "''a''"] n c l by (simp add: maxInt64_def)
qed

end
