(* ===== verification/Gateway_Threads.thy ===== *)
theory Gateway_Threads
  imports Gateway_Proxy Interleaving
begin

text \<open>
  Concurrent client requests in the proxy of \<^verbatim>\<open>internal/gateway/proxy.go\<close>. Every request runs
  \<^verbatim>\<open>Proxy.ServeHTTP\<close> in its own goroutine; what they share is the breaker map, guarded by its mutex,
  and the breakers in it, each guarded by its own. An attempt is four steps: the lookup with
  \<^verbatim>\<open>breakers.get\<close>, \<^verbatim>\<open>Allow\<close>, the round trip (which touches nothing shared) and the recording of the
  outcome; other requests run between any two of them.

  The lemmas show that a request alone is answered as the sequential model says, that every request
  is answered after a bounded number of its own steps whatever the others do, with the answer its
  own attempts call for, and how many calls a failing backend can get from all of them together.
\<close>

section \<open>Steps\<close>

text \<open>What does not change during a request: the environments of its attempts, the request, the
  service and the rest of the path, and the number of attempts.\<close>

record job =
  j_envs :: "nat \<Rightarrow> attempt_env"
  j_req :: request
  j_name :: string
  j_rem :: string
  j_max :: nat

datatype client_pc = Looking | Checking | Forwarding | Recording attempt | Answering "bufferedResponse option"

record client =
  cl_next :: nat
  cl_backend :: Backend
  cl_status :: go_int
  cl_resp :: "bufferedResponse option"
  cl_body :: body
  cl_log :: "attempt list"
  cl_pc :: client_pc

definition new_client :: "request \<Rightarrow> Backend \<Rightarrow> client" where
  "new_client r b =
     \<lparr>cl_next = 0, cl_backend = b, cl_status = 0, cl_resp = None,
      cl_body = MaxBytesReader (req_Body r) maxRequestBody, cl_log = [], cl_pc = Looking\<rparr>"

definition client_step ::
  "unicode_tables \<Rightarrow> proxy_api \<Rightarrow> job \<times> client \<Rightarrow> breakerMap \<Rightarrow> (job \<times> client) \<times> breakerMap" where
  "client_step u api t bm =
     (let j = fst t; c = snd t; env = j_envs j (cl_next c); i = be_ServiceID (cl_backend c)
      in case cl_pc c of
           Looking \<Rightarrow>
             if cl_next c < j_max j
             then (let b = pickBackend u (j_name j) (cl_next c) env (cl_backend c)
                   in ((j, c\<lparr>cl_backend := b, cl_pc := Checking\<rparr>), snd (breakerMap_get (be_ServiceID b) bm)))
             else ((j, c\<lparr>cl_pc := Answering None\<rparr>), bm)
         | Checking \<Rightarrow>
             (let (ok, cb) = Allow (ae_allow_at env) (breaker_of i bm)
              in ((j, if ok then c\<lparr>cl_pc := Forwarding\<rparr>
                      else c\<lparr>cl_status := 503, cl_log := cl_log c @ [CircuitOpen (cl_backend c)],
                             cl_next := Suc (cl_next c), cl_pc := Looking\<rparr>),
                  onBreaker i (\<lambda>_. cb) bm))
         | Forwarding \<Rightarrow>
             (let a = forward api env (j_req j) (cl_body c) (cl_backend c) (j_rem j)
              in ((j, c\<lparr>cl_body := bodyAfter a (cl_body c), cl_log := cl_log c @ [a], cl_pc := Recording a\<rparr>), bm))
         | Recording a \<Rightarrow>
             if attempt_ok a
             then ((j, c\<lparr>cl_pc := Answering (attempt_response a)\<rparr>), onBreaker i RecordSuccess bm)
             else (let c1 = c\<lparr>cl_next := Suc (cl_next c), cl_pc := Looking\<rparr>
                   in ((j, case attempt_response a of
                             Some br \<Rightarrow> c1\<lparr>cl_status := statusCode br, cl_resp := Some br\<rparr>
                           | None \<Rightarrow> c1),
                       onBreaker i (RecordFailure (ae_failure_at env)) bm))
         | Answering x \<Rightarrow> (t, bm))"

text \<open>The end of \<^verbatim>\<open>ServeHTTP\<close>.\<close>

definition client_answer :: "client \<Rightarrow> writer \<Rightarrow> writer" where
  "client_answer c w =
     (case (case cl_pc c of Answering x \<Rightarrow> x | _ \<Rightarrow> None) of
        Some br \<Rightarrow> writeTo br w
      | None \<Rightarrow>
          (case cl_resp c of
             Some br \<Rightarrow> writeTo br w
           | None \<Rightarrow> http_Error ''upstream request failed'' (if cl_status c = 0 then 502 else cl_status c) w))"

section \<open>Every request is answered\<close>

fun attempts_left :: "job \<times> client \<Rightarrow> nat" where
  "attempts_left (j, c) =
     (case cl_pc c of
        Looking \<Rightarrow> 4 * (j_max j - cl_next c) + 1
      | Checking \<Rightarrow> 4 * (j_max j - cl_next c - 1) + 4
      | Forwarding \<Rightarrow> 4 * (j_max j - cl_next c - 1) + 3
      | Recording a \<Rightarrow> 4 * (j_max j - cl_next c - 1) + 2
      | Answering x \<Rightarrow> 0)"

interpretation clients: thread_progress "client_step u api" attempts_left for u api
proof unfold_locales
  fix t :: "job \<times> client" and s t' s'
  assume st: "client_step u api t s = (t', s')"
  obtain j c where t: "t = (j, c)" by (cases t)
  show "attempts_left t' \<le> attempts_left t - 1"
    using st t by (cases "cl_pc c")
      (auto simp: client_step_def Let_def split: if_splits option.splits prod.splits)
qed

section \<open>One request alone\<close>

definition joined :: "client \<Rightarrow> breakerMap \<Rightarrow> loop_state" where
  "joined c bm =
     \<lparr>ls_backend = cl_backend c, ls_status = cl_status c, ls_resp = cl_resp c, ls_body = cl_body c,
      ls_breakers = bm, ls_log = cl_log c\<rparr>"

lemma onBreaker_after_get: "onBreaker i f (snd (breakerMap_get i bm)) = onBreaker i f bm"
  by (auto simp: onBreaker_def breakerMap_get_def gm_simps Let_def split: option.splits)

lemma breaker_of_after_get: "breaker_of j (snd (breakerMap_get i bm)) = breaker_of j bm"
  by (auto simp: breaker_of_eq breakerMap_get_def gm_simps Let_def split: option.splits)

abbreviation client_alone where
  "client_alone u api n j c bm \<equiv> run_alone (client_step u api) n ((j, c), bm)"

text \<open>The steps of one attempt together are the body of the loop.\<close>

lemma attempt_alone:
  assumes "cl_pc c = Looking" and "cl_next c < j_max j" and "undisturbed (j_envs j (cl_next c))"
  shows "\<exists>n \<le> 4. \<exists>c' bm'. (\<forall>m. client_alone u api (n + m) j c bm = client_alone u api m j c' bm') \<and>
    joined c' bm' = tryOnce api (j_envs j (cl_next c)) (j_req j) (j_rem j)
      ((joined c bm)\<lparr>ls_backend := pickBackend u (j_name j) (cl_next c) (j_envs j (cl_next c)) (cl_backend c)\<rparr>) \<and>
    cl_log c' \<noteq> [] \<and>
    (if attempt_ok (last (cl_log c')) then cl_pc c' = Answering (attempt_response (last (cl_log c')))
     else cl_pc c' = Looking \<and> cl_next c' = Suc (cl_next c))"
proof -
  let ?env = "j_envs j (cl_next c)"
  let ?b = "pickBackend u (j_name j) (cl_next c) ?env (cl_backend c)"
  let ?i = "be_ServiceID ?b"
  let ?st = "(joined c bm)\<lparr>ls_backend := ?b\<rparr>"
  let ?bm1 = "onBreaker ?i (\<lambda>_. snd (Allow (ae_allow_at ?env) (breaker_of ?i bm))) bm"
  define c1 where "c1 = c\<lparr>cl_backend := ?b, cl_pc := Checking\<rparr>"
  have s1: "client_step u api (j, c) bm = ((j, c1), snd (breakerMap_get ?i bm))"
    using assms by (simp add: client_step_def Let_def c1_def)
  show ?thesis
  proof (cases "refuses (ae_allow_at ?env) (breaker_of ?i bm)")
    case True
    define c2 where "c2 = c1\<lparr>cl_status := 503, cl_log := cl_log c1 @ [CircuitOpen ?b], cl_next := Suc (cl_next c1), cl_pc := Looking\<rparr>"
    have s2: "client_step u api (j, c1) (snd (breakerMap_get ?i bm)) = ((j, c2), ?bm1)"
      using Allow_refuses [OF True]
      by (simp add: client_step_def Let_def c1_def c2_def breaker_of_after_get onBreaker_after_get)
    have "client_alone u api (2 + m) j c bm = client_alone u api m j c2 ?bm1" for m
      using s1 s2 by simp
    moreover have "joined c2 ?bm1 = tryOnce api ?env (j_req j) (j_rem j) ?st"
      using assms(3) Allow_refuses [OF True]
      by (simp add: joined_def c2_def c1_def tryOnce_def undisturbed_def breaker_of_def [symmetric] Let_def)
    ultimately show ?thesis
      by (intro exI [of _ 2] conjI exI [of _ c2] exI [of _ ?bm1])
        (simp_all add: c2_def c1_def attempt_ok_def)
  next
    case False
    let ?a = "forward api ?env (j_req j) (cl_body c) ?b (j_rem j)"
    define c2 where "c2 = c1\<lparr>cl_pc := Forwarding\<rparr>"
    define c3 where "c3 = c2\<lparr>cl_body := bodyAfter ?a (cl_body c2), cl_log := cl_log c2 @ [?a], cl_pc := Recording ?a\<rparr>"
    have ok: "fst (Allow (ae_allow_at ?env) (breaker_of ?i bm))" using False by (simp add: Allow_iff)
    have s2: "client_step u api (j, c1) (snd (breakerMap_get ?i bm)) = ((j, c2), ?bm1)"
      using ok by (simp add: client_step_def Let_def split_beta c1_def c2_def breaker_of_after_get onBreaker_after_get)
    have s3: "client_step u api (j, c2) ?bm1 = ((j, c3), ?bm1)"
      by (simp add: client_step_def Let_def c3_def c2_def c1_def)
    obtain c4 bm4 where s4: "client_step u api (j, c3) ?bm1 = ((j, c4), bm4)"
      by (cases "attempt_ok ?a") (simp_all add: client_step_def Let_def c3_def)
    have "client_alone u api (4 + m) j c bm = client_alone u api m j c4 bm4" for m
      using s1 s2 s3 s4 by (simp add: numeral_eq_Suc)
    moreover have "joined c4 bm4 = tryOnce api ?env (j_req j) (j_rem j) ?st"
      using s4 assms(3) ok
      by (auto simp: client_step_def joined_def c3_def c2_def c1_def tryOnce_def undisturbed_def split_beta
          breaker_of_def [symmetric] Let_def split: if_splits option.splits)
    ultimately show ?thesis using s4
      by (intro exI [of _ 4] conjI exI [of _ c4] exI [of _ bm4])
        (auto simp: client_step_def c3_def c2_def c1_def Let_def split: if_splits option.splits)
  qed
qed

lemma joined_simps [simp]:
  "ls_log (joined c bm) = cl_log c" "ls_breakers (joined c bm) = bm" "ls_backend (joined c bm) = cl_backend c"
  "ls_resp (joined c bm) = cl_resp c" "ls_status (joined c bm) = cl_status c" "ls_body (joined c bm) = cl_body c"
  by (simp_all add: joined_def)

lemma loop_alone:
  assumes "\<forall>k. undisturbed (j_envs j k)"
  shows "cl_pc c = Looking \<Longrightarrow> n = j_max j - cl_next c \<Longrightarrow>
    \<exists>m \<le> 4 * n + 1. \<exists>c' bm' early. client_alone u api m j c bm = ((j, c'), bm') \<and>
      retryLoop u api (j_envs j) (j_req j) (j_name j) (j_rem j) n (cl_next c) (joined c bm) = (early, joined c' bm') \<and>
      cl_pc c' = Answering early"
proof (induction n arbitrary: c bm)
  case 0
  then show ?case
    by (intro exI [of _ 1] conjI exI [of _ "c\<lparr>cl_pc := Answering None\<rparr>"] exI [of _ bm] exI [of _ None])
      (simp_all add: client_step_def joined_def Let_def)
next
  case (Suc n)
  have nx: "cl_next c < j_max j" using Suc.prems by simp
  obtain k c1 bm1 where k: "k \<le> 4" "\<And>m. client_alone u api (k + m) j c bm = client_alone u api m j c1 bm1"
    and tr: "tryOnce api (j_envs j (cl_next c)) (j_req j) (j_rem j)
      ((joined c bm)\<lparr>ls_backend := pickBackend u (j_name j) (cl_next c) (j_envs j (cl_next c)) (cl_backend c)\<rparr>)
      = joined c1 bm1"
    and fin: "if attempt_ok (last (cl_log c1)) then cl_pc c1 = Answering (attempt_response (last (cl_log c1)))
      else cl_pc c1 = Looking \<and> cl_next c1 = Suc (cl_next c)"
    using attempt_alone [OF Suc.prems(1) nx, of u api bm] assms by metis
  show ?case
  proof (cases "attempt_ok (last (cl_log c1))")
    case True
    then show ?thesis using k(1) k(2) [of 0] fin tr
      by (intro exI [of _ k] conjI exI [of _ c1] exI [of _ bm1] exI [of _ "attempt_response (last (cl_log c1))"])
        (simp_all add: Let_def)
  next
    case False
    then have l: "cl_pc c1 = Looking" and nc: "cl_next c1 = Suc (cl_next c)" using fin by simp_all
    have "n = j_max j - cl_next c1" using nc Suc.prems(2) by simp
    from Suc.IH [OF l this, of bm1] nc obtain m c' bm' early where
      m: "m \<le> 4 * n + 1" "client_alone u api m j c1 bm1 = ((j, c'), bm')"
      "retryLoop u api (j_envs j) (j_req j) (j_name j) (j_rem j) n (Suc (cl_next c)) (joined c1 bm1) = (early, joined c' bm')"
      "cl_pc c' = Answering early" by metis
    show ?thesis
      by (intro exI [of _ "k + m"] conjI exI [of _ c'] exI [of _ bm'] exI [of _ early])
        (use k(1) k(2) [of m] m False tr in \<open>simp_all add: Let_def\<close>)
  qed
qed

lemma client_alone_done:
  "cl_pc c = Answering x \<Longrightarrow> client_alone u api n j c bm = ((j, c), bm)"
  by (induction n) (simp_all add: client_step_def Let_def)

text \<open>The goroutine of a request whose service was found.\<close>

definition client_of :: "(nat \<Rightarrow> attempt_env) \<Rightarrow> Proxy \<Rightarrow> request \<Rightarrow> string \<Rightarrow> string \<Rightarrow> Backend \<Rightarrow> job \<times> client" where
  "client_of envs p r name remainder b =
     (\<lparr>j_envs = envs, j_req = r, j_name = name, j_rem = remainder,
       j_max = nat (wrap64 (RetryCount (resilience p) + 1))\<rparr>, new_client r b)"

lemma ServeHTTP_alone:
  assumes "routed u envs p r name remainder b" and "\<forall>k. undisturbed (envs k)"
    and "4 * nat (wrap64 (RetryCount (resilience p) + 1)) + 1 \<le> n"
  shows "\<exists>c bm'. run_alone (client_step u api) n (client_of envs p r name remainder b, bm) =
      ((fst (client_of envs p r name remainder b), c), bm') \<and> (\<exists>x. cl_pc c = Answering x) \<and>
      Proxy_ServeHTTP u api envs p r w bm = (client_answer c w, bm', cl_log c)"
proof -
  let ?N = "nat (wrap64 (RetryCount (resilience p) + 1))"
  define j where "j = fst (client_of envs p r name remainder b)"
  have js: "j_envs j = envs" "j_req j = r" "j_name j = name" "j_rem j = remainder" "j_max j = ?N"
    by (simp_all add: j_def client_of_def)
  have start: "joined (new_client r b) bm = start_state r b bm" "cl_pc (new_client r b) = Looking" "cl_next (new_client r b) = 0"
    by (simp_all add: joined_def new_client_def start_state_def)
  obtain m c bm' early where m: "m \<le> 4 * ?N + 1" "client_alone u api m j (new_client r b) bm = ((j, c), bm')"
    "retryLoop u api envs r name remainder ?N 0 (start_state r b bm) = (early, joined c bm')"
    "cl_pc c = Answering early"
    using loop_alone [of j "new_client r b" ?N u api bm] assms(2) js start by auto
  have "client_alone u api (m + (n - m)) j (new_client r b) bm = ((j, c), bm')"
    using m(2,4) by (simp only: run_alone_add client_alone_done)
  moreover have "m + (n - m) = n" using m(1) assms(3) by simp
  moreover have "Proxy_ServeHTTP u api envs p r w bm = (client_answer c w, bm', cl_log c)"
    using assms(1) m(3,4)
    by (simp add: Proxy_ServeHTTP_def routed_def start_state_def client_answer_def split: option.splits)
  ultimately show ?thesis using m(4) by (auto simp: j_def client_of_def)
qed

section \<open>What a request is answered\<close>

definition started :: "job \<times> client \<Rightarrow> bool" where
  "started t \<longleftrightarrow> (\<exists>r b. snd t = new_client r b)"

definition settled :: "bufferedResponse option \<Rightarrow> go_int \<Rightarrow> attempt list \<Rightarrow> bool" where
  "settled resp status lg \<longleftrightarrow> list_all (\<lambda>a. \<not> attempt_ok a) lg \<and>
     resp = (if responses lg = [] then None else Some (last (responses lg))) \<and>
     (responses lg = [] \<longrightarrow> status = (if list_ex is_open lg then 503 else 0))"

lemma settled_open: "settled resp status lg \<Longrightarrow> settled resp 503 (lg @ [CircuitOpen b])"
  by (auto simp: settled_def attempt_ok_def)

lemma settled_failed:
  "settled resp status lg \<Longrightarrow> \<not> attempt_ok a \<Longrightarrow> \<not> is_open a \<Longrightarrow>
     (case attempt_response a of
        Some br \<Rightarrow> settled (Some br) (statusCode br) (lg @ [a])
      | None \<Rightarrow> settled resp status (lg @ [a]))"
  by (auto simp: settled_def split: option.splits)

text \<open>What is known about a request at each point.\<close>

fun client_inv :: "job \<times> client \<Rightarrow> bool" where
  "client_inv (j, c) \<longleftrightarrow>
     (case cl_pc c of
        Looking \<Rightarrow> cl_next c \<le> j_max j \<and> length (cl_log c) = cl_next c \<and> settled (cl_resp c) (cl_status c) (cl_log c)
      | Recording a \<Rightarrow> cl_next c < j_max j \<and> length (cl_log c) = Suc (cl_next c) \<and> \<not> is_open a \<and>
          cl_log c = butlast (cl_log c) @ [a] \<and> settled (cl_resp c) (cl_status c) (butlast (cl_log c))
      | Answering None \<Rightarrow> length (cl_log c) = j_max j \<and> settled (cl_resp c) (cl_status c) (cl_log c)
      | Answering (Some br) \<Rightarrow> cl_log c \<noteq> [] \<and> length (cl_log c) \<le> j_max j \<and>
          attempt_response (last (cl_log c)) = Some br \<and> attempt_ok (last (cl_log c)) \<and>
          list_all (\<lambda>a. \<not> attempt_ok a) (butlast (cl_log c))
      | _ \<Rightarrow> cl_next c < j_max j \<and> length (cl_log c) = cl_next c \<and> settled (cl_resp c) (cl_status c) (cl_log c))"

lemma client_inv_step:
  assumes "client_inv t" and "client_step u api t bm = (t', bm')"
  shows "client_inv t' \<and> fst t' = fst t"
proof -
  obtain j c where t: "t = (j, c)" by (cases t)
  show ?thesis
  proof (cases "cl_pc c")
    case (Recording a)
    define lg where "lg = butlast (cl_log c)"
    have r: "cl_next c < j_max j" "length lg = cl_next c" "\<not> is_open a" "cl_log c = lg @ [a]"
      "settled (cl_resp c) (cl_status c) lg"
      using assms(1) t Recording by (auto simp: lg_def)
    show ?thesis
    proof (cases "attempt_ok a")
      case True
      then obtain br where "attempt_response a = Some br" using attempt_ok_response by blast
      then show ?thesis using r True assms(2) t Recording by (auto simp: client_step_def Let_def settled_def)
    next
      case False
      then show ?thesis using r assms(2) t Recording settled_failed [OF r(5) False r(3)]
        by (auto simp: client_step_def Let_def split: option.splits)
    qed
  next
    case (Answering x)
    then show ?thesis using assms t by (cases x) (auto simp: client_step_def Let_def)
  qed (use assms t settled_open in \<open>auto simp: client_step_def Let_def split_beta split: if_splits\<close>)
qed

lemma client_inv_answer:
  assumes "client_inv (j, c)" and "cl_pc c = Answering x"
  shows "length (cl_log c) \<le> j_max j \<and> list_all (\<lambda>a. \<not> attempt_ok a) (butlast (cl_log c)) \<and>
    (length (cl_log c) < j_max j \<longrightarrow> cl_log c \<noteq> [] \<and> attempt_ok (last (cl_log c))) \<and>
    client_answer c w =
      (if responses (cl_log c) = []
       then http_Error ''upstream request failed'' (if list_ex is_open (cl_log c) then 503 else 502) w
       else writeTo (last (responses (cl_log c))) w)"
proof (cases x)
  case None
  then show ?thesis using assms
    by (auto simp: client_answer_def settled_def list_all_iff dest: in_set_butlastD)
next
  case (Some br)
  then have l: "cl_log c = butlast (cl_log c) @ [last (cl_log c)]" using assms by simp
  then have "last (responses (cl_log c)) = br" "responses (cl_log c) \<noteq> []"
    using responses_snoc(2) [of "butlast (cl_log c)" "last (cl_log c)"] assms Some by auto
  then show ?thesis using assms Some by (simp add: client_answer_def)
qed

lemma started_inv: "started t \<Longrightarrow> client_inv t"
  by (cases t) (auto simp: started_def new_client_def settled_def)

lemma started_left: "started t \<Longrightarrow> attempts_left t = 4 * j_max (fst t) + 1"
  by (cases t) (auto simp: started_def new_client_def)

lemma client_step_fst: "client_step u api t bm = (t', bm') \<Longrightarrow> fst t' = fst t"
  by (auto simp: client_step_def Let_def split_beta split: client_pc.splits option.splits if_splits)

section \<open>Calls to a failing backend\<close>

definition called :: "string \<Rightarrow> attempt list \<Rightarrow> nat" where
  "called i lg = length (filter (\<lambda>a. \<not> is_open a \<and> be_ServiceID (attempt_backend a) = i) lg)"

text \<open>The calls that the backend's breaker has let through, and those whose outcome it does not know yet.\<close>

definition admitted :: "string \<Rightarrow> job \<times> client \<Rightarrow> nat" where
  "admitted i t = called i (cl_log (snd t)) +
     of_bool (cl_pc (snd t) = Forwarding \<and> be_ServiceID (cl_backend (snd t)) = i)"

definition pending :: "string \<Rightarrow> job \<times> client \<Rightarrow> nat" where
  "pending i t = of_bool ((cl_pc (snd t) = Forwarding \<or> (\<exists>a. cl_pc (snd t) = Recording a)) \<and>
     be_ServiceID (cl_backend (snd t)) = i)"

text \<open>Every answer of the backend to this request counts as a failure.\<close>

definition fails_at :: "proxy_api \<Rightarrow> string \<Rightarrow> job \<Rightarrow> bool" where
  "fails_at api i j \<longleftrightarrow>
     (\<forall>k bdy b. be_ServiceID b = i \<longrightarrow> \<not> attempt_ok (forward api (j_envs j k) (j_req j) bdy b (j_rem j)))"

definition herd_ok :: "proxy_api \<Rightarrow> string \<Rightarrow> job set \<Rightarrow> job \<times> client \<Rightarrow> bool" where
  "herd_ok api i js t \<longleftrightarrow> fst t \<in> js \<and> fails_at api i (fst t) \<and>
     (\<forall>a. cl_pc (snd t) = Recording a \<longrightarrow> be_ServiceID (cl_backend (snd t)) = i \<longrightarrow> \<not> attempt_ok a)"

lemma forward_backend: "attempt_backend (forward api env r bdy b rem) = b"
  by (auto simp: forward_def Let_def split: sum.splits prod.splits)

lemma called_snoc: "called i (lg @ [a]) = called i lg + of_bool (\<not> is_open a \<and> be_ServiceID (attempt_backend a) = i)"
  by (simp add: called_def)

lemma pending_le: "pending i t \<le> 1"
  by (simp add: pending_def)

lemma called_le: "called i (cl_log (snd t)) \<le> admitted i t"
  by (simp add: admitted_def)

text \<open>What a step means for the backend's breaker: nothing, a call that it lets through, or a failure.\<close>

inductive herd_move :: "string \<Rightarrow> job \<times> client \<Rightarrow> breakerMap \<Rightarrow> job \<times> client \<Rightarrow> breakerMap \<Rightarrow> bool"
  for i t bm t' bm' where
  aside: "breaker_of i bm' = breaker_of i bm \<Longrightarrow> admitted i t' = admitted i t \<Longrightarrow> pending i t' = pending i t \<Longrightarrow>
    herd_move i t bm t' bm'"
| through: "\<not> refuses (ae_allow_at (j_envs (fst t) k)) (breaker_of i bm) \<Longrightarrow>
    breaker_of i bm' = snd (Allow (ae_allow_at (j_envs (fst t) k)) (breaker_of i bm)) \<Longrightarrow>
    admitted i t' = admitted i t + 1 \<Longrightarrow> pending i t' = pending i t + 1 \<Longrightarrow> herd_move i t bm t' bm'"
| failure: "breaker_of i bm' = RecordFailure (ae_failure_at (j_envs (fst t) k)) (breaker_of i bm) \<Longrightarrow>
    admitted i t' = admitted i t \<Longrightarrow> pending i t = pending i t' + 1 \<Longrightarrow> herd_move i t bm t' bm'"

lemmas herd_simps = client_step_def Let_def herd_ok_def admitted_def pending_def breaker_of_onBreaker
  breaker_of_after_get called_snoc forward_backend

lemma herd_checking:
  assumes "herd_ok api i js (j, c)" and "client_step u api (j, c) bm = (t', bm')" and "cl_pc c = Checking"
  shows "herd_ok api i js t' \<and> herd_move i (j, c) bm t' bm'"
proof -
  let ?at = "ae_allow_at (j_envs j (cl_next c))" and ?b = "be_ServiceID (cl_backend c)"
  show ?thesis
  proof (cases "refuses ?at (breaker_of ?b bm)")
    case True
    then show ?thesis using assms Allow_refuses [OF True]
      by (intro conjI herd_move.aside) (auto simp: herd_simps)
  next
    case False
    then have "fst (Allow ?at (breaker_of ?b bm))" by (simp add: Allow_iff)
    then have e: "t' = (j, c\<lparr>cl_pc := Forwarding\<rparr>)" "bm' = onBreaker ?b (\<lambda>_. snd (Allow ?at (breaker_of ?b bm))) bm"
      using assms(2,3) by (simp_all add: client_step_def Let_def split_beta)
    have ok: "herd_ok api i js t'" using assms(1) by (simp add: e(1) herd_ok_def)
    show ?thesis
    proof (cases "?b = i")
      case True
      then show ?thesis using ok False assms(3)
        by (intro conjI herd_move.through [where k = "cl_next c"]) (simp_all add: e herd_simps)
    qed (intro conjI ok herd_move.aside, use assms(3) in \<open>simp_all add: e herd_simps\<close>)
  qed
qed

lemma herd_forwarding:
  assumes "herd_ok api i js (j, c)" and "client_step u api (j, c) bm = (t', bm')" and "cl_pc c = Forwarding"
  shows "herd_ok api i js t' \<and> herd_move i (j, c) bm t' bm'"
proof -
  let ?a = "forward api (j_envs j (cl_next c)) (j_req j) (cl_body c) (cl_backend c) (j_rem j)"
  have e: "t' = (j, c\<lparr>cl_body := bodyAfter ?a (cl_body c), cl_log := cl_log c @ [?a], cl_pc := Recording ?a\<rparr>)" "bm' = bm"
    using assms(2,3) by (simp_all add: client_step_def Let_def)
  have "be_ServiceID (cl_backend c) = i \<Longrightarrow> \<not> attempt_ok ?a"
    using assms(1) by (simp add: herd_ok_def fails_at_def)
  then have "herd_ok api i js t'" using assms(1) by (simp add: e(1) herd_ok_def)
  then show ?thesis using assms(3) by (intro conjI herd_move.aside) (simp_all add: e herd_simps)
qed

lemma herd_recording:
  assumes "herd_ok api i js (j, c)" and "client_step u api (j, c) bm = (t', bm')" and "cl_pc c = Recording a"
  shows "herd_ok api i js t' \<and> herd_move i (j, c) bm t' bm'"
proof (cases "be_ServiceID (cl_backend c) = i")
  case True
  then have "\<not> attempt_ok a" using assms(1,3) by (simp add: herd_ok_def)
  then show ?thesis using True assms
    by (intro conjI herd_move.failure [where k = "cl_next c"]) (auto simp: herd_simps split: option.splits)
next
  case False
  then show ?thesis using assms
    by (intro conjI herd_move.aside) (auto simp: herd_simps split: option.splits if_splits)
qed

lemma herd_step:
  assumes "herd_ok api i js t" and "client_step u api t bm = (t', bm')"
  shows "herd_ok api i js t' \<and> herd_move i t bm t' bm'"
proof -
  obtain j c where t: "t = (j, c)" by (cases t)
  show ?thesis
  proof (cases "cl_pc c")
    case Looking
    then show ?thesis using assms t
      by (intro conjI herd_move.aside) (auto simp: herd_simps split: if_splits)
  next
    case (Answering x)
    then show ?thesis using assms t by (intro conjI herd_move.aside) (auto simp: herd_simps)
  next
    case Checking
    then show ?thesis using herd_checking assms unfolding t by blast
  next
    case Forwarding
    then show ?thesis using herd_forwarding assms unfolding t by blast
  next
    case (Recording a)
    then show ?thesis using herd_recording assms unfolding t by blast
  qed
qed

text \<open>While the backend's breaker is closed, it has counted every call whose outcome is known; once
  it is open, it lets nothing through.\<close>

definition herd_inv :: "job set \<Rightarrow> int \<Rightarrow> int \<Rightarrow> duration \<Rightarrow> nat \<Rightarrow> nat \<Rightarrow> nat \<Rightarrow> CircuitBreaker \<Rightarrow> bool" where
  "herd_inv js f0 T d C A P cb \<longleftrightarrow>
     failureThreshold cb = T \<and> breakDuration cb = d \<and> f0 + int A \<le> max 1 T - 1 + int C \<and>
     (state cb = BreakerClosed \<and> f0 + int A = failureCount cb + int P \<and>
        0 \<le> failureCount cb \<and> failureCount cb < max 1 T \<or>
      state cb = BreakerOpen \<and> (\<exists>j \<in> js. \<exists>k. openedAt cb = ae_failure_at (j_envs j k)))"

text \<open>No request asks the breaker after a break that a failure of any of them began.\<close>

definition within_break :: "job set \<Rightarrow> duration \<Rightarrow> bool" where
  "within_break js d \<longleftrightarrow>
     (\<forall>j \<in> js. \<forall>j' \<in> js. \<forall>k k'. time_Sub (ae_allow_at (j_envs j k)) (ae_failure_at (j_envs j' k')) < d)"

lemma herd_inv_through:
  assumes "herd_inv js f0 T d C A P cb" and "within_break js d" and "j \<in> js" and "P + 1 \<le> C"
    and "\<not> refuses (ae_allow_at (j_envs j k)) cb"
  shows "herd_inv js f0 T d C (A + 1) (P + 1) (snd (Allow (ae_allow_at (j_envs j k)) cb))"
proof (cases "state cb")
  case BreakerOpen
  then show ?thesis using assms(1-3,5) by (auto simp: herd_inv_def within_break_def refuses_def)
qed (use assms in \<open>auto simp: herd_inv_def Allow_def\<close>)

lemma herd_inv_failure:
  assumes "herd_inv js f0 T d C A (P + 1) cb" and "j \<in> js" and "is_int64 T"
  shows "herd_inv js f0 T d C A P (RecordFailure (ae_failure_at (j_envs j k)) cb)"
proof (cases "state cb")
  case BreakerClosed
  then have "wrap64 (failureCount cb + 1) = failureCount cb + 1"
    using assms(1,3) by (intro wrap64_nonneg) (auto simp: herd_inv_def int_range_defs)
  then show ?thesis using assms BreakerClosed by (auto simp: herd_inv_def RecordFailure_def Let_def)
qed (use assms in \<open>auto simp: herd_inv_def RecordFailure_def Let_def\<close>)

lemma pending_sum: "sum_list (map (pending i) ts) \<le> length ts"
proof (induction ts)
  case (Cons t ts)
  then show ?case using pending_le [of i t] by simp
qed simp

lemma herd_interleaved:
  assumes "interleaved (client_step u api) ts0 bm0 ts bm"
    and "list_all (herd_ok api i js) ts0" and "within_break js d" and "is_int64 T"
    and "herd_inv js f0 T d (length ts0) (sum_list (map (admitted i) ts0)) (sum_list (map (pending i) ts0)) (breaker_of i bm0)"
  shows "list_all (herd_ok api i js) ts \<and>
    herd_inv js f0 T d (length ts0) (sum_list (map (admitted i) ts)) (sum_list (map (pending i) ts)) (breaker_of i bm)"
  using assms(1)
proof (induction rule: interleaved.induct)
  case here
  then show ?case using assms(2,5) by simp
next
  case (turn ts bm k t' bm')
  let ?A = "\<lambda>ts. sum_list (map (admitted i) ts)" and ?P = "\<lambda>ts. sum_list (map (pending i) ts)"
  let ?ts = "ts[k := t']"
  have ok: "herd_ok api i js (ts ! k)" using turn.IH turn.hyps(2) by (simp add: list_all_length)
  then have j: "fst (ts ! k) \<in> js" by (simp add: herd_ok_def)
  have A: "?A ?ts + admitted i (ts ! k) = ?A ts + admitted i t'" and P: "?P ?ts + pending i (ts ! k) = ?P ts + pending i t'"
    by (rule sum_list_move [OF turn.hyps(2)])+
  have le: "?P ?ts \<le> length ts0" using pending_sum [of i ?ts] interleaved_length [OF turn.hyps(1)] by simp
  have "herd_inv js f0 T d (length ts0) (?A ?ts) (?P ?ts) (breaker_of i bm')"
    using conjunct2 [OF herd_step [OF ok turn.hyps(3)]]
  proof cases
    case aside
    then show ?thesis using turn.IH A P by simp
  next
    case (through m)
    then have "?A ?ts = ?A ts + 1" "?P ?ts = ?P ts + 1" using A P by simp_all
    then show ?thesis using herd_inv_through [OF _ assms(3) j _ through(1)] turn.IH le through(2) by simp
  next
    case (failure m)
    then have "?A ?ts = ?A ts" "?P ts = ?P ?ts + 1" using A P by simp_all
    then show ?thesis using herd_inv_failure [OF _ j assms(4)] turn.IH failure(1) by simp
  qed
  then show ?case using turn.IH herd_step [OF ok turn.hyps(3)] by (simp add: list_all_update)
qed

section \<open>Properties\<close>

text \<open>Two clients of a service that does not answer.\<close>

definition demo_herd :: "(job \<times> client) list" where
  "demo_herd = replicate 2 (client_of (\<lambda>_. demo_attempt (Inl ''timeout'')) demo_proxy (demo_req ''/api/api/x'')
     ''api'' ''/x'' demo_backend)"

lemma demo_started: "list_all started demo_herd"
  by (auto simp: demo_herd_def client_of_def started_def numeral_2_eq_2)

lemma demo_herd_fails: "list_all (\<lambda>t. fails_at demo_proxy_api ''api-1'' (fst t)) demo_herd"
  by (simp add: demo_herd_def client_of_def fails_at_def demo_attempt_def forward_def demo_proxy_api_def
      attempt_ok_def Let_def numeral_2_eq_2)

lemma demo_within_break: "within_break (fst ` set demo_herd) (20 * Second)"
  by (simp add: demo_herd_def client_of_def within_break_def demo_attempt_def time_Sub_def int_range_defs)

text \<open>One request alone is the sequential proxy. The atomic steps of a client's goroutine, run for
  four turns per attempt and one more without interference, answer the client, and the bytes
  written, the breaker map and the log of attempts are those of \<^verbatim>\<open>ServeHTTP\<close> in the sequential model.\<close>

theorem client_refines_ServeHTTP:
  assumes "routed u envs p r name remainder b" and "\<forall>k. undisturbed (envs k)"
    and "4 * nat (wrap64 (RetryCount (resilience p) + 1)) + 1 \<le> n"
  shows "\<exists>c bm'. run_alone (client_step u api) n (client_of envs p r name remainder b, bm) =
      ((fst (client_of envs p r name remainder b), c), bm') \<and> (\<exists>x. cl_pc c = Answering x) \<and>
      Proxy_ServeHTTP u api envs p r w bm = (client_answer c w, bm', cl_log c)"
  using assms by (rule ServeHTTP_alone)

theorem client_refines_ServeHTTP_witness:
  "\<exists>c bm'. run_alone (client_step demo_utables demo_proxy_api) 17
      (client_of (\<lambda>_. demo_attempt (Inl ''timeout'')) demo_proxy (demo_req ''/api/api/x'') ''api'' ''/x'' demo_backend, demo_bm) =
      ((fst (client_of (\<lambda>_. demo_attempt (Inl ''timeout'')) demo_proxy (demo_req ''/api/api/x'') ''api'' ''/x'' demo_backend), c), bm') \<and>
      Proxy_ServeHTTP demo_utables demo_proxy_api (\<lambda>_. demo_attempt (Inl ''timeout'')) demo_proxy
        (demo_req ''/api/api/x'') new_writer demo_bm = (client_answer c new_writer, bm', cl_log c)"
  using client_refines_ServeHTTP [OF demo_routed, of "Inl ''timeout''" 17 demo_proxy_api demo_bm new_writer]
  by (auto simp: undisturbed_def demo_attempt_def wrap64_id int_range_defs)

text \<open>Every request is answered, and with what its own attempts call for. However the goroutines
  of the clients are scheduled and whatever they do to the shared breakers, a request that gets
  four turns for each of its attempts and one more is answered after at most \<^verbatim>\<open>RetryCount+1\<close> attempts:
  all but the last failed, it made all of them unless the last one succeeded, and the client gets
  the last response that any of them got, or else 503 if a breaker refused and 502 otherwise.\<close>

theorem concurrent_clients_answered:
  assumes "list_all started ts0" and "k < length ts0" and "4 * j_max (fst (ts0 ! k)) + 1 \<le> count_list ks k"
    and "fst (scheduled (client_step u api) ks (ts0, bm)) = ts"
  shows "\<exists>c x. ts ! k = (fst (ts0 ! k), c) \<and> cl_pc c = Answering x \<and> length (cl_log c) \<le> j_max (fst (ts0 ! k)) \<and>
    list_all (\<lambda>a. \<not> attempt_ok a) (butlast (cl_log c)) \<and>
    (length (cl_log c) < j_max (fst (ts0 ! k)) \<longrightarrow> cl_log c \<noteq> [] \<and> attempt_ok (last (cl_log c))) \<and>
    client_answer c w =
      (if responses (cl_log c) = []
       then http_Error ''upstream request failed'' (if list_ex is_open (cl_log c) then 503 else 502) w
       else writeTo (last (responses (cl_log c))) w)"
proof -
  let ?j = "fst (ts0 ! k)"
  have run: "interleaved (client_step u api) ts0 bm ts (snd (scheduled (client_step u api) ks (ts0, bm)))"
    using scheduled_interleaved [of "client_step u api" ts0 bm ks] assms(4) by simp
  have k: "k < length ts" using interleaved_length [OF run] assms(2) by simp
  have "started (ts0 ! k)" using assms(1,2) by (simp add: list_all_length)
  then have "attempts_left (ts0 ! k) = 4 * j_max ?j + 1" by (rule started_left)
  then have left: "attempts_left (ts ! k) = 0"
    using clients.scheduled_left [of k "(ts0, bm)" u api ks] assms(2-4) by simp
  have "map fst ts = map fst ts0" by (rule interleaved_constant [OF run client_step_fst])
  then have "fst (ts ! k) = ?j" using k assms(2) by (metis nth_map)
  then obtain c where c: "ts ! k = (?j, c)" by (metis prod.collapse)
  obtain x where x: "cl_pc c = Answering x" using left c by (cases "cl_pc c") auto
  have "list_all client_inv ts0" using assms(1) started_inv by (auto simp: list_all_iff)
  then have "list_all client_inv ts"
    using interleaved_invariant [OF run, of "\<lambda>s. True" client_inv] client_inv_step by blast
  then have "client_inv (ts ! k)" using k by (simp only: list_all_length)
  then have "client_inv (?j, c)" by (simp only: c)
  note client_inv_answer [OF this x, of w]
  then show ?thesis using c x by (intro exI [of _ c] exI [of _ x] conjI) (blast+)
qed

theorem concurrent_clients_answered_witness:
  "\<exists>c x. fst (scheduled (client_step demo_utables demo_proxy_api) (concat (replicate 17 [0, 1])) (demo_herd, demo_bm)) ! 1 =
      (fst (demo_herd ! 1), c) \<and> cl_pc c = Answering x \<and> length (cl_log c) \<le> 4"
proof -
  have "count_list (concat (replicate 17 [0, 1 :: nat])) 1 = 17" by (simp add: numeral_eq_Suc)
  moreover have "1 < length demo_herd" "j_max (fst (demo_herd ! 1)) = 4"
    by (simp_all add: demo_herd_def client_of_def wrap64_id int_range_defs numeral_2_eq_2)
  ultimately show ?thesis
    using concurrent_clients_answered [of demo_herd 1 "concat (replicate 17 [0, 1])" demo_utables demo_proxy_api demo_bm _ new_writer]
      demo_started by fastforce
qed

text \<open>C5: The breaker bounds the whole herd. When every answer of a backend fails, its breaker is closed
  with f failures counted, and no request asks it again after the break, then all concurrent requests
  together make at most threshold - 1 - f calls to it and one more each, whatever the schedule and
  however many retries each may make; requests to other backends may go any way.\<close>

theorem herd_bound:
  assumes "interleaved (client_step u api) ts0 bm0 ts bm"
    and "list_all started ts0" and "list_all (\<lambda>t. fails_at api i (fst t)) ts0"
    and "within_break (fst ` set ts0) (breakDuration (breaker_of i bm0))"
    and "is_int64 (failureThreshold (breaker_of i bm0))"
    and "state (breaker_of i bm0) = BreakerClosed" and "failureCount (breaker_of i bm0) = f"
    and "0 \<le> f" and "f < max 1 (failureThreshold (breaker_of i bm0))"
  shows "int (\<Sum>t\<leftarrow>ts. called i (cl_log (snd t))) \<le>
    max 1 (failureThreshold (breaker_of i bm0)) - 1 - f + int (length ts0)"
proof -
  let ?js = "fst ` set ts0" and ?T = "failureThreshold (breaker_of i bm0)" and ?d = "breakDuration (breaker_of i bm0)"
  have ok: "list_all (herd_ok api i ?js) ts0"
    using assms(2,3) by (auto simp: list_all_iff herd_ok_def started_def new_client_def)
  have "admitted i t = 0 \<and> pending i t = 0" if "t \<in> set ts0" for t
    using assms(2) that by (auto simp: list_all_iff started_def new_client_def admitted_def pending_def called_def)
  then have "map (admitted i) ts0 = map (\<lambda>t. 0) ts0" "map (pending i) ts0 = map (\<lambda>t. 0) ts0" by simp_all
  then have zero: "sum_list (map (admitted i) ts0) = 0" "sum_list (map (pending i) ts0) = 0"
    by (simp_all only: sum_list_0)
  have "herd_inv ?js f ?T ?d (length ts0) (sum_list (map (admitted i) ts0)) (sum_list (map (pending i) ts0)) (breaker_of i bm0)"
    unfolding zero using assms(6-9) by (auto simp: herd_inv_def)
  from conjunct2 [OF herd_interleaved [OF assms(1) ok assms(4,5) this]]
  have "herd_inv ?js f ?T ?d (length ts0) (sum_list (map (admitted i) ts)) (sum_list (map (pending i) ts)) (breaker_of i bm)" .
  moreover have "(\<Sum>t\<leftarrow>ts. called i (cl_log (snd t))) \<le> sum_list (map (admitted i) ts)"
    by (intro sum_list_mono called_le)
  ultimately show ?thesis unfolding herd_inv_def by linarith
qed

theorem herd_bound_witness:
  "int (\<Sum>t\<leftarrow>fst (scheduled (client_step demo_utables demo_proxy_api) (concat (replicate 17 [0, 1])) (demo_herd, demo_bm)).
     called ''api-1'' (cl_log (snd t))) \<le> 4"
proof -
  define x where "x = scheduled (client_step demo_utables demo_proxy_api) (concat (replicate 17 [0, 1])) (demo_herd, demo_bm)"
  have run: "interleaved (client_step demo_utables demo_proxy_api) demo_herd demo_bm (fst x) (snd x)"
    unfolding x_def by (rule scheduled_interleaved)
  have "breaker_of ''api-1'' demo_bm = NewCircuitBreaker 3 (20 * Second)"
    by (simp add: breaker_of_eq newBreakerMap_def)
  moreover have "length demo_herd = 2" by (simp add: demo_herd_def)
  ultimately show ?thesis unfolding x_def [symmetric]
    using herd_bound [OF run demo_started demo_herd_fails, of 0] demo_within_break
    by (simp add: NewCircuitBreaker_def int_range_defs)
qed

end
