(* ===== verification/Gateway_Requests.thy ===== *)
theory Gateway_Requests
  imports Gateway_Server Gateway_Threads
begin

text \<open>
  The whole gateway under concurrent requests. The server of \<^verbatim>\<open>cmd/gateway/main.go\<close> runs the handler
  for every request in its own goroutine; what they share is the rate limiter, the breakers of the
  proxy and the access log. A request is cut where it touches any of them: the log entry on arrival,
  the limiter's \<^verbatim>\<open>allow\<close>, the token check with the dispatch (which touch nothing shared), the steps of
  the proxy and the log entry at the end. The eviction loop of the limiter is a thread as well.

  The lemmas show that a request alone is the sequential gateway, that every request is answered
  whatever the others do and reaches a backend only when it may, and that the limiter bounds what
  all concurrent requests of a client together get through.
\<close>

section \<open>Steps\<close>

text \<open>The limiter's history is kept beside it, in the order in which the lock was taken.\<close>

record gw_shared =
  sh_log :: "access_log list"
  sh_limiter :: RateLimiter
  sh_breakers :: breakerMap
  sh_events :: "limiter_event list"

datatype request_pc =
    Entered
  | AtLimiter writer
  | AtHandler writer
  | InProxy writer "job \<times> client"
  | Leaving writer "attempt list"
  | Finished writer "attempt list"

datatype gw_thread = Connection gw_env request request_pc | Evictor "time list"

text \<open>The multiplexer's handlers, up to where the retry loop of the proxy starts.\<close>

definition enterServe ::
  "gw_libs \<Rightarrow> gw_env \<Rightarrow> gw_Config \<Rightarrow> gw_route \<Rightarrow> string list \<Rightarrow> (job \<times> client) option handler" where
  "enterServe L env cfg rt ms r w s =
     (case rt of
        HealthRoute \<Rightarrow> (healthAnswer w, s)
      | DashboardRoute \<Rightarrow> (dashboardHandler L env (Dashboard cfg) r w, s)
      | ProxyRoute \<Rightarrow>
          (let envs = ge_attempts env; p = fst (NewProxy (NewRouteTable (Routing cfg)) (Resilience cfg))
           in case ParseServiceFromPath (normalizePrefix (p_prefix p)) (URL_Path r) of
                None \<Rightarrow> (NotFound w, s)
              | Some (name, remainder) \<Rightarrow>
                  (case Lookup (lib_tables L) name (ae_pick (envs 0)) (ae_routes (envs 0)) of
                     None \<Rightarrow> (http_Error (''service not found: '' @ name) 502 w, s)
                   | Some b \<Rightarrow> (w, s\<lparr>gs_next := Some (client_of envs p r name remainder b)\<rparr>))))"

definition enterHandler ::
  "gw_libs \<Rightarrow> gw_Config \<Rightarrow> gw_route pattern list \<Rightarrow> gw_env \<Rightarrow> (job \<times> client) option handler" where
  "enterHandler L cfg mux env =
     JWTAuth (lib_mac L) (lib_unmarshal L) (ge_times env) (JWT cfg) jwtSkipPaths
       (ServeMux (lib_redirect L) (enterServe L env cfg) mux)"

definition request_step ::
  "gw_libs \<Rightarrow> gw_Config \<Rightarrow> gw_route pattern list \<Rightarrow> gw_env \<Rightarrow> request \<Rightarrow> request_pc \<Rightarrow> gw_shared \<Rightarrow> request_pc \<times> gw_shared" where
  "request_step L cfg mux env r pc s =
     (let ts = ge_times env in
      case pc of
        Entered \<Rightarrow>
          (let s1 = s\<lparr>sh_log := sh_log s @ [Incoming (Method r) (URL_Path r) (clientIPAddress r) (correlationID r)]\<rparr>;
               w = on_header (corsHeaders (lib_tables L) (cfg_CORS cfg) r) (new_writer\<lparr>rw_statusCode := 200\<rparr>)
           in (if Method r = ''OPTIONS'' then Leaving (WriteHeader 204 w) [] else AtLimiter w, s1))
      | AtLimiter w \<Rightarrow>
          if Enabled (RateLimit cfg)
          then (let (ok, rl) = allow (limiter_at ts) (clientIPAddress r) (sh_limiter s);
                    s1 = s\<lparr>sh_limiter := rl, sh_events := sh_events s @ [Request (limiter_at ts) (clientIPAddress r)]\<rparr>
                in (if ok then AtHandler w
                    else Leaving (http_Error ''Too many requests. Please try again later.'' 429 w) [], s1))
          else (AtHandler w, s)
      | AtHandler w \<Rightarrow>
          (let (w', s') = enterHandler L cfg mux env r w
                 \<lparr>gs_log = sh_log s, gs_limiter = sh_limiter s, gs_next = None\<rparr>
           in (case gs_next s' of Some t \<Rightarrow> InProxy w' t | None \<Rightarrow> Leaving w' [], s))
      | InProxy w t \<Rightarrow>
          (case cl_pc (snd t) of
             Answering x \<Rightarrow> (Leaving (client_answer (snd t) w) (cl_log (snd t)), s)
           | _ \<Rightarrow> (let (t', bm) = client_step (lib_tables L) (lib_proxy L) t (sh_breakers s)
                   in (InProxy w t', s\<lparr>sh_breakers := bm\<rparr>)))
      | Leaving w lg \<Rightarrow>
          (Finished w lg,
           if rw_panic w then s
           else s\<lparr>sh_log := sh_log s @ [Outgoing (Method r) (URL_Path r) (rw_statusCode w)
                  (time_Sub (end_at ts) (start_at ts) sdiv Millisecond) (correlationID r)]\<rparr>)
      | Finished w lg \<Rightarrow> (pc, s))"

fun gw_step ::
  "gw_libs \<Rightarrow> gw_Config \<Rightarrow> gw_route pattern list \<Rightarrow> gw_thread \<Rightarrow> gw_shared \<Rightarrow> gw_thread \<times> gw_shared" where
  "gw_step L cfg mux (Connection env r pc) s =
     (let (pc', s') = request_step L cfg mux env r pc s in (Connection env r pc', s'))"
| "gw_step L cfg mux (Evictor []) s = (Evictor [], s)"
| "gw_step L cfg mux (Evictor (t # ts)) s =
     (Evictor ts, s\<lparr>sh_limiter := evict_round t (sh_limiter s), sh_events := sh_events s @ [Evict t]\<rparr>)"

definition newGatewayShared :: "gw_Config \<Rightarrow> gw_shared" where
  "newGatewayShared cfg =
     \<lparr>sh_log = [], sh_limiter = NewRateLimiter (PermitLimit (RateLimit cfg)) (WindowSeconds (RateLimit cfg)),
      sh_breakers = snd (NewProxy (NewRouteTable (Routing cfg)) (Resilience cfg)), sh_events = []\<rparr>"

text \<open>A thread that has not run yet.\<close>

fun waiting :: "gw_thread \<Rightarrow> bool" where
  "waiting (Connection env r pc) \<longleftrightarrow> pc = Entered"
| "waiting (Evictor ts) \<longleftrightarrow> True"

section \<open>The limiter\<close>

text \<open>When the limiter let a request pass.\<close>

fun past_limiter :: "gw_Config \<Rightarrow> gw_thread \<Rightarrow> bool" where
  "past_limiter cfg (Connection env r pc) \<longleftrightarrow> Enabled (RateLimit cfg) \<and>
     (case pc of AtHandler w \<Rightarrow> True | InProxy w t \<Rightarrow> True | Leaving w lg \<Rightarrow> lg \<noteq> [] | Finished w lg \<Rightarrow> lg \<noteq> [] | _ \<Rightarrow> False)"
| "past_limiter cfg (Evictor ts) \<longleftrightarrow> False"

text \<open>The requests of a client that the limiter let pass at certain times.\<close>

fun passed :: "gw_Config \<Rightarrow> string \<Rightarrow> (time \<Rightarrow> bool) \<Rightarrow> gw_thread \<Rightarrow> nat" where
  "passed cfg k P (Connection env r pc) =
     of_bool (past_limiter cfg (Connection env r pc) \<and> clientIPAddress r = k \<and> P (limiter_at (ge_times env)))"
| "passed cfg k P (Evictor ts) = 0"

definition history_ok :: "RateLimiter \<Rightarrow> gw_shared \<Rightarrow> bool" where
  "history_ok rl0 s \<longleftrightarrow> sh_limiter s = limiter_run (sh_events s) rl0"

definition granted :: "RateLimiter \<Rightarrow> string \<Rightarrow> (time \<Rightarrow> bool) \<Rightarrow> gw_shared \<Rightarrow> nat" where
  "granted rl0 k P s = length (filter P (Rate_Limiter.admitted k (sh_events s) rl0))"

lemma request_step_shared:
  assumes "request_step L cfg mux env r pc s = (pc', s')"
  shows "if (\<exists>w. pc = AtLimiter w) \<and> Enabled (RateLimit cfg)
    then sh_limiter s' = snd (allow (limiter_at (ge_times env)) (clientIPAddress r) (sh_limiter s)) \<and>
      sh_events s' = sh_events s @ [Request (limiter_at (ge_times env)) (clientIPAddress r)] \<and>
      (past_limiter cfg (Connection env r pc') \<longrightarrow>
         fst (allow (limiter_at (ge_times env)) (clientIPAddress r) (sh_limiter s)))
    else sh_limiter s' = sh_limiter s \<and> sh_events s' = sh_events s \<and>
      (past_limiter cfg (Connection env r pc') \<longrightarrow> past_limiter cfg (Connection env r pc))"
  using assms
  by (cases pc) (auto simp: request_step_def Let_def split_beta split: if_splits option.splits client_pc.splits)

interpretation limited: charged "gw_step L cfg mux" "history_ok rl0" "granted rl0 k P" "passed cfg k P"
  for L cfg mux rl0 k P
proof unfold_locales
  fix s t t' s'
  assume I: "history_ok rl0 s" and st: "gw_step L cfg mux t s = (t', s')"
  have "history_ok rl0 s' \<and> passed cfg k P t' + granted rl0 k P s \<le> passed cfg k P t + granted rl0 k P s'"
  proof (cases t)
    case (Connection env r pc)
    obtain pc' where pc': "request_step L cfg mux env r pc s = (pc', s')" "t' = Connection env r pc'"
      using st Connection by (auto split: prod.splits)
    show ?thesis using request_step_shared [OF pc'(1)] I
      by (auto simp: pc'(2) Connection history_ok_def granted_def Let_def split: if_splits)
  next
    case (Evictor ts)
    then show ?thesis using st I by (cases ts) (auto simp: history_ok_def granted_def Let_def)
  qed
  then show "history_ok rl0 s'" "passed cfg k P t' + granted rl0 k P s \<le> passed cfg k P t + granted rl0 k P s'"
    by simp_all
qed

section \<open>Every request ends\<close>

definition attempts_max :: "gw_Config \<Rightarrow> nat" where
  "attempts_max cfg = nat (wrap64 (RetryCount (Resilience cfg) + 1))"

fun turns_left :: "gw_Config \<Rightarrow> gw_thread \<Rightarrow> nat" where
  "turns_left cfg (Connection env r pc) =
     (case pc of
        Entered \<Rightarrow> 4 * attempts_max cfg + 6
      | AtLimiter w \<Rightarrow> 4 * attempts_max cfg + 5
      | AtHandler w \<Rightarrow> 4 * attempts_max cfg + 4
      | InProxy w t \<Rightarrow> attempts_left t + 2
      | Leaving w lg \<Rightarrow> 1
      | Finished w lg \<Rightarrow> 0)"
| "turns_left cfg (Evictor ts) = length ts"

text \<open>How a request goes on behind the limiter: the handlers of the sequential gateway answer it at
  once, or the retry loop of the proxy starts.\<close>

abbreviation gateway_proxy :: "gw_Config \<Rightarrow> Proxy" where
  "gateway_proxy cfg \<equiv> fst (NewProxy (NewRouteTable (Routing cfg)) (Resilience cfg))"

abbreviation behind_limiter :: "gw_libs \<Rightarrow> gw_Config \<Rightarrow> gw_route pattern list \<Rightarrow> gw_env \<Rightarrow> gw_back handler" where
  "behind_limiter L cfg mux env \<equiv>
     JWTAuth (lib_mac L) (lib_unmarshal L) (ge_times env) (JWT cfg) jwtSkipPaths
       (ServeMux (lib_redirect L) (gatewayServe L env cfg) mux)"

definition auth_error :: "mac \<Rightarrow> (string \<Rightarrow> claims option) \<Rightarrow> time \<Rightarrow> JWTConfig \<Rightarrow> request \<Rightarrow> string" where
  "auth_error mac unmarshal now cfg r =
     (let h = Header_Get (req_Header r) ''Authorization'' in
      if h = [] \<or> \<not> HasPrefix h ''Bearer '' then ''missing or invalid authorization header''
      else (case validateJWT mac unmarshal now (TrimPrefix h ''Bearer '') cfg of
              Some err \<Rightarrow> ''invalid token: '' @ err | None \<Rightarrow> []))"

lemma JWTAuth_error:
  assumes "\<not> authorized mac unmarshal (jwt_at ts) cfg r"
  shows "JWTAuth mac unmarshal ts cfg jwtSkipPaths nxt r w s = (http_Error (auth_error mac unmarshal (jwt_at ts) cfg r) 401 w, s)"
  using assms
  by (auto simp: authorized_def JWTAuth_def auth_error_def HasPrefix_iff TrimPrefix_def Let_def split: option.splits)

lemma enterHandler_cases:
  obtains
    (direct) w' where "\<And>s. enterHandler L cfg mux env r w s = (w', s)"
      "\<And>s. behind_limiter L cfg mux env r w s = (w', s)"
  | (looped) ms name remainder b where "authorized (lib_mac L) (lib_unmarshal L) (jwt_at (ge_times env)) (JWT cfg) r"
      "findHandler mux r = Found ProxyRoute ms"
      "routed (lib_tables L) (ge_attempts env) (gateway_proxy cfg) r name remainder b"
      "\<And>s. enterHandler L cfg mux env r w s =
        (w, s\<lparr>gs_next := Some (client_of (ge_attempts env) (gateway_proxy cfg) r name remainder b)\<rparr>)"
      "\<And>s. behind_limiter L cfg mux env r w s = gatewayServe L env cfg ProxyRoute ms r w s"
proof (cases "authorized (lib_mac L) (lib_unmarshal L) (jwt_at (ge_times env)) (JWT cfg) r")
  case False
  show ?thesis by (rule direct) (simp_all only: enterHandler_def JWTAuth_error [OF False])
next
  case auth: True
  note pass = enterHandler_def JWTAuth_pass [OF auth] ServeMux_def
  show ?thesis
  proof (cases "findHandler mux r")
    case (Found rt ms)
    show ?thesis
    proof (cases rt)
      case ProxyRoute
      show ?thesis
      proof (cases "\<exists>name remainder b. routed (lib_tables L) (ge_attempts env) (gateway_proxy cfg) r name remainder b")
        case True
        then obtain name remainder b where
          b: "routed (lib_tables L) (ge_attempts env) (gateway_proxy cfg) r name remainder b" by blast
        show ?thesis
          by (rule looped [OF auth _ b]) (use b Found ProxyRoute in \<open>simp_all add: pass enterServe_def routed_def Let_def\<close>)
      next
        case False
        show ?thesis
        proof (cases "ParseServiceFromPath (normalizePrefix (p_prefix (gateway_proxy cfg))) (URL_Path r)")
          case None
          show ?thesis
            by (rule direct) (simp_all add: None pass Found ProxyRoute enterServe_def gatewayServe_def Proxy_ServeHTTP_def)
        next
          case (Some x)
          then have "Lookup (lib_tables L) (fst x) (ae_pick (ge_attempts env 0)) (ae_routes (ge_attempts env 0)) = None"
            using False by (cases x) (auto simp: routed_def)
          then show ?thesis
            by (intro direct) (simp_all add: Some split_beta pass Found ProxyRoute enterServe_def gatewayServe_def
                Proxy_ServeHTTP_def Let_def)
        qed
      qed
    qed (rule direct; simp add: pass Found enterServe_def gatewayServe_def)+
  qed (rule direct; simp add: pass)+
qed

text \<open>The step behind the limiter, decision by decision.\<close>

lemma handler_step:
  obtains
    (answered) w' where "\<And>s. request_step L cfg mux env r (AtHandler w) s = (Leaving w' [], s)"
      "\<And>s. behind_limiter L cfg mux env r w s = (w', s)"
  | (proxied) ms name remainder b where "authorized (lib_mac L) (lib_unmarshal L) (jwt_at (ge_times env)) (JWT cfg) r"
      "findHandler mux r = Found ProxyRoute ms"
      "routed (lib_tables L) (ge_attempts env) (gateway_proxy cfg) r name remainder b"
      "\<And>s. request_step L cfg mux env r (AtHandler w) s =
        (InProxy w (client_of (ge_attempts env) (gateway_proxy cfg) r name remainder b), s)"
      "\<And>s. behind_limiter L cfg mux env r w s = gatewayServe L env cfg ProxyRoute ms r w s"
proof (cases rule: enterHandler_cases [where L = L and cfg = cfg and mux = mux and env = env and r = r and w = w])
  case (direct w')
  show ?thesis by (rule answered [of w']) (simp_all add: request_step_def direct)
next
  case (looped ms name remainder b)
  show ?thesis by (rule proxied [OF looped(1-3)]) (simp_all add: request_step_def looped(4,5))
qed

interpretation requests: thread_progress "gw_step L cfg mux" "turns_left cfg" for L cfg mux
proof unfold_locales
  fix t s t' s'
  assume st: "gw_step L cfg mux t s = (t', s')"
  show "turns_left cfg t' \<le> turns_left cfg t - 1"
  proof (cases t)
    case (Evictor ts)
    then show ?thesis using st by (cases ts) auto
  next
    case (Connection env r pc)
    obtain pc' where pc': "request_step L cfg mux env r pc s = (pc', s')" "t' = Connection env r pc'"
      using st Connection by (auto split: prod.splits)
    show ?thesis
    proof (cases pc)
      case (AtHandler w)
      show ?thesis
        using pc' Connection AtHandler
        by (cases rule: handler_step [where L = L and cfg = cfg and mux = mux and env = env and r = r and w = w])
          (auto simp: client_of_def new_client_def attempts_max_def NewProxy_def)
    next
      case (InProxy w c)
      obtain c' bm where c': "client_step (lib_tables L) (lib_proxy L) c (sh_breakers s) = (c', bm)" by fastforce
      show ?thesis using pc' Connection InProxy c' clients.step_left [OF c']
        by (cases c; cases "cl_pc (snd c)") (auto simp: request_step_def Let_def)
    qed (use pc' Connection in \<open>auto simp: request_step_def Let_def split: if_splits prod.splits\<close>)
  qed
qed

section \<open>One request alone\<close>

definition state_of :: "gw_shared \<Rightarrow> attempt list \<Rightarrow> gw_back gw_state" where
  "state_of s lg =
     \<lparr>gs_log = sh_log s, gs_limiter = sh_limiter s, gs_next = \<lparr>gb_breakers = sh_breakers s, gb_attempts = lg\<rparr>\<rparr>"

abbreviation request_alone where
  "request_alone L cfg mux n env r pc s \<equiv> run_alone (gw_step L cfg mux) n (Connection env r pc, s)"

lemma proxy_alone:
  "run_alone (client_step (lib_tables L) (lib_proxy L)) m (t, sh_breakers s) = (t', bm') \<Longrightarrow>
   cl_pc (snd t') = Answering x \<Longrightarrow>
   \<exists>n \<le> m. request_alone L cfg mux n env r (InProxy w t) s = (Connection env r (InProxy w t'), s\<lparr>sh_breakers := bm'\<rparr>)"
proof (induction m arbitrary: t s)
  case (Suc m)
  show ?case
  proof (cases "\<exists>y. cl_pc (snd t) = Answering y")
    case True
    then have "run_alone (client_step (lib_tables L) (lib_proxy L)) (Suc m) (t, sh_breakers s) = (t, sh_breakers s)"
      using client_alone_done [of "snd t" _ "lib_tables L" "lib_proxy L" "Suc m" "fst t"] by (metis prod.collapse)
    then show ?thesis using Suc.prems(1) by (intro exI [of _ 0]) simp
  next
    case False
    obtain t1 bm1 where t1: "client_step (lib_tables L) (lib_proxy L) t (sh_breakers s) = (t1, bm1)" by fastforce
    then have st: "gw_step L cfg mux (Connection env r (InProxy w t)) s = (Connection env r (InProxy w t1), s\<lparr>sh_breakers := bm1\<rparr>)"
      using False by (cases "cl_pc (snd t)") (simp_all add: request_step_def)
    obtain n where "n \<le> m" "request_alone L cfg mux n env r (InProxy w t1) (s\<lparr>sh_breakers := bm1\<rparr>) =
        (Connection env r (InProxy w t'), s\<lparr>sh_breakers := bm'\<rparr>)"
      using Suc.IH [of t1 "s\<lparr>sh_breakers := bm1\<rparr>"] Suc.prems t1 by auto
    then show ?thesis using st by (intro exI [of _ "Suc n"]) simp
  qed
qed simp

lemma handler_alone:
  assumes "\<forall>k. undisturbed (ge_attempts env k)"
  shows "\<exists>n \<le> 4 * attempts_max cfg + 3. \<exists>w' lg s'. request_alone L cfg mux n env r (AtHandler w) s =
      (Connection env r (Leaving w' lg), s') \<and>
      behind_limiter L cfg mux env r w (state_of s as) = (w', state_of s' (as @ lg))"
proof (cases rule: handler_step [where L = L and cfg = cfg and mux = mux and env = env and r = r and w = w])
  case (answered w')
  then show ?thesis by (intro exI [of _ 1] conjI exI [of _ w'] exI [of _ "[]"] exI [of _ s]) simp_all
next
  case (proxied ms name remainder b)
  let ?t = "client_of (ge_attempts env) (gateway_proxy cfg) r name remainder b"
  have N: "nat (wrap64 (RetryCount (resilience (gateway_proxy cfg)) + 1)) = attempts_max cfg"
    by (simp add: NewProxy_def attempts_max_def)
  obtain c bm' x where c: "run_alone (client_step (lib_tables L) (lib_proxy L)) (4 * attempts_max cfg + 1) (?t, sh_breakers s) =
      ((fst ?t, c), bm')" "cl_pc c = Answering x"
    "Proxy_ServeHTTP (lib_tables L) (lib_proxy L) (ge_attempts env) (gateway_proxy cfg) r w (sh_breakers s) =
      (client_answer c w, bm', cl_log c)"
    using ServeHTTP_alone [OF proxied(3) assms, of "4 * attempts_max cfg + 1" "lib_proxy L" "sh_breakers s" w] N by auto
  obtain n where n: "n \<le> 4 * attempts_max cfg + 1" "request_alone L cfg mux n env r (InProxy w ?t) s =
      (Connection env r (InProxy w (fst ?t, c)), s\<lparr>sh_breakers := bm'\<rparr>)"
    using proxy_alone [OF c(1), of x cfg mux env r w] c(2) by auto
  have "request_alone L cfg mux (1 + (n + 1)) env r (AtHandler w) s =
      (Connection env r (Leaving (client_answer c w) (cl_log c)), s\<lparr>sh_breakers := bm'\<rparr>)"
    unfolding run_alone_add using n(2) c(2) by (simp add: proxied(4)) (simp add: request_step_def)
  moreover have "behind_limiter L cfg mux env r w (state_of s as) =
      (client_answer c w, state_of (s\<lparr>sh_breakers := bm'\<rparr>) (as @ cl_log c))"
    using c(3) by (simp add: proxied(5) gatewayServe_def state_of_def)
  ultimately show ?thesis using n(1)
    by (intro exI [of _ "1 + (n + 1)"] conjI exI [of _ "client_answer c w"] exI [of _ "cl_log c"]
        exI [of _ "s\<lparr>sh_breakers := bm'\<rparr>"]) simp_all
qed

lemma limiter_alone:
  assumes "\<forall>k. undisturbed (ge_attempts env k)"
  shows "\<exists>n \<le> 4 * attempts_max cfg + 4. \<exists>w' lg s'. request_alone L cfg mux n env r (AtLimiter w) s =
      (Connection env r (Leaving w' lg), s') \<and>
      (if Enabled (RateLimit cfg) then RateLimiter_Middleware (ge_times env) (behind_limiter L cfg mux env)
       else behind_limiter L cfg mux env) r w (state_of s as) = (w', state_of s' (as @ lg))"
proof -
  let ?a = "allow (limiter_at (ge_times env)) (clientIPAddress r) (sh_limiter s)"
  let ?s = "if Enabled (RateLimit cfg) then s\<lparr>sh_limiter := snd ?a,
    sh_events := sh_events s @ [Request (limiter_at (ge_times env)) (clientIPAddress r)]\<rparr> else s"
  show ?thesis
  proof (cases "Enabled (RateLimit cfg) \<and> \<not> fst ?a")
    case True
    then show ?thesis
      by (intro exI [of _ 1] conjI exI [of _ "http_Error ''Too many requests. Please try again later.'' 429 w"]
          exI [of _ "[]"] exI [of _ ?s])
        (simp_all add: request_step_def RateLimiter_Middleware_def state_of_def split_beta Let_def)
  next
    case False
    then have "request_alone L cfg mux 1 env r (AtLimiter w) s = (Connection env r (AtHandler w), ?s)"
      by (auto simp: request_step_def split_beta Let_def)
    moreover have "(if Enabled (RateLimit cfg) then RateLimiter_Middleware (ge_times env) (behind_limiter L cfg mux env)
       else behind_limiter L cfg mux env) r w (state_of s as) = behind_limiter L cfg mux env r w (state_of ?s as)"
      using False by (auto simp: RateLimiter_Middleware_def state_of_def split_beta Let_def)
    moreover obtain n w' lg s' where n: "n \<le> 4 * attempts_max cfg + 3"
      "request_alone L cfg mux n env r (AtHandler w) ?s = (Connection env r (Leaving w' lg), s')"
      "behind_limiter L cfg mux env r w (state_of ?s as) = (w', state_of s' (as @ lg))"
      using handler_alone [OF assms, of cfg L mux r w ?s as] by blast
    ultimately have "request_alone L cfg mux (1 + n) env r (AtLimiter w) s = (Connection env r (Leaving w' lg), s')"
      "(if Enabled (RateLimit cfg) then RateLimiter_Middleware (ge_times env) (behind_limiter L cfg mux env)
       else behind_limiter L cfg mux env) r w (state_of s as) = (w', state_of s' (as @ lg))"
      by (simp_all only: run_alone_add)
    then show ?thesis using n(1)
      by (intro exI [of _ "1 + n"] conjI exI [of _ w'] exI [of _ lg] exI [of _ s']) simp_all
  qed
qed

lemma finished_alone: "request_alone L cfg mux n env r (Finished w lg) s = (Connection env r (Finished w lg), s)"
  by (induction n) (simp_all add: request_step_def)

lemma gateway_alone:
  assumes "\<forall>k. undisturbed (ge_attempts env k)"
  shows "\<exists>n \<le> 4 * attempts_max cfg + 6. \<exists>w' lg s'. request_alone L cfg mux n env r Entered s =
      (Connection env r (Finished w' lg), s') \<and>
      gateway L cfg mux env r new_writer (state_of s as) = (w', state_of s' (as @ lg))"
proof -
  let ?w = "on_header (corsHeaders (lib_tables L) (cfg_CORS cfg) r) (new_writer\<lparr>rw_statusCode := 200\<rparr>)"
  let ?s = "s\<lparr>sh_log := sh_log s @ [Incoming (Method r) (URL_Path r) (clientIPAddress r) (correlationID r)]\<rparr>"
  let ?out = "\<lambda>w s. if rw_panic w then s else s\<lparr>sh_log := sh_log s @ [Outgoing (Method r) (URL_Path r) (rw_statusCode w)
    (time_Sub (end_at (ge_times env)) (start_at (ge_times env)) sdiv Millisecond) (correlationID r)]\<rparr>"
  let ?inner = "CORS (lib_tables L) (cfg_CORS cfg) (if Enabled (RateLimit cfg)
    then RateLimiter_Middleware (ge_times env) (behind_limiter L cfg mux env) else behind_limiter L cfg mux env)"
  have seq: "gateway L cfg mux env r new_writer (state_of s as) = (w', state_of (?out w' s') (as @ lg))"
    if "?inner r (new_writer\<lparr>rw_statusCode := 200\<rparr>) (state_of ?s as) = (w', state_of s' (as @ lg))" for w' s' lg
    using that by (simp add: gateway_def gatewayChain_def RequestLogging_def state_of_def Let_def)
  have "\<exists>n \<le> 4 * attempts_max cfg + 5. \<exists>w' lg s'. request_alone L cfg mux n env r Entered s =
      (Connection env r (Leaving w' lg), s') \<and>
      ?inner r (new_writer\<lparr>rw_statusCode := 200\<rparr>) (state_of ?s as) = (w', state_of s' (as @ lg))"
  proof (cases "Method r = ''OPTIONS''")
    case True
    then show ?thesis
      by (intro exI [of _ 1] conjI exI [of _ "WriteHeader 204 ?w"] exI [of _ "[]"] exI [of _ ?s])
        (simp_all add: request_step_def CORS_def Let_def)
  next
    case False
    obtain n w' lg s' where n: "n \<le> 4 * attempts_max cfg + 4"
      "request_alone L cfg mux n env r (AtLimiter ?w) ?s = (Connection env r (Leaving w' lg), s')"
      "(if Enabled (RateLimit cfg) then RateLimiter_Middleware (ge_times env) (behind_limiter L cfg mux env)
        else behind_limiter L cfg mux env) r ?w (state_of ?s as) = (w', state_of s' (as @ lg))"
      using limiter_alone [OF assms, of cfg L mux r ?w ?s as] by blast
    have "request_alone L cfg mux (Suc n) env r Entered s = (Connection env r (Leaving w' lg), s')"
      using n(2) False by (simp add: request_step_def Let_def)
    then show ?thesis using n(1,3) False
      by (intro exI [of _ "Suc n"] conjI exI [of _ w'] exI [of _ lg] exI [of _ s']) (simp_all add: CORS_def Let_def)
  qed
  then obtain n w' lg s' where n: "n \<le> 4 * attempts_max cfg + 5"
    "request_alone L cfg mux n env r Entered s = (Connection env r (Leaving w' lg), s')"
    "?inner r (new_writer\<lparr>rw_statusCode := 200\<rparr>) (state_of ?s as) = (w', state_of s' (as @ lg))" by blast
  have "request_alone L cfg mux (n + 1) env r Entered s = (Connection env r (Finished w' lg), ?out w' s')"
    unfolding run_alone_add n(2) by (simp add: request_step_def Let_def)
  then show ?thesis using seq [OF n(3)] n(1)
    by (intro exI [of _ "n + 1"] conjI exI [of _ w'] exI [of _ lg] exI [of _ "?out w' s'"]) simp_all
qed

section \<open>What a request does and gets\<close>

text \<open>The backends that a client's goroutine turns to, and what it sends them.\<close>

definition well_sent :: "unicode_tables \<Rightarrow> proxy_api \<Rightarrow> job \<Rightarrow> attempt \<Rightarrow> bool" where
  "well_sent u api j a \<longleftrightarrow> faithful_attempt api (j_req j) (j_rem j) a \<and>
     looked_up u (j_envs j) (j_name j) (attempt_backend a)"

definition well_routed :: "unicode_tables \<Rightarrow> proxy_api \<Rightarrow> job \<times> client \<Rightarrow> bool" where
  "well_routed u api t \<longleftrightarrow> looked_up u (j_envs (fst t)) (j_name (fst t)) (cl_backend (snd t)) \<and>
     list_all (well_sent u api (fst t)) (cl_log (snd t))"

lemma faithful_forward: "faithful_attempt api r remainder (forward api env r bdy b remainder)"
  by (auto simp: forward_def faithful_attempt_def Let_def split: sum.splits prod.splits)

lemma well_routed_step:
  assumes "well_routed u api t" and "client_step u api t bm = (t', bm')"
  shows "well_routed u api t'"
proof -
  obtain j c where t: "t = (j, c)" by (cases t)
  have pick: "looked_up u (j_envs j) (j_name j) (pickBackend u (j_name j) (cl_next c) (j_envs j (cl_next c)) (cl_backend c))"
    using assms(1) t by (auto simp: well_routed_def pickBackend_def looked_up_def split: option.splits)
  show ?thesis
    using assms t pick
    by (cases "cl_pc c")
      (auto simp: client_step_def well_routed_def well_sent_def faithful_forward forward_backend Let_def
        faithful_attempt_def [of _ _ _ "CircuitOpen _"] split: if_splits prod.splits option.splits)
qed

text \<open>How a request that went to the proxy ends.\<close>

definition proxied_well ::
  "gw_libs \<Rightarrow> gw_Config \<Rightarrow> gw_route pattern list \<Rightarrow> gw_env \<Rightarrow> request \<Rightarrow> writer \<Rightarrow> attempt list \<Rightarrow> bool" where
  "proxied_well L cfg mux env r w lg \<longleftrightarrow>
     (\<exists>ms. findHandler mux r = Found ProxyRoute ms) \<and>
     (\<exists>name remainder.
        ParseServiceFromPath (normalizePrefix (RoutePrefix (Routing cfg))) (URL_Path r) = Some (name, remainder) \<and>
        list_all (\<lambda>a. faithful_attempt (lib_proxy L) r remainder a \<and>
          looked_up (lib_tables L) (ge_attempts env) name (attempt_backend a)) lg) \<and>
     length lg \<le> attempts_max cfg \<and> list_all (\<lambda>a. \<not> attempt_ok a) (butlast lg) \<and>
     (length lg < attempts_max cfg \<longrightarrow> lg \<noteq> [] \<and> attempt_ok (last lg)) \<and>
     (\<exists>w0. fresh_writer w0 \<and> w =
        (if responses lg = []
         then http_Error ''upstream request failed'' (if list_ex is_open lg then 503 else 502) w0
         else writeTo (last (responses lg)) w0))"

definition outcome ::
  "gw_libs \<Rightarrow> gw_Config \<Rightarrow> gw_route pattern list \<Rightarrow> gw_env \<Rightarrow> request \<Rightarrow> writer \<Rightarrow> attempt list \<Rightarrow> bool" where
  "outcome L cfg mux env r w lg \<longleftrightarrow>
     (if Method r = ''OPTIONS'' then lg = [] \<and> status_sent w = 204
      else lg = [] \<and> Enabled (RateLimit cfg) \<and> status_sent w = 429 \<or>
        lg = [] \<and> (\<exists>w0. fresh_writer w0 \<and> (\<forall>s. behind_limiter L cfg mux env r w0 s = (w, s))) \<or>
        authorized (lib_mac L) (lib_unmarshal L) (jwt_at (ge_times env)) (JWT cfg) r \<and> proxied_well L cfg mux env r w lg)"

fun request_ok :: "gw_libs \<Rightarrow> gw_Config \<Rightarrow> gw_route pattern list \<Rightarrow> gw_thread \<Rightarrow> bool" where
  "request_ok L cfg mux (Connection env r pc) \<longleftrightarrow>
     (case pc of
        Entered \<Rightarrow> True
      | AtLimiter w \<Rightarrow> fresh_writer w \<and> Method r \<noteq> ''OPTIONS''
      | AtHandler w \<Rightarrow> fresh_writer w \<and> Method r \<noteq> ''OPTIONS''
      | InProxy w t \<Rightarrow> fresh_writer w \<and> Method r \<noteq> ''OPTIONS'' \<and>
          authorized (lib_mac L) (lib_unmarshal L) (jwt_at (ge_times env)) (JWT cfg) r \<and>
          (\<exists>ms. findHandler mux r = Found ProxyRoute ms) \<and>
          (\<exists>name remainder b. routed (lib_tables L) (ge_attempts env) (gateway_proxy cfg) r name remainder b \<and>
             fst t = fst (client_of (ge_attempts env) (gateway_proxy cfg) r name remainder b)) \<and>
          client_inv t \<and> well_routed (lib_tables L) (lib_proxy L) t
      | Leaving w lg \<Rightarrow> outcome L cfg mux env r w lg
      | Finished w lg \<Rightarrow> outcome L cfg mux env r w lg)"
| "request_ok L cfg mux (Evictor ts) \<longleftrightarrow> True"

lemma client_of_ok:
  assumes "routed u envs p r name remainder b"
  shows "client_inv (client_of envs p r name remainder b) \<and> well_routed u api (client_of envs p r name remainder b)"
  using assms by (auto simp: client_of_def new_client_def settled_def well_routed_def looked_up_def routed_def)

lemma proxy_outcome:
  assumes "request_ok L cfg mux (Connection env r (InProxy w t))" and "cl_pc (snd t) = Answering x"
  shows "outcome L cfg mux env r (client_answer (snd t) w) (cl_log (snd t))"
proof -
  obtain name remainder b where b: "routed (lib_tables L) (ge_attempts env) (gateway_proxy cfg) r name remainder b"
    "fst t = fst (client_of (ge_attempts env) (gateway_proxy cfg) r name remainder b)" using assms(1) by auto
  have j: "j_envs (fst t) = ge_attempts env" "j_req (fst t) = r" "j_name (fst t) = name" "j_rem (fst t) = remainder"
    "j_max (fst t) = attempts_max cfg"
    by (simp_all add: b(2) client_of_def NewProxy_def attempts_max_def)
  have "client_inv (fst t, snd t)" using assms(1) by simp
  note answer = client_inv_answer [OF this assms(2), of w]
  have "ParseServiceFromPath (normalizePrefix (RoutePrefix (Routing cfg))) (URL_Path r) = Some (name, remainder)"
    using b(1) by (simp add: routed_def NewProxy_def NewRouteTable_def)
  moreover have "list_all (\<lambda>a. faithful_attempt (lib_proxy L) r remainder a \<and>
      looked_up (lib_tables L) (ge_attempts env) name (attempt_backend a)) (cl_log (snd t))"
    using assms(1) by (auto simp: well_routed_def well_sent_def j list_all_iff)
  ultimately have "proxied_well L cfg mux env r (client_answer (snd t) w) (cl_log (snd t))"
    unfolding proxied_well_def using answer assms(1) by (auto simp: j)
  then show ?thesis using assms(1) by (simp add: outcome_def)
qed

lemma request_ok_step:
  assumes "request_ok L cfg mux t" and "gw_step L cfg mux t s = (t', s')"
  shows "request_ok L cfg mux t'"
proof (cases t)
  case (Evictor ts)
  then show ?thesis using assms(2) by (cases ts) auto
next
  case (Connection env r pc)
  obtain pc' where pc': "request_step L cfg mux env r pc s = (pc', s')" "t' = Connection env r pc'"
    using assms(2) Connection by (auto split: prod.splits)
  show ?thesis
  proof (cases pc)
    case Entered
    have "fresh_writer (on_header f (new_writer\<lparr>rw_statusCode := 200\<rparr>))" for f using fresh_new by simp
    then show ?thesis using pc' Entered WriteHeader_fresh
      by (auto simp: request_step_def outcome_def Let_def split: if_splits)
  next
    case (AtLimiter w)
    then show ?thesis using pc' assms(1) Connection http_Error_fresh [of w 429]
      by (auto simp: request_step_def outcome_def Let_def split: if_splits prod.splits)
  next
    case (AtHandler w)
    then have w: "fresh_writer w" "Method r \<noteq> ''OPTIONS''" using assms(1) Connection by simp_all
    show ?thesis
    proof (cases rule: handler_step [where L = L and cfg = cfg and mux = mux and env = env and r = r and w = w])
      case (answered w')
      have "outcome L cfg mux env r w' []" unfolding outcome_def using w answered(2) by metis
      moreover have "pc' = Leaving w' []" using pc'(1) AtHandler answered(1) by simp
      ultimately show ?thesis using pc'(2) by simp
    next
      case (proxied ms name remainder b)
      have "pc' = InProxy w (client_of (ge_attempts env) (gateway_proxy cfg) r name remainder b)"
        using pc'(1) AtHandler proxied(4) by simp
      then show ?thesis using pc'(2) w proxied(1-3) client_of_ok [OF proxied(3), of "lib_proxy L"] by simp blast
    qed
  next
    case (InProxy w c)
    show ?thesis
    proof (cases "\<exists>x. cl_pc (snd c) = Answering x")
      case True
      then obtain x where x: "cl_pc (snd c) = Answering x" by blast
      then have "pc' = Leaving (client_answer (snd c) w) (cl_log (snd c))"
        using pc'(1) InProxy by (simp add: request_step_def)
      then show ?thesis using proxy_outcome [OF assms(1) [unfolded Connection InProxy] x] pc'(2) by simp
    next
      case False
      obtain c' bm where c': "client_step (lib_tables L) (lib_proxy L) c (sh_breakers s) = (c', bm)" by fastforce
      then have "pc' = InProxy w c'" using pc'(1) InProxy False by (cases "cl_pc (snd c)") (auto simp: request_step_def)
      moreover have "client_inv c' \<and> fst c' = fst c" "well_routed (lib_tables L) (lib_proxy L) c'"
        using client_inv_step [OF _ c'] well_routed_step [OF _ c'] assms(1) Connection InProxy by simp_all
      ultimately show ?thesis using assms(1) Connection InProxy pc'(2) by auto
    qed
  qed (use pc' assms(1) Connection in \<open>auto simp: request_step_def Let_def\<close>)
qed

lemma waiting_ok: "waiting t \<Longrightarrow> request_ok L cfg mux t"
  by (cases t) auto

text \<open>A thread stays the connection it is.\<close>

fun is_connection :: "gw_env \<Rightarrow> request \<Rightarrow> gw_thread \<Rightarrow> bool" where
  "is_connection env r (Connection env' r' pc) \<longleftrightarrow> env' = env \<and> r' = r"
| "is_connection env r (Evictor ts) \<longleftrightarrow> False"

lemma connection_kept:
  assumes "interleaved (gw_step L cfg mux) ts0 s0 ts s" and "k < length ts0"
  shows "is_connection env r (ts ! k) = is_connection env r (ts0 ! k)"
proof -
  have "is_connection env r t' = is_connection env r t" if "gw_step L cfg mux t s = (t', s')" for t s t' s'
    using that by (cases "(L, cfg, mux, t, s)" rule: gw_step.cases) (auto split: prod.splits)
  then have "map (is_connection env r) ts = map (is_connection env r) ts0" by (rule interleaved_constant [OF assms(1)])
  then show ?thesis using assms(2) interleaved_length [OF assms(1)] by (metis nth_map)
qed

lemma finished_when_done:
  assumes "turns_left cfg t = 0" and "is_connection env r t"
  obtains w lg where "t = Connection env r (Finished w lg)"
proof (cases t)
  case (Connection env' r' pc)
  then show ?thesis using assms that by (cases pc) auto
qed (use assms in simp)

lemma outcome_reads:
  assumes "outcome L cfg mux env r w lg"
    and "\<And>i. table_from (lib_tables L) A (ae_routes (ge_attempts env i))"
  shows "if Method r = ''OPTIONS'' then lg = [] \<and> status_sent w = 204
     else if \<not> authorized (lib_mac L) (lib_unmarshal L) (jwt_at (ge_times env)) (JWT cfg) r
     then lg = [] \<and> status_sent w \<in> {401, 429}
     else lg = [] \<and> Enabled (RateLimit cfg) \<and> status_sent w = 429 \<or>
       lg = [] \<and> (\<exists>w0. fresh_writer w0 \<and>
         (\<forall>s. ServeMux (lib_redirect L) (gatewayServe L env cfg) mux r w0 s = (w, s))) \<or>
       proxied_well L cfg mux env r w lg \<and>
       (\<exists>name remainder.
          ParseServiceFromPath (normalizePrefix (RoutePrefix (Routing cfg))) (URL_Path r) = Some (name, remainder) \<and>
          list_all (healthy_in (lib_tables L) A name \<circ> attempt_backend) lg)"
proof (cases "Method r = ''OPTIONS''")
  case False
  have healthy: "healthy_in (lib_tables L) A name b" if "looked_up (lib_tables L) (ge_attempts env) name b" for name b
    using that table_from_healthy [OF assms(2)] by (auto simp: looked_up_def)
  show ?thesis
  proof (cases "authorized (lib_mac L) (lib_unmarshal L) (jwt_at (ge_times env)) (JWT cfg) r")
    case True
    have "proxied_well L cfg mux env r w lg \<Longrightarrow> \<exists>name remainder.
        ParseServiceFromPath (normalizePrefix (RoutePrefix (Routing cfg))) (URL_Path r) = Some (name, remainder) \<and>
        list_all (healthy_in (lib_tables L) A name \<circ> attempt_backend) lg"
      using healthy by (auto simp: proxied_well_def list_all_iff)
    then show ?thesis using assms(1) False True by (auto simp: outcome_def JWTAuth_pass)
  next
    case no: False
    then show ?thesis using assms(1) False http_Error_fresh [of _ 401]
      by (auto simp: outcome_def JWTAuth_error [OF no])
  qed
qed (use assms(1) in \<open>simp add: outcome_def\<close>)

section \<open>Properties\<close>

text \<open>C22: One request alone is the sequential gateway. The atomic steps of a request's goroutine, from its
  arrival to the last log entry, run for four turns per upstream attempt and six more without
  interference, end it; the response written, the access log, the rate limiter, the breakers and the
  upstream attempts are those of the gateway's composed handler.\<close>

theorem request_refines_gateway:
  assumes "\<forall>k. undisturbed (ge_attempts env k)" and "4 * attempts_max cfg + 6 \<le> n"
  shows "\<exists>w' lg s'. run_alone (gw_step L cfg mux) n (Connection env r Entered, s) = (Connection env r (Finished w' lg), s') \<and>
    gateway L cfg mux env r new_writer (state_of s as) = (w', state_of s' (as @ lg))"
proof -
  obtain m w' lg s' where m: "m \<le> 4 * attempts_max cfg + 6"
    "request_alone L cfg mux m env r Entered s = (Connection env r (Finished w' lg), s')"
    "gateway L cfg mux env r new_writer (state_of s as) = (w', state_of s' (as @ lg))"
    using gateway_alone [OF assms(1), of cfg L mux r s as] by blast
  have "request_alone L cfg mux (m + (n - m)) env r Entered s = (Connection env r (Finished w' lg), s')"
    by (simp only: run_alone_add m(2) finished_alone)
  then show ?thesis using m assms(2) by auto
qed

theorem request_refines_gateway_witness:
  "\<exists>w' lg s'. run_alone (gw_step demo_libs gw_DefaultConfig (gatewayPatterns (pathPattern ''/api/''))) 22
      (Connection demo_env (demo_req ''/api/api/x'') Entered, newGatewayShared gw_DefaultConfig) =
      (Connection demo_env (demo_req ''/api/api/x'') (Finished w' lg), s') \<and>
    gateway demo_libs gw_DefaultConfig (gatewayPatterns (pathPattern ''/api/'')) demo_env (demo_req ''/api/api/x'')
      new_writer (state_of (newGatewayShared gw_DefaultConfig) []) = (w', state_of s' lg)"
proof -
  have "attempts_max gw_DefaultConfig = 4" by (simp add: attempts_max_def gw_DefaultConfig_def wrap64_def)
  moreover have "\<forall>k. undisturbed (ge_attempts demo_env k)" by (simp add: undisturbed_def demo_env_def demo_attempt_def)
  ultimately show ?thesis
    using request_refines_gateway [of demo_env gw_DefaultConfig 22 demo_libs "gatewayPatterns (pathPattern ''/api/'')"
        "demo_req ''/api/api/x''" "newGatewayShared gw_DefaultConfig" "[]"] by simp
qed

text \<open>C6: Every request is answered, and none gets further than it may. However the goroutines of the
  requests and the eviction loop are scheduled, a request that gets four turns for each upstream
  attempt and six more is finished. A preflight is answered 204 and a request without the token it
  needs 401 or 429, and no attempt is made for either. Any other request was refused by the limiter
  with 429, or was answered by the multiplexer as it answers in any state, or went through the proxy: its
  path names a service, every request sent upstream is the client's with the rest of that path, every
  attempt went to an instance of that service that was healthy in some answer of the registry, there
  were at most \<^verbatim>\<open>RetryCount+1\<close> of them, all but the last failed, and the client gets the last response
  that any of them got, or else 503 if a breaker refused and 502 otherwise.\<close>

theorem concurrent_requests_answered:
  assumes "list_all waiting ts0" and "k < length ts0" and "ts0 ! k = Connection env r Entered"
    and "4 * attempts_max cfg + 6 \<le> count_list ks k"
    and "fst (scheduled (gw_step L cfg mux) ks (ts0, s)) = ts"
    and "\<And>i. table_from (lib_tables L) A (ae_routes (ge_attempts env i))"
  shows "\<exists>w lg. ts ! k = Connection env r (Finished w lg) \<and>
    (if Method r = ''OPTIONS'' then lg = [] \<and> status_sent w = 204
     else if \<not> authorized (lib_mac L) (lib_unmarshal L) (jwt_at (ge_times env)) (JWT cfg) r
     then lg = [] \<and> status_sent w \<in> {401, 429}
     else lg = [] \<and> Enabled (RateLimit cfg) \<and> status_sent w = 429 \<or>
       lg = [] \<and> (\<exists>w0. fresh_writer w0 \<and>
         (\<forall>s. ServeMux (lib_redirect L) (gatewayServe L env cfg) mux r w0 s = (w, s))) \<or>
       proxied_well L cfg mux env r w lg \<and>
       (\<exists>name remainder.
          ParseServiceFromPath (normalizePrefix (RoutePrefix (Routing cfg))) (URL_Path r) = Some (name, remainder) \<and>
          list_all (healthy_in (lib_tables L) A name \<circ> attempt_backend) lg))"
proof -
  have run: "interleaved (gw_step L cfg mux) ts0 s ts (snd (scheduled (gw_step L cfg mux) ks (ts0, s)))"
    using scheduled_interleaved [of "gw_step L cfg mux" ts0 s ks] assms(5) by simp
  have k: "k < length ts" using interleaved_length [OF run] assms(2) by simp
  have "turns_left cfg (ts ! k) = 0"
    using requests.scheduled_left [of k "(ts0, s)" cfg L mux ks] assms(2-5) by simp
  moreover have "is_connection env r (ts ! k)"
    using connection_kept [OF run] assms(2,3) by simp
  ultimately obtain w lg where w: "ts ! k = Connection env r (Finished w lg)" by (rule finished_when_done)
  have "list_all (request_ok L cfg mux) ts0" using assms(1) waiting_ok by (auto simp: list_all_iff)
  then have "list_all (request_ok L cfg mux) ts"
    using interleaved_invariant [OF run, of "\<lambda>s. True" "request_ok L cfg mux"] request_ok_step by blast
  then have "request_ok L cfg mux (ts ! k)" using k by (simp only: list_all_length)
  then have "outcome L cfg mux env r w lg" by (simp add: w)
  from outcome_reads [OF this assms(6)] show ?thesis using w by blast
qed

definition demo_threads :: "gw_thread list" where
  "demo_threads =
     [Connection demo_env (demo_req ''/api/api/x'') Entered,
      Connection demo_env ((demo_req ''/api/api/x'')\<lparr>Method := ''OPTIONS''\<rparr>) Entered, Evictor [6, 7]]"

theorem concurrent_requests_answered_witness:
  "\<exists>w lg. fst (scheduled (gw_step demo_libs gw_DefaultConfig (gatewayPatterns (pathPattern ''/api/'')))
      (concat (replicate 22 [0, 1, 2])) (demo_threads, newGatewayShared gw_DefaultConfig)) ! 1 =
      Connection demo_env ((demo_req ''/api/api/x'')\<lparr>Method := ''OPTIONS''\<rparr>) (Finished w lg) \<and> lg = [] \<and> status_sent w = 204"
proof -
  have "attempts_max gw_DefaultConfig = 4" by (simp add: attempts_max_def gw_DefaultConfig_def wrap64_def)
  moreover have "count_list (concat (replicate 22 [0, 1, 2 :: nat])) 1 = 22" by (simp add: numeral_eq_Suc)
  moreover have "table_from (lib_tables demo_libs) {demo_answer} (ae_routes (ge_attempts demo_env i))" for i
    using table_from.refreshed [OF table_from.initial, of "fst demo_answer" "snd demo_answer" "{demo_answer}"]
    by (simp add: demo_env_def demo_libs_def)
  ultimately show ?thesis
    using concurrent_requests_answered [of demo_threads 1 demo_env "(demo_req ''/api/api/x'')\<lparr>Method := ''OPTIONS''\<rparr>"
        gw_DefaultConfig "concat (replicate 22 [0, 1, 2])" demo_libs "gatewayPatterns (pathPattern ''/api/'')"
        "newGatewayShared gw_DefaultConfig" _ "{demo_answer}"]
    by (simp add: demo_threads_def)
qed

text \<open>What a request has sent upstream so far.\<close>

fun upstream :: "gw_thread \<Rightarrow> attempt list" where
  "upstream (Connection env r pc) =
     (case pc of InProxy w t \<Rightarrow> cl_log (snd t) | Leaving w lg \<Rightarrow> lg | Finished w lg \<Rightarrow> lg | _ \<Rightarrow> [])"
| "upstream (Evictor ts) = []"

fun client_at :: "string \<Rightarrow> (time \<Rightarrow> bool) \<Rightarrow> gw_thread \<Rightarrow> bool" where
  "client_at k P (Connection env r pc) \<longleftrightarrow> clientIPAddress r = k \<and> P (limiter_at (ge_times env))"
| "client_at k P (Evictor ts) \<longleftrightarrow> False"

lemma upstream_passed: "Enabled (RateLimit cfg) \<Longrightarrow> of_bool (client_at k P t \<and> upstream t \<noteq> []) \<le> passed cfg k P t"
  by (cases t) (auto split: request_pc.splits)

text \<open>C11: The rate limit holds under concurrency. However the goroutines of all requests and the limiter's
  eviction loop are interleaved, as long as the clock that is read under the limiter's lock does not go
  back, at most twice the permit limit of one client's requests that passed the limiter in an interval
  as long as the window have sent anything to a backend.\<close>

theorem concurrent_rate_bound:
  assumes "interleaved (gw_step L cfg mux) ts0 (newGatewayShared cfg) ts s" and "list_all waiting ts0"
    and "Enabled (RateLimit cfg)" and "is_int64 (PermitLimit (RateLimit cfg))" and "ordered_events (sh_events s)"
  shows "int (length (filter (\<lambda>t. client_at k (\<lambda>u. t0 \<le> u \<and> u \<le> t0 + wrap64 (WindowSeconds (RateLimit cfg) * Second)) t \<and>
      upstream t \<noteq> []) ts)) \<le> 2 * permits (PermitLimit (RateLimit cfg))"
proof -
  let ?rl = "NewRateLimiter (PermitLimit (RateLimit cfg)) (WindowSeconds (RateLimit cfg))"
  let ?P = "\<lambda>u. t0 \<le> u \<and> u \<le> t0 + wrap64 (WindowSeconds (RateLimit cfg) * Second)"
  have start: "history_ok ?rl (newGatewayShared cfg)" "granted ?rl k ?P (newGatewayShared cfg) = 0"
    by (simp_all add: history_ok_def granted_def newGatewayShared_def)
  have "passed cfg k ?P t = 0" if "t \<in> set ts0" for t
    using assms(2) that by (cases t) (auto simp: list_all_iff)
  then have zero: "sum_list (map (passed cfg k ?P) ts0) = 0" by (simp add: sum_list_eq_0_iff)
  have "length (filter (\<lambda>t. client_at k ?P t \<and> upstream t \<noteq> []) ts) \<le> sum_list (map (passed cfg k ?P) ts)"
    unfolding length_filter_sum using upstream_passed [OF assms(3)] by (rule sum_list_mono)
  also have "\<dots> \<le> granted ?rl k ?P s"
    using limited.interleaved_charged [OF assms(1) start(1), of k ?P] start(2) zero by simp
  finally have "int (length (filter (\<lambda>t. client_at k ?P t \<and> upstream t \<noteq> []) ts)) \<le>
      among ?P (Rate_Limiter.admitted k (sh_events s) ?rl)" by (simp add: granted_def among_def)
  also have "\<dots> \<le> 2 * permits (PermitLimit (RateLimit cfg))"
    using admitted_interval [OF limiter_wf_new [OF assms(4)] assms(5), of t0 "WindowSeconds (RateLimit cfg)" k]
    by (simp add: NewRateLimiter_def)
  finally show ?thesis .
qed

theorem concurrent_rate_bound_witness:
  "let (ts, s) = scheduled (gw_step demo_libs gw_DefaultConfig (gatewayPatterns (pathPattern ''/api/'')))
       [0, 0, 2] (demo_threads, newGatewayShared gw_DefaultConfig)
   in int (length (filter (\<lambda>t. client_at ''10.1.1.1'' (\<lambda>u. 0 \<le> u \<and> u \<le> 60000000000) t \<and> upstream t \<noteq> []) ts)) \<le> 200"
proof -
  let ?x = "scheduled (gw_step demo_libs gw_DefaultConfig (gatewayPatterns (pathPattern ''/api/'')))
    [0, 0, 2] (demo_threads, newGatewayShared gw_DefaultConfig)"
  have "clientIPAddress (demo_req ''/api/api/x'') = ''10.1.1.1''" by code_simp
  then have "sh_events (snd ?x) = [Request 5 ''10.1.1.1'', Evict 6]"
    by (simp add: demo_threads_def request_step_def newGatewayShared_def demo_env_def demo_req_def gw_DefaultConfig_def split_beta Let_def)
  then have "ordered_events (sh_events (snd ?x))" by (simp add: ordered_events_def)
  moreover have "Enabled (RateLimit gw_DefaultConfig)" "PermitLimit (RateLimit gw_DefaultConfig) = 100"
    "wrap64 (WindowSeconds (RateLimit gw_DefaultConfig) * Second) = 60000000000" "list_all waiting demo_threads"
    by (simp_all add: gw_DefaultConfig_def wrap64_def demo_threads_def)
  ultimately show ?thesis
    using concurrent_rate_bound [OF scheduled_interleaved [where ks = "[0, 0, 2]"], of demo_threads gw_DefaultConfig
        demo_libs "gatewayPatterns (pathPattern ''/api/'')" "''10.1.1.1''" 0]
    by (simp add: split_beta permits_def int_range_defs)
qed

end
