(* ===== verification/Mesh_Routing.thy ===== *)
theory Mesh_Routing
  imports Discovery_Threads Gateway_Proxy
begin

text \<open>
  The discovery server, the Consul agent and the gateway together: which calls to the discovery
  server decide whether the gateway routes to an instance. The agent is an argument; \<open>consul_catalog\<close>
  and \<open>consul_isolates\<close> say what is relied on, and \<open>mem_agent\<close> satisfies both.
\<close>

section \<open>Components together\<close>






section \<open>Health of an instance\<close>



lemma set_check_simps [simp]:
  "entry_Service (set_check st cid e) = entry_Service e"
  "other_checks i (set_check st (checkID i) e) = other_checks i e"
  by (auto simp: set_check_def other_checks_def filter_map comp_def intro!: map_idI filter_cong)


section \<open>The catalog after a call\<close>









section \<open>What the gateway makes of the catalog\<close>





section \<open>Properties\<close>





end
