(* ===== verification/Spec2Isabelle.thy ===== *)
theory Spec2Isabelle
  imports Circuit_Breaker Rate_Limiter Load_Balancer Health_Cache Messaging Consul_Registry
    Health_Worker Discovery_Server Discovery_Threads Gateway_Config Gateway_Routes Gateway_Proxy Gateway_Auth
    Gateway_Middleware Gateway_Dashboard Gateway_Retry Gateway_Server Processes
    Process_Lifecycle Balancer_Threads Gateway_Threads Gateway_Requests Mesh_Routing
begin

text \<open>
  ToskaMesh: a service mesh in Go, modelled and verified.

  \<^bold>\<open>The program.\<close> Three processes share a Consul agent. The \<^emph>\<open>discovery server\<close>
  (\<^verbatim>\<open>cmd/discovery\<close>, \<^verbatim>\<open>internal/discovery\<close>) registers services, answers which instances a service has
  and takes health reports. The \<^emph>\<open>health monitor\<close> (\<^verbatim>\<open>cmd/healthmonitor\<close>, \<^verbatim>\<open>internal/healthmonitor\<close>) probes
  every registered instance in cycles, behind a circuit breaker per instance, and caches what it
  found. The \<^emph>\<open>gateway\<close> (\<^verbatim>\<open>cmd/gateway\<close>, \<^verbatim>\<open>internal/gateway\<close>) polls Consul into a route table and
  proxies client requests to healthy instances, with retries and breakers, behind logging,
  cross-origin, rate-limiting and token middleware; it also serves a dashboard. The first two
  publish events to RabbitMQ (\<^verbatim>\<open>internal/messaging\<close>). \<^verbatim>\<open>internal/router\<close> is a load-balancing library.

  \<^bold>\<open>How it is modelled.\<close> A struct is a \<open>record\<close>, an enumeration a \<open>datatype\<close>, a method a function
  from its receiver and arguments to its results and the updated receiver. An operation that
  runs under a mutex is one step. Go's \<^verbatim>\<open>int\<close> and durations are \<open>int\<close> with 64-bit wrap-around written
  out, atomic counters are words, instants are nanoseconds since year one (an \<open>int\<close>; that a
  difference saturates and a sum wraps is written out), strings are byte strings, a Go map is an
  association list of which only the lookup is used, and Go errors are their messages. Every
  reading of the clock and every random draw is an argument, so the theorems hold for all of
  them. What is outside the repository is an argument too: the Consul agent (\<open>consul_api\<close>), the AMQP
  client (\<open>amqp\<close>), the JSON codec, the keyed hash, the network (\<open>probe_env\<close>, \<open>attempt_env\<close>), the Unicode
  tables, what \<^verbatim>\<open>Listen\<close> and \<^verbatim>\<open>Serve\<close> return.

  What is assumed of Consul, where a theorem needs it, is named: an accepted registration is listed
  (\<open>consul_lists_registered\<close>) and a passed TTL check passes (\<open>consul_ttl_passes\<close>), which \<open>mem_consul\<close>
  satisfies; and for sequences of calls, over a view of the catalog, that every accepted call does what
  Consul documents (\<open>consul_catalog\<close>) and leaves other instances alone (\<open>consul_isolates\<close>), which
  \<open>mem_agent\<close> satisfies. One law is assumed of the AMQP client (\<open>amqp_counts\<close>): what opens and closes
  connections; \<open>counting_amqp\<close> satisfies it. One is assumed of the JSON codec (\<open>claims_codec\<close>): which claims
  come back from the encoding of any map of claims; \<open>flatMarshal\<close> and \<open>flatUnmarshal\<close> satisfy it.

  \<^bold>\<open>The theories.\<close>
  \<^item> \<^verbatim>\<open>Mesh_Prelude\<close>: machine integers, time, Go maps, the loop over a ticker and a context that the
    background tasks share, and the locales \<open>finite_map\<close> (a map), \<open>get_or_create\<close> (the lookup that
    inserts a default, which four components use) and \<open>polling\<close> (a loop whose state reflects the last
    listing that succeeded, as the route table and the health monitor do).
  \<^item> \<^verbatim>\<open>Go_Strings\<close>, \<^verbatim>\<open>Go_Net\<close>: what the program uses of \<^verbatim>\<open>strings\<close>, \<^verbatim>\<open>strconv\<close>, \<^verbatim>\<open>net\<close> and \<^verbatim>\<open>net/http\<close>.
  \<^item> \<^verbatim>\<open>Go_Mux\<close>: \<^verbatim>\<open>http.ServeMux\<close>: patterns with methods, hosts and wildcards, conflicts, the routing tree,
    redirects, 404 and 405; without wildcards the longest pattern that matches is found.
  \<^item> \<^verbatim>\<open>Go_Float\<close>: rounding of \<^verbatim>\<open>float64\<close> and the conversion to \<^verbatim>\<open>int64\<close>.
  \<^item> \<^verbatim>\<open>Mesh_Types\<close>: health status, its severity order, service instances.
  \<^item> \<^verbatim>\<open>Circuit_Breaker\<close> (\<^verbatim>\<open>healthmonitor/breaker.go\<close>): invariant, refinement of an abstract breaker,
    tripping at the threshold, failing fast, one probe at a time, recovery; the locale
    \<open>admission_gate\<close> is what the worker and the proxy rely on.
  \<^item> \<^verbatim>\<open>Rate_Limiter\<close> (\<^verbatim>\<open>gateway/middleware.go\<close>): exact behaviour in a window, the bound on any interval,
    independence of clients and of eviction.
  \<^item> \<^verbatim>\<open>Load_Balancer\<close> (\<^verbatim>\<open>router\<close>): usable selection for all five strategies, fairness of round robin and
    its weighted form, minimality of least connections, statistics that add up.
  \<^item> \<^verbatim>\<open>Health_Cache\<close> (\<^verbatim>\<open>healthmonitor/cache.go\<close>): refinement of a finite map; locale \<open>keyed_store\<close>.
  \<^item> \<^verbatim>\<open>Messaging\<close> (\<^verbatim>\<open>messaging\<close>): envelopes, publishing on every error path, unique message IDs.
  \<^item> \<^verbatim>\<open>Consul_Registry\<close> (\<^verbatim>\<open>consul/registry.go\<close>): the client of Consul; TTL bounds, health as the worst
    check, a registration is listed.
  \<^item> \<^verbatim>\<open>Health_Worker\<close> (\<^verbatim>\<open>healthmonitor/worker.go\<close>): one probe cycle; published transitions, what the cache
    holds after a cycle, and that every interleaving of concurrent probes agrees with probing in
    turn.
  \<^item> \<^verbatim>\<open>Discovery_Server\<close> (\<^verbatim>\<open>discovery/server.go\<close>): the RPC handlers; the event log replays to the tracked
    state, a registered service is listed, addresses are resolved to reachable ones.
  \<^item> \<^verbatim>\<open>Discovery_Threads\<close> (the same file): the handlers as concurrent threads over a store of shared
    entries. A call alone does what the atomic handler does; calls for different services never
    disturb the event log; two reports for one service can.
  \<^item> \<^verbatim>\<open>Gateway_Config\<close> (\<^verbatim>\<open>gateway/config.go\<close>, \<^verbatim>\<open>cmd/gateway/main.go\<close>): configuration from the environment.
  \<^item> \<^verbatim>\<open>Gateway_Routes\<close> (\<^verbatim>\<open>gateway/routes.go\<close>): routing to exactly the healthy instances; path parsing.
  \<^item> \<^verbatim>\<open>Gateway_Proxy\<close> (\<^verbatim>\<open>gateway/proxy.go\<close>): what the client gets, what backends get, how breakers bound
    the retries.
  \<^item> \<^verbatim>\<open>Gateway_Auth\<close> (tokens of \<^verbatim>\<open>gateway/middleware.go\<close> and \<^verbatim>\<open>gateway/dashboard.go\<close>): when a token is
    accepted; for how long and by whom the service token, with the claims that the code puts into it,
    is accepted.
  \<^item> \<^verbatim>\<open>Gateway_Middleware\<close> (\<^verbatim>\<open>gateway/middleware.go\<close>, \<^verbatim>\<open>cmd/gateway/main.go\<close>): which requests get through the
    composed chain.
  \<^item> \<^verbatim>\<open>Gateway_Retry\<close> (\<^verbatim>\<open>retryDelay\<close> of \<^verbatim>\<open>gateway/proxy.go\<close>): bounds of the backoff, and where it overflows.
  \<^item> \<^verbatim>\<open>Gateway_Dashboard\<close> (\<^verbatim>\<open>gateway/dashboard.go\<close>): the catalog and the forwarding proxy.
  \<^item> \<^verbatim>\<open>Gateway_Server\<close> (\<^verbatim>\<open>run\<close> of \<^verbatim>\<open>cmd/gateway/main.go\<close>, \<^verbatim>\<open>Handler\<close> of \<^verbatim>\<open>gateway/dashboard.go\<close>): the gateway put
    together, from the client's request to the backends: where a request is dispatched, that
    only admitted and authorised requests reach a backend and that this is a healthy instance of
    the service, how many requests a client gets through, and the gap in the token check.
  \<^item> \<^verbatim>\<open>Processes\<close> (\<^verbatim>\<open>cmd\<close>): the three \<^verbatim>\<open>run\<close> functions, their configuration, that the background loops keep the
    route table and the cache at the last listing of the registry, and the interface of the health
    monitor.
  \<^item> \<^verbatim>\<open>Process_Lifecycle\<close> (\<^verbatim>\<open>cmd\<close>): \<^verbatim>\<open>main\<close>, the servers' settings, and the life of a process as a step relation
    over the shutdown goroutine, the main goroutine and the requests in progress, with failures to bind
    and to accept, and panics: a signal ends it, what each exit code means, and that the gateway and
    the monitor do not wait for their own shutdown.
  \<^item> \<^verbatim>\<open>Interleaving\<close>: threads over a shared state, with the locales \<open>conserved\<close> (what every step only moves
    between the threads and the state is kept by every schedule), \<open>charged\<close> (a budget that the threads
    draw on), \<open>mutual_exclusion\<close> (what a mutex gives)
    and \<open>thread_progress\<close> (a thread ends after enough turns of its own).
  \<^item> \<^verbatim>\<open>Balancer_Threads\<close> (\<^verbatim>\<open>router/balancer.go\<close>): concurrent calls of the balancer, whose counters are changed
    outside of its mutex. A call alone is the sequential one; rotations stay fair and connection
    counts exact under every schedule.
  \<^item> \<^verbatim>\<open>Gateway_Threads\<close> (\<^verbatim>\<open>gateway/proxy.go\<close>): concurrent requests over the shared breakers. A request alone
    is \<^verbatim>\<open>ServeHTTP\<close>; every request is answered, by its own attempts; the breaker bounds the calls that
    all of them together make to a failing backend.
  \<^item> \<^verbatim>\<open>Gateway_Requests\<close> (\<^verbatim>\<open>run\<close> of \<^verbatim>\<open>cmd/gateway/main.go\<close>, \<^verbatim>\<open>gateway/middleware.go\<close>, \<^verbatim>\<open>gateway/proxy.go\<close>): the whole
    handler of the gateway as threads that share the limiter, the breakers and the access log, with the
    limiter's eviction loop beside them. A request alone is the sequential gateway; every request is
    answered and reaches a backend only when it may; the rate limit holds under every schedule.
  \<^item> \<^verbatim>\<open>Mesh_Routing\<close> (\<^verbatim>\<open>discovery/server.go\<close>, \<^verbatim>\<open>consul/registry.go\<close>, \<^verbatim>\<open>gateway/routes.go\<close>): the last call to the
    discovery server about an instance decides whether the gateway routes to it.
  \<^item> This theory: from registration to routing, across the discovery server, the registry and the
    gateway, and from the probes of the health monitor to the dashboard of the gateway.

  \<^bold>\<open>Bounds.\<close> No definition of the program runs on fuel; the parser of the example codec in
  \<^verbatim>\<open>Gateway_Auth\<close> gets the length of its input, which is enough (\<open>getEntries_put\<close>). The retry loop of the proxy recurses on the number of
  attempts that are left, \<open>RetryCount + 1\<close> in 64-bit arithmetic; loops over collections are recursions
  or folds over lists. Theorems that count calls state the bound under which a 64-bit counter
  does not overflow as a hypothesis.

  Concurrent executions are schedules of any length; where an end is claimed, the number of turns that
  is enough is stated: four for each attempt of a proxied request and one more in the proxy or six more in
  the whole gateway, two for each candidate
  and each service and four more for a call of the balancer.

  \<^bold>\<open>Not modelled.\<close> The generated protocol code beyond the messages that the server uses; what the
  configured time-outs of \<^verbatim>\<open>net/http\<close> do to a connection; gRPC reflection and its health service, which
  \<^verbatim>\<open>run\<close> only registers (what \<^verbatim>\<open>Serve\<close> returns, and when, is the parameter \<open>waits\<close>); a signal before \<^verbatim>\<open>run\<close>
  watches for signals, or one that cannot be caught, which ends the process at once; log output
  other than the access log, and with it the error values that are only logged. A background loop is
  given by the sequence of its wake-ups, and the theorems hold for every sequence. Interleaving is
  modelled step by step for the probes of a cycle, the handlers of the discovery server that change
  state, the balancer, the proxy and the whole handler of the gateway. The handlers of the discovery
  server that only read are not threads of their own: they read each tracked entry under the lock and
  change nothing. The rate limiter, the caches and the registry hold their mutex throughout an operation,
  which makes it one step. The route table that a lookup reads is part of the environment of the
  attempt; what is assumed of it (\<open>table_from\<close>) is that it comes from refreshes.
\<close>

section \<open>Components together\<close>

text \<open>The worker's cycle, through the Consul registry.\<close>

definition probeCycle ::
  "'w consul_api \<Rightarrow> Registry \<Rightarrow> 'w \<Rightarrow> 'p publish \<Rightarrow> (nat \<Rightarrow> probe_env) \<Rightarrow> 'p Worker \<Rightarrow> 'p Worker" where
  "probeCycle api reg w pub envs wk =
     probeAll pub (Registry_GetServices api w) (\<lambda>s. Registry_GetInstances api s reg w) envs wk"




text \<open>
  The exemption from the token check is by prefix, so with the route prefix \<^verbatim>\<open>/\<close> a request to a
  service whose name starts with \<^verbatim>\<open>health\<close> needs no token.
\<close>

lemma exempt_prefix_reaches_services:
  assumes "CHR ''/'' \<notin> set x" and "URL_Path r = ''/health'' @ x @ CHR ''/'' # y"
  shows "authorized mac unmarshal now cfg r \<and>
    ParseServiceFromPath (normalizePrefix ''/'') (URL_Path r) = Some (''health'' @ x, CHR ''/'' # y)"
proof -
  have "normalizePrefix ''/'' = ''/''" by (simp add: normalizePrefix_def HasPrefix_def HasSuffix_def)
  moreover have "HasPrefix (URL_Path r) ''/health''" using assms(2) by (simp add: HasPrefix_def)
  ultimately show ?thesis using assms
    by (auto simp: authorized_def jwtSkipPaths_def ParseServiceFromPath_Some)
qed

text \<open>
  The multiplexer is given the route prefix as it is configured, and a pattern that does not end
  in a slash matches that very path only; on it the proxy finds no service.
\<close>

lemma unslashed_prefix_routes_nothing:
  "\<not> HasSuffix p ''/'' \<Longrightarrow> ParseServiceFromPath (normalizePrefix p) p = None"
  by (cases p rule: rev_cases)
    (auto simp: ParseServiceFromPath_def normalizePrefix_def HasPrefix_def HasSuffix_def Let_def)

section \<open>From the health monitor to the dashboard\<close>

text \<open>What a client gets of what a handler has written, and a network that carries the requests for
  the base URL to the health monitor.\<close>

definition response_of :: "writer \<Rightarrow> go_int \<times> header \<times> string" where
  "response_of w = (status_sent w, case rw_wrote w of Some (_, h) \<Rightarrow> h | None \<Rightarrow> rw_Header w, rw_body w)"

definition status_request :: "string \<Rightarrow> string \<Rightarrow> dash_request \<Rightarrow> request" where
  "status_request host addr q =
     \<lparr>Method = dr_Method q, URL_Path = ''/api/status'', EscapedPath = ''/api/status'', RawQuery = [],
      req_Header = dr_Header q, RemoteAddr = addr, req_Host = host, URL_Host = [], req_Body = dr_Body q\<rparr>"

definition monitor_reached ::
  "dash_env \<Rightarrow> string \<Rightarrow> (request \<Rightarrow> writer \<Rightarrow> writer) \<Rightarrow> bool" where
  "monitor_reached env baseURL handler \<longleftrightarrow>
     (\<forall>q. dr_URL q = baseURL @ ''/api/status'' \<longrightarrow>
        de_NewRequest env (dr_Method q) (dr_URL q) = None \<and>
        (\<exists>host addr. de_Do env q = Inr (response_of (handler (status_request host addr q) new_writer))))"

lemma findHandler_cong:
  "hostless mux \<Longrightarrow> Method r = Method r' \<Longrightarrow> EscapedPath r = EscapedPath r' \<Longrightarrow> URL_Path r = URL_Path r' \<Longrightarrow>
     findHandler mux r = findHandler mux r'"
  by (simp only: findHandler_hostless matchedPath_def)

lemma snapshot_dispatch:
  assumes "Method r = ''GET''" "EscapedPath r = ''/api/dashboard/health''" "URL_Path r = ''/api/dashboard/health''"
  shows "findHandler (gatewayPatterns (pathPattern ''/api/'')) r = Found DashboardRoute []"
    and "findHandler dashboardMux r = Found SnapshotRoute []"
proof -
  have r: "findHandler mux r = findHandler mux (demo_req ''/api/dashboard/health'')"
    if "hostless mux" for mux :: "'a pattern list"
    using assms by (intro findHandler_cong that) (simp_all add: demo_req_def)
  have "findHandler (gatewayPatterns (pathPattern ''/api/'')) (demo_req ''/api/dashboard/health'') =
      Found DashboardRoute []" by code_simp
  then show "findHandler (gatewayPatterns (pathPattern ''/api/'')) r = Found DashboardRoute []"
    by (simp only: r [OF gateway_hostless])
  have hostless: "hostless dashboardMux" by code_simp
  have "findHandler dashboardMux (demo_req ''/api/dashboard/health'') = Found SnapshotRoute []" by code_simp
  then show "findHandler dashboardMux r = Found SnapshotRoute []" by (simp only: r [OF hostless])
qed

lemma status_answer:
  assumes "dr_Method q = ''GET''"
  shows "\<exists>h. response_of (monitorHandler redirect encode monitorPatterns cache (status_request host addr q) new_writer) =
    (200, h, encode (GetAll cache))"
proof -
  have clean: "cleanPath ''/api/status'' = ''/api/status''" by (simp add: cleanPath_def cleanSegments_def)
  have segs: "pathSegs ''/api/status'' = [''api'', ''status'']" by (simp add: pathSegs_def pathUnescape_def)
  have "findHandler monitorPatterns (status_request host addr q) = Found StatusRoute []"
    using monitor_find [of "status_request host addr q"] clean segs assms
    by (simp add: status_request_def rooted_def matchedPath_def)
  then show ?thesis
    by (simp add: monitorHandler_def ServeMux_def monitorServe_def response_of_def Write_def sendHeader_def on_header_def
        new_writer_def status_sent_def bodyAllowed_def Let_def)
qed

lemma written_through:
  "fresh_writer w \<Longrightarrow> let w' = Write bytes (WriteHeader 200 (on_header f w)) in
     status_sent w' = 200 \<and> rw_body w' = bytes"
  by (simp add: fresh_writer_def Write_def WriteHeader_def sendHeader_def on_header_def status_sent_def
      bodyAllowed_def Let_def)

text \<open>C9: What the dashboard shows. With the default prefix, and with the health monitor behind its base
  URL, \<^verbatim>\<open>GET /api/dashboard/health\<close> of a client that the rate limiter admits is answered, without a
  token, with status 200 and the encoded reports of the last probe cycle, of which there is one
  for each instance ID that the registry listed in that cycle and no other.\<close>

theorem dashboard_shows_probed_instances:
  assumes "worker_wf wk" and "cache = w_cache (probeAll pub (Inr names) getInstances envs wk)"
    and "monitor_reached (ge_dash env) (HealthMonitorBaseURL (Dashboard cfg))
      (monitorHandler redirect encode mux' cache)"
    and "NewMux monitorRoutes [] = Some mux'" and "NewMux (gatewayRoutes ''/api/'') [] = Some mux"
    and "Method r = ''GET''" "EscapedPath r = ''/api/dashboard/health''" "URL_Path r = ''/api/dashboard/health''"
      "RawQuery r = []"
    and "fresh_writer w" and "admitted_by_limiter cfg (limiter_at (ge_times env)) r (gs_limiter s)"
  shows "let w' = fst (gateway L cfg mux env r w s) in
    status_sent w' = 200 \<and> rw_body w' = encode (GetAll cache) \<and>
    mi_ServiceID ` set (GetAll cache) = ServiceID ` set (listed getInstances names) \<and>
    distinct (map mi_ServiceID (GetAll cache))"
proof -
  have plain: "plain_path ''/api/''" by (simp add: plain_path_def)
  have "pathPattern ''/api/'' \<noteq> dashSegs"
    by (simp add: pathPattern_def literalSegment_def pathUnescape_def dashSegs_def)
  then have mux: "mux = gatewayPatterns (pathPattern ''/api/'')" using assms(5) gateway_mux [OF plain] by simp
  have mux': "mux' = monitorPatterns" using assms(4) monitor_mux by simp
  have "authorized (lib_mac L) (lib_unmarshal L) (jwt_at (ge_times env)) (JWT cfg) r"
    using assms(8) by (simp add: authorized_def jwtSkipPaths_def HasPrefix_def)
  then obtain w1 s1 where w1: "fresh_writer w1" "fst (gateway L cfg mux env r w s) =
      fst (ServeMux (lib_redirect L) (gatewayServe L env cfg) mux r w1 s1)"
    using chain_admission [OF assms(10), of "lib_tables L" "lib_mac L" "lib_unmarshal L" "ge_times env" cfg
        "ServeMux (lib_redirect L) (gatewayServe L env cfg) mux" r s] assms(6,11)
    by (auto simp: gateway_def Let_def)
  let ?denv = "(ge_dash env)\<lparr>de_token := signServiceToken (lib_mac L) (lib_marshal L) (lib_compact L)
    (ge_now env) (ServiceAuthSecret (Dashboard cfg))\<rparr>"
  let ?base = "HealthMonitorBaseURL (Dashboard cfg)"
  have "fst (gateway L cfg mux env r w s) = dashProxy (Dashboard cfg) ?denv ?base ''/api/status'' r w1"
    unfolding w1(2) using snapshot_dispatch [OF assms(6-8)] mux
    by (simp add: ServeMux_def gatewayServe_def dashboardHandler_def dashboardServe_def Let_def)
  moreover have q: "dr_URL (dashRequest (Dashboard cfg) ?denv r ?base ''/api/status'') = ?base @ ''/api/status''"
    "dr_Method (dashRequest (Dashboard cfg) ?denv r ?base ''/api/status'') = ''GET''"
    using assms(6,9) by (simp_all add: dashRequest_def Let_def)
  moreover obtain h where "de_NewRequest ?denv ''GET'' (?base @ ''/api/status'') = None"
    "de_Do ?denv (dashRequest (Dashboard cfg) ?denv r ?base ''/api/status'') = Inr (200, h, encode (GetAll cache))"
    using assms(3) q status_answer [OF q(2), of redirect encode cache] unfolding monitor_reached_def mux'
    by (simp del: append_assoc) (metis q(1))
  ultimately have "fst (gateway L cfg mux env r w s) =
      Write (encode (GetAll cache)) (WriteHeader 200 (on_header (Header_AddAll h) w1))"
    by (simp add: dashProxy_def Let_def)
  then show ?thesis
    using written_through [OF w1(1)] probeAll_IDs [OF assms(1)] worker_wf_probeAll [OF assms(1)] assms(2) distinct_GetAll
    by (simp add: Let_def worker_wf_def)
qed

definition demo_monitor_env :: "Cache \<Rightarrow> gw_env" where
  "demo_monitor_env cache =
     demo_env\<lparr>ge_dash := \<lparr>de_NewRequest = (\<lambda>_ _. None),
       de_Do = (\<lambda>q. Inr (response_of (monitorHandler (\<lambda>_ _ w. w) (\<lambda>ms. Join (map mi_ServiceID ms) '','')
         monitorPatterns cache (status_request ''monitor'' ''10.0.0.9:4711'' q) new_writer))),
       de_token = []\<rparr>\<rparr>"

theorem dashboard_shows_probed_instances_witness:
  "let cache = w_cache (probeAll record_event (Inr [''api'']) (\<lambda>_. Inr [demo_target ''a'' []])
         (\<lambda>_. demo_probe_env) demo_worker)
   in rw_body (fst (gateway demo_libs gw_DefaultConfig (gatewayPatterns (pathPattern ''/api/'')) (demo_monitor_env cache)
        (demo_req ''/api/dashboard/health'') new_writer (newGateway gw_DefaultConfig))) = ''a''"
proof -
  let ?cache = "w_cache (probeAll record_event (Inr [''api'']) (\<lambda>_. Inr [demo_target ''a'' []])
    (\<lambda>_. demo_probe_env) demo_worker)"
  let ?encode = "\<lambda>ms. Join (map mi_ServiceID ms) '',''" and ?r = "demo_req ''/api/dashboard/health''"
  have "monitor_reached (ge_dash (demo_monitor_env ?cache)) (HealthMonitorBaseURL (Dashboard gw_DefaultConfig))
      (monitorHandler (\<lambda>_ _ w. w) ?encode monitorPatterns ?cache)"
    by (auto simp: monitor_reached_def demo_monitor_env_def)
  moreover have "pathPattern ''/api/'' \<noteq> dashSegs" "plain_path ''/api/''"
    by (simp_all add: pathPattern_def literalSegment_def pathUnescape_def dashSegs_def plain_path_def)
  then have "NewMux (gatewayRoutes ''/api/'') [] = Some (gatewayPatterns (pathPattern ''/api/''))"
    using gateway_mux [of "''/api/''"] by simp
  moreover have "admitted_by_limiter gw_DefaultConfig (limiter_at (ge_times (demo_monitor_env ?cache))) ?r
      (gs_limiter (newGateway gw_DefaultConfig))"
    by (simp add: admitted_by_limiter_def newGateway_def newGatewayState_def NewRateLimiter_def allow_def Let_def
        gw_DefaultConfig_def)
  moreover have "?encode (GetAll ?cache) = ''a''" by code_simp
  ultimately show ?thesis
    using dashboard_shows_probed_instances [OF demo_worker_wf refl _ monitor_mux, of "demo_monitor_env ?cache"
        gw_DefaultConfig "\<lambda>_ _ w. w" ?encode record_event "[''api'']" "\<lambda>_. Inr [demo_target ''a'' []]"
        "\<lambda>_. demo_probe_env"]
    by (simp add: demo_req_def Let_def)
qed

end
